(* ===== verification/Prelude.thy ===== *)
theory Prelude
  imports Main "HOL-Library.State_Monad" "HOL-Library.AList" "HOL-Library.Sublist"
    "HOL-Library.Char_ord" "HOL-Library.List_Lexorder"
begin

section \<open>Prelude: strings, maps and the state monad\<close>

text \<open>
  What every component shares: the string functions of Go's \<^verbatim>\<open>strings\<close> package
  that the sources call (a Go string is a byte sequence, here a \<^typ>\<open>string\<close>, whose
  characters are bytes), a few facts on association lists, and a small calculus for the state
  monad of the library in which the effectful code is written: \<open>wp\<close> runs a program
  against a postcondition, \<open>preorder_steps\<close> carries a reflexive and transitive relation
  on states through a program.
\<close>

subsection \<open>The development's collections\<close>

named_theorems wp_rules \<open>weakest-precondition equations of the model's programs\<close>
named_theorems path_simps \<open>equations on paths and on the file tree\<close>
named_theorems fs_defs \<open>definitions of the modelled system calls\<close>

subsection \<open>Strings\<close>

text \<open>\<^verbatim>\<open>strings.HasPrefix(s, p)\<close>, \<^verbatim>\<open>HasSuffix\<close>,
  \<^verbatim>\<open>Contains\<close> and \<^verbatim>\<open>TrimPrefix\<close>, in the order of Go's arguments.\<close>

fun has_prefix :: "string \<Rightarrow> string \<Rightarrow> bool" where
  "has_prefix s [] = True"
| "has_prefix [] (c # p) = False"
| "has_prefix (d # s) (c # p) = (d = c \<and> has_prefix s p)"

definition has_suffix :: "string \<Rightarrow> string \<Rightarrow> bool" where
  "has_suffix s p = has_prefix (rev s) (rev p)"

fun str_contains :: "string \<Rightarrow> string \<Rightarrow> bool" where
  "str_contains [] p = (p = [])"
| "str_contains (c # s) p = (has_prefix (c # s) p \<or> str_contains s p)"

definition trim_prefix :: "string \<Rightarrow> string \<Rightarrow> string" where
  "trim_prefix s p = (if has_prefix s p then drop (length p) s else s)"

lemma has_prefix_iff_prefix: "has_prefix s p \<longleftrightarrow> prefix p s"
  by (induction s p rule: has_prefix.induct) auto

lemma has_prefix_append [simp]: "has_prefix (p @ s) p"
  by (simp add: has_prefix_iff_prefix)

lemma trim_prefix_append [simp]: "trim_prefix (p @ s) p = s"
  by (simp add: trim_prefix_def)

lemma has_prefix_trim: "has_prefix s p \<Longrightarrow> p @ trim_prefix s p = s"
  by (auto simp: has_prefix_iff_prefix trim_prefix_def prefix_def)

lemma has_suffix_append [simp]: "has_suffix (s @ p) p"
  by (simp add: has_suffix_def)

lemma str_contains_iff_sublist: "str_contains s p \<longleftrightarrow> sublist p s"
  by (induction s) (auto simp: has_prefix_iff_prefix sublist_Cons_right)

text \<open>Splitting at a separator, as \<^verbatim>\<open>strings.Split\<close> does: always one field more
  than there are separators.\<close>

fun split_on :: "char \<Rightarrow> string \<Rightarrow> string list" where
  "split_on sep [] = [[]]"
| "split_on sep (c # s) =
     (if c = sep then [] # split_on sep s
      else (case split_on sep s of f # fs \<Rightarrow> (c # f) # fs | [] \<Rightarrow> [[c]]))"

fun join_with :: "char \<Rightarrow> string list \<Rightarrow> string" where
  "join_with sep [] = []"
| "join_with sep [f] = f"
| "join_with sep (f # g # fs) = f @ sep # join_with sep (g # fs)"

lemma split_on_ne [simp]: "split_on sep s \<noteq> []"
  by (induction s) (auto split: list.splits)

lemma split_on_no_sep: "sep \<notin> set s \<Longrightarrow> split_on sep s = [s]"
  by (induction s) auto

lemma split_on_fields: "f \<in> set (split_on sep s) \<Longrightarrow> sep \<notin> set f"
  by (induction s arbitrary: f) (fastforce split: if_splits list.splits)+

lemma join_split [simp]: "join_with sep (split_on sep s) = s"
proof (induction s)
  case (Cons c s)
  obtain f fs where "split_on sep s = f # fs" by (cases "split_on sep s") auto
  with Cons show ?case by (cases fs) auto
qed simp

lemma split_on_append_sep:
  "sep \<notin> set f \<Longrightarrow> split_on sep (f @ sep # s) = f # split_on sep s"
  by (induction f) auto

lemma split_join:
  "fs \<noteq> [] \<Longrightarrow> \<forall>f\<in>set fs. sep \<notin> set f \<Longrightarrow> split_on sep (join_with sep fs) = fs"
  by (induction sep fs rule: join_with.induct) (auto simp: split_on_no_sep split_on_append_sep)

text \<open>\<^verbatim>\<open>strconv.Itoa\<close> on the values the sources print.\<close>

fun digits :: "nat \<Rightarrow> string" where
  "digits n = (if n < 10 then [char_of (48 + n)] else digits (n div 10) @ [char_of (48 + n mod 10)])"

declare digits.simps [simp del]

definition is_digit :: "char \<Rightarrow> bool" where
  "is_digit c = (CHR ''0'' \<le> c \<and> c \<le> CHR ''9'')"

lemma is_digit_of: "(n::nat) < 10 \<Longrightarrow> is_digit (char_of (48 + n))"
  by (simp add: is_digit_def less_eq_char_def of_char_of)

lemma digits_are_digits: "c \<in> set (digits n) \<Longrightarrow> is_digit c"
proof (induction n rule: digits.induct)
  case (1 n)
  then show ?case by (subst (asm) (2) digits.simps) (auto simp: is_digit_of split: if_splits)
qed

lemma digits_ne [simp]: "digits n \<noteq> []"
  by (subst digits.simps) simp

subsection \<open>Association lists\<close>

lemma map_of_AList_update [simp]: "map_of (AList.update k v al) = (map_of al)(k \<mapsto> v)"
  by (rule update_conv')

lemma map_of_AList_delete [simp]: "map_of (AList.delete k al) = (map_of al)(k := None)"
  by (rule delete_conv')

lemma AList_update_fresh: "k \<notin> fst ` set al \<Longrightarrow> AList.update k v al = al @ [(k, v)]"
  by (induction al) auto

lemma AList_delete_absent [simp]: "map_of al k = None \<Longrightarrow> AList.delete k al = al"
  by (simp add: map_of_eq_None_iff)

lemma AList_delete_update_fresh:
  "map_of al k = None \<Longrightarrow> AList.delete k (AList.update k v al) = al"
  by (simp add: delete_update_same map_of_eq_None_iff)

lemma map_of_filter_key:
  "map_of (filter (\<lambda>(k, v). P k) al) k = (if P k then map_of al k else None)"
  by (induction al) auto

lemma sort_remdups_names [simp]: "set (sort (remdups (map fst es))) = fst ` set es"
  by simp

subsection \<open>Running programs of the state monad\<close>

text \<open>\<open>wp m Q s\<close>: run from \<open>s\<close>, the program \<open>m\<close> ends with a value and a state that
  satisfy \<open>Q\<close>. All programs of the model are total, so there is no partial reading.\<close>

definition wp :: "('s, 'a) state \<Rightarrow> ('a \<Rightarrow> 's \<Rightarrow> bool) \<Rightarrow> 's \<Rightarrow> bool" where
  "wp m Q s = (case run_state m s of (x, s') \<Rightarrow> Q x s')"

lemma wp_return [wp_rules]: "wp (State_Monad.return x) Q s = Q x s"
  by (simp add: wp_def)

lemma wp_bind [wp_rules]: "wp (State_Monad.bind m f) Q s = wp m (\<lambda>x. wp (f x) Q) s"
  by (simp add: wp_def split: prod.splits)

lemma wp_bind_eq: "wp (State_Monad.bind m f) Q = wp m (\<lambda>x. wp (f x) Q)"
  by (rule ext) (rule wp_bind)

lemma wp_return_eq: "wp (State_Monad.return x) Q = Q x"
  by (rule ext) (rule wp_return)

lemma wp_get [wp_rules]: "wp State_Monad.get Q s = Q s s"
  by (simp add: wp_def)

lemma wp_set [wp_rules]: "wp (State_Monad.set s') Q s = Q () s'"
  by (simp add: wp_def)

lemma wp_if [wp_rules]: "wp (if b then m else n) Q s = (if b then wp m Q s else wp n Q s)"
  by simp

lemma wp_case_option [wp_rules]:
  "wp (case x of None \<Rightarrow> m | Some y \<Rightarrow> n y) Q s
   = (case x of None \<Rightarrow> wp m Q s | Some y \<Rightarrow> wp (n y) Q s)"
  by (cases x) auto

lemma wp_case_sum [wp_rules]:
  "wp (case x of Inl e \<Rightarrow> m e | Inr y \<Rightarrow> n y) Q s
   = (case x of Inl e \<Rightarrow> wp (m e) Q s | Inr y \<Rightarrow> wp (n y) Q s)"
  by (cases x) auto

lemma wp_case_prod [wp_rules]:
  "wp (case x of (a, b) \<Rightarrow> m a b) Q s = (case x of (a, b) \<Rightarrow> wp (m a b) Q s)"
  by (cases x) auto

lemma wp_mono: "wp m P s \<Longrightarrow> (\<And>x s'. P x s' \<Longrightarrow> Q x s') \<Longrightarrow> wp m Q s"
  by (auto simp: wp_def split: prod.splits)

lemma wp_conj: "wp m (\<lambda>x s. P x s \<and> Q x s) s \<longleftrightarrow> wp m P s \<and> wp m Q s"
  by (auto simp: wp_def split: prod.splits)

lemma wp_run: "wp m Q s \<longleftrightarrow> Q (fst (run_state m s)) (snd (run_state m s))"
  by (simp add: wp_def case_prod_beta)

lemma wpD: "wp m Q s \<Longrightarrow> run_state m s = (x, s') \<Longrightarrow> Q x s'"
  by (simp add: wp_def)

lemma wpI: "(\<And>x s'. run_state m s = (x, s') \<Longrightarrow> Q x s') \<Longrightarrow> wp m Q s"
  by (simp add: wp_def split: prod.splits)

subsection \<open>Relations every step keeps\<close>

text \<open>A reflexive and transitive relation on states that every primitive step respects holds
  between the first and the last state of any program built from these steps. The components
  interpret this locale on the relations they care about (what a read leaves alone, what the
  environment never changes).\<close>

definition along :: "('s \<Rightarrow> 's \<Rightarrow> bool) \<Rightarrow> ('s, 'a) state \<Rightarrow> bool" where
  "along R m = (\<forall>s. R s (snd (run_state m s)))"

lemma along_iff_wp: "along R m \<longleftrightarrow> (\<forall>s. wp m (\<lambda>_. R s) s)"
  by (simp add: along_def wp_run)

lemma alongD: "along R m \<Longrightarrow> run_state m s = (x, t) \<Longrightarrow> R s t"
  by (auto simp: along_def dest: spec [of _ s])

locale preorder_steps =
  fixes R :: "'s \<Rightarrow> 's \<Rightarrow> bool"
  assumes step_refl: "R s s"
    and step_trans: "R s t \<Longrightarrow> R t u \<Longrightarrow> R s u"
begin

lemma along_return: "along R (State_Monad.return x)"
  by (simp add: along_def step_refl)

lemma along_get: "along R State_Monad.get"
  by (simp add: along_def step_refl)

lemma along_bind: "along R m \<Longrightarrow> (\<And>x. along R (f x)) \<Longrightarrow> along R (State_Monad.bind m f)"
  by (auto simp: along_def case_prod_beta intro: step_trans)

lemma along_if: "along R m \<Longrightarrow> along R n \<Longrightarrow> along R (if b then m else n)"
  by simp

lemma along_option:
  "along R m \<Longrightarrow> (\<And>y. along R (n y)) \<Longrightarrow> along R (case x of None \<Rightarrow> m | Some y \<Rightarrow> n y)"
  by (cases x) auto

lemma along_sum:
  "(\<And>e. along R (m e)) \<Longrightarrow> (\<And>y. along R (n y))
   \<Longrightarrow> along R (case x of Inl e \<Rightarrow> m e | Inr y \<Rightarrow> n y)"
  by (cases x) auto

lemma along_prod: "(\<And>a b. along R (m a b)) \<Longrightarrow> along R (case x of (a, b) \<Rightarrow> m a b)"
  by (cases x) auto

lemmas along_intros =
  along_return along_get along_bind along_if along_option along_sum along_prod

lemma along_wp: "along R m \<Longrightarrow> wp m (\<lambda>_. R s) s"
  by (simp add: along_iff_wp)

lemma along_wp_conj: "along R m \<Longrightarrow> wp m Q s \<Longrightarrow> wp m (\<lambda>x s'. Q x s' \<and> R s s') s"
  by (simp add: wp_conj along_wp)

end

end
