(* ===== verification/Json.thy ===== *)
theory Json
  imports Prelude
begin

section \<open>JSON, as encoding/json writes and reads it\<close>

text \<open>
  The part of \<^verbatim>\<open>encoding/json\<close> the sentinel goes through, byte by byte: the compact
  printer with its escapes, and a parser of the whole grammar. The printer replaces a byte that is
  not valid UTF-8 by \<^verbatim>\<open>\ufffd\<close>, so what is read back is the \<open>sanitize\<close>d string:
  equal to the one written exactly when that one is valid UTF-8. The printer's and the parser's
  agreement, \<open>parse_print\<close>, is the round trip the store relies on.
\<close>

subsection \<open>UTF-8\<close>

definition byte :: "char \<Rightarrow> nat" where
  "byte c = of_char c"

text \<open>A continuation byte, within narrower bounds after some first bytes.\<close>

definition cont_in :: "nat \<Rightarrow> nat \<Rightarrow> char \<Rightarrow> bool" where
  "cont_in lo hi c \<longleftrightarrow> lo \<le> byte c \<and> byte c \<le> hi"

text \<open>How many bytes a first byte announces, and which continuation bytes may follow it.\<close>

definition rune_need :: "nat \<Rightarrow> nat" where
  "rune_need b = (if b < 128 then 1 else if 194 \<le> b \<and> b \<le> 223 then 2
     else if 224 \<le> b \<and> b \<le> 239 then 3 else if 240 \<le> b \<and> b \<le> 244 then 4 else 0)"

definition conts_ok :: "nat \<Rightarrow> string \<Rightarrow> bool" where
  "conts_ok b cs = (case cs of [] \<Rightarrow> True | c1 # rest \<Rightarrow>
     cont_in (if b = 224 then 160 else if b = 240 then 144 else 128)
             (if b = 237 then 159 else if b = 244 then 143 else 191) c1
     \<and> list_all (cont_in 128 191) rest)"

text \<open>The size of the rune a string starts with, 0 when it starts with an invalid byte
  (\<^verbatim>\<open>utf8.DecodeRuneInString\<close>).\<close>

fun rune_size :: "string \<Rightarrow> nat" where
  "rune_size [] = 0"
| "rune_size (c # s) =
     (let k = rune_need (byte c)
      in if k \<noteq> 0 \<and> k - 1 \<le> length s \<and> conts_ok (byte c) (take (k - 1) s) then k else 0)"

lemma rune_size_le: "rune_size s \<le> length s"
  by (cases s) (auto simp: Let_def)

lemma rune_size_take:
  "rune_size s \<noteq> 0 \<Longrightarrow> rune_size (take (rune_size s) s @ t) = rune_size s"
  by (cases s) (auto simp: Let_def take_Cons' split: if_splits)

text \<open>The replacement character U+FFFD.\<close>

definition replacement :: string where
  "replacement = [CHR 0xEF, CHR 0xBF, CHR 0xBD]"

function sanitize :: "string \<Rightarrow> string" where
  "sanitize [] = []"
| "sanitize (c # s) =
     (let n = rune_size (c # s) in
      if n = 0 then replacement @ sanitize s
      else take n (c # s) @ sanitize (drop (n - 1) s))"
  by pat_completeness auto
termination
  by (relation "measure length") auto

declare sanitize.simps(2) [simp del]

function valid_utf8 :: "string \<Rightarrow> bool" where
  "valid_utf8 [] = True"
| "valid_utf8 (c # s) =
     (let n = rune_size (c # s) in n \<noteq> 0 \<and> valid_utf8 (drop (n - 1) s))"
  by pat_completeness auto
termination
  by (relation "measure length") auto

declare valid_utf8.simps(2) [simp del]

lemma take_drop_Cons: "n \<noteq> 0 \<Longrightarrow> take n (c # s) @ drop (n - 1) s = c # s"
  by (cases n) auto

lemma sanitize_valid: "valid_utf8 s \<Longrightarrow> sanitize s = s"
proof (induction s rule: sanitize.induct)
  case (2 c s)
  let ?n = "rune_size (c # s)"
  have n: "?n \<noteq> 0" and v: "valid_utf8 (drop (?n - 1) s)"
    using "2.prems" by (auto simp: valid_utf8.simps(2) Let_def)
  have "sanitize (drop (?n - 1) s) = drop (?n - 1) s"
    using "2.IH"(2) n v by (simp add: Let_def)
  with n show ?case by (simp add: sanitize.simps(2) Let_def take_drop_Cons [simplified] del: rune_size.simps)
qed simp

lemma length_sanitize_less: "length s \<le> length (sanitize s)"
proof (induction s rule: sanitize.induct)
  case (2 c s)
  let ?n = "rune_size (c # s)"
  show ?case
  proof (cases "?n = 0")
    case True
    with 2 show ?thesis
      by (simp add: sanitize.simps(2) Let_def replacement_def del: rune_size.simps)
  next
    case False
    then have "length (drop (?n - 1) s) \<le> length (sanitize (drop (?n - 1) s))"
      using "2.IH"(2) by (simp add: Let_def)
    moreover have "?n \<le> Suc (length s)" using rune_size_le [of "c # s"] by simp
    ultimately show ?thesis
      using False by (simp add: sanitize.simps(2) Let_def del: rune_size.simps)
  qed
qed simp

lemma length_sanitize_invalid: "\<not> valid_utf8 s \<Longrightarrow> length s < length (sanitize s)"
proof (induction s rule: sanitize.induct)
  case (2 c s)
  let ?n = "rune_size (c # s)"
  show ?case
  proof (cases "?n = 0")
    case True
    with length_sanitize_less [of s] show ?thesis
      by (simp add: sanitize.simps(2) Let_def replacement_def del: rune_size.simps)
  next
    case False
    with "2.prems" have "\<not> valid_utf8 (drop (?n - 1) s)" by (simp add: valid_utf8.simps(2) Let_def)
    then have "length (drop (?n - 1) s) < length (sanitize (drop (?n - 1) s))"
      using "2.IH"(2) False by (simp add: Let_def)
    moreover have "?n \<le> Suc (length s)" using rune_size_le [of "c # s"] by simp
    ultimately show ?thesis
      using False by (simp add: sanitize.simps(2) Let_def del: rune_size.simps)
  qed
qed simp

lemma sanitize_id_iff: "sanitize s = s \<longleftrightarrow> valid_utf8 s"
  using sanitize_valid length_sanitize_invalid by fastforce

subsection \<open>Strings\<close>

abbreviation quote :: char where
  "quote \<equiv> CHR 0x22"

abbreviation backslash :: char where
  "backslash \<equiv> CHR 0x5C"

definition hex_of :: "nat \<Rightarrow> char" where
  "hex_of n = (if n < 10 then char_of (48 + n) else char_of (87 + n))"

definition hex_val :: "char \<Rightarrow> nat option" where
  "hex_val c = (let b = byte c in
     if 48 \<le> b \<and> b \<le> 57 then Some (b - 48)
     else if 97 \<le> b \<and> b \<le> 102 then Some (b - 87)
     else if 65 \<le> b \<and> b \<le> 70 then Some (b - 55) else None)"

text \<open>How one ASCII byte is written: the five short escapes, \<^verbatim>\<open>\u00XX\<close> for the other
  control characters and for the three that matter to HTML, itself otherwise.\<close>

definition short_escape :: "char \<Rightarrow> char option" where
  "short_escape c =
     (if c = quote \<or> c = backslash then Some c
      else if c = CHR 0x08 then Some (CHR ''b'')
      else if c = CHR 0x0C then Some (CHR ''f'')
      else if c = CHR 0x0A then Some (CHR ''n'')
      else if c = CHR 0x0D then Some (CHR ''r'')
      else if c = CHR 0x09 then Some (CHR ''t'') else None)"

definition needs_hex :: "char \<Rightarrow> bool" where
  "needs_hex c \<longleftrightarrow> byte c < 32 \<or> c = CHR ''<'' \<or> c = CHR ''>'' \<or> c = CHR ''&''"

definition esc_char :: "char \<Rightarrow> string" where
  "esc_char c = (case short_escape c of
     Some e \<Rightarrow> [backslash, e]
   | None \<Rightarrow> if needs_hex c
       then [backslash, CHR ''u'', CHR ''0'', CHR ''0'', hex_of (byte c div 16), hex_of (byte c mod 16)]
       else [c])"

text \<open>The line and paragraph separators U+2028 and U+2029 are escaped for JavaScript.\<close>

definition esc_rune :: "string \<Rightarrow> string" where
  "esc_rune r =
     (if r = [CHR 0xE2, CHR 0x80, CHR 0xA8] then backslash # ''u2028''
      else if r = [CHR 0xE2, CHR 0x80, CHR 0xA9] then backslash # ''u2029''
      else r)"

function esc :: "string \<Rightarrow> string" where
  "esc [] = []"
| "esc (c # s) =
     (let n = rune_size (c # s) in
      if byte c < 128 then esc_char c @ esc s
      else if n = 0 then (backslash # ''ufffd'') @ esc s
      else esc_rune (take n (c # s)) @ esc (drop (n - 1) s))"
  by pat_completeness auto
termination
  by (relation "measure length") auto

declare esc.simps(2) [simp del]

text \<open>The UTF-8 encoding of a code point, for \<^verbatim>\<open>\u\<close> escapes.\<close>

definition utf8 :: "nat \<Rightarrow> string" where
  "utf8 u =
     (if u < 128 then [char_of u]
      else if u < 2048 then [char_of (192 + u div 64), char_of (128 + u mod 64)]
      else if u < 65536 then
        [char_of (224 + u div 4096), char_of (128 + u div 64 mod 64), char_of (128 + u mod 64)]
      else [char_of (240 + u div 262144), char_of (128 + u div 4096 mod 64),
            char_of (128 + u div 64 mod 64), char_of (128 + u mod 64)])"

fun hex4 :: "string \<Rightarrow> (nat \<times> string) option" where
  "hex4 (a # b # c # d # s) =
     (case (hex_val a, hex_val b, hex_val c, hex_val d) of
        (Some w, Some x, Some y, Some z) \<Rightarrow> Some (((w * 16 + x) * 16 + y) * 16 + z, s)
      | _ \<Rightarrow> None)"
| "hex4 _ = None"

definition unescape :: "char \<Rightarrow> char option" where
  "unescape c =
     (if c = quote \<or> c = backslash \<or> c = CHR ''/'' then Some c
      else if c = CHR ''b'' then Some (CHR 0x08)
      else if c = CHR ''f'' then Some (CHR 0x0C)
      else if c = CHR ''n'' then Some (CHR 0x0A)
      else if c = CHR ''r'' then Some (CHR 0x0D)
      else if c = CHR ''t'' then Some (CHR 0x09) else None)"

text \<open>A \<^verbatim>\<open>\u\<close> escape, after the \<^verbatim>\<open>u\<close>: a surrogate is replaced, unless
  the other half follows it.\<close>

definition unicode_escape :: "string \<Rightarrow> (string \<times> string) option" where
  "unicode_escape s = (case hex4 s of
     None \<Rightarrow> None
   | Some (u, t) \<Rightarrow>
       if 55296 \<le> u \<and> u < 57344 then
         (case t of
            b # v # t' \<Rightarrow>
              if b = backslash \<and> v = CHR ''u'' \<and> u < 56320 then
                (case hex4 t' of
                   Some (l, t'') \<Rightarrow>
                     if 56320 \<le> l \<and> l < 57344
                     then Some (utf8 (65536 + (u - 55296) * 1024 + (l - 56320)), t'')
                     else Some (replacement, t)
                 | None \<Rightarrow> Some (replacement, t))
              else Some (replacement, t)
          | _ \<Rightarrow> Some (replacement, t))
       else Some (utf8 u, t))"

text \<open>The body of a string literal up to the closing quote, on \<open>fuel\<close> of at least its
  length.\<close>

fun parse_str :: "nat \<Rightarrow> string \<Rightarrow> (string \<times> string) option" where
  "parse_str 0 s = None"
| "parse_str (Suc fuel) [] = None"
| "parse_str (Suc fuel) (c # s) =
     (let n = rune_size (c # s);
          more = (\<lambda>p t. case parse_str fuel t of None \<Rightarrow> None | Some (x, r) \<Rightarrow> Some (p @ x, r)) in
      if c = quote then Some ([], s)
      else if c = backslash then
        (case s of
           [] \<Rightarrow> None
         | d # t \<Rightarrow>
             if d = CHR ''u'' then (case unicode_escape t of None \<Rightarrow> None | Some (x, t') \<Rightarrow> more x t')
             else (case unescape d of None \<Rightarrow> None | Some e \<Rightarrow> more [e] t))
      else if byte c < 32 then None
      else if n = 0 then more replacement s
      else more (take n (c # s)) (drop (n - 1) s))"

declare parse_str.simps(3) [simp del]

lemma rune_size_ascii: "byte c < 128 \<Longrightarrow> rune_size (c # s) = 1"
  by (simp add: rune_need_def conts_ok_def)

text \<open>What the parser makes of each kind of output of the printer.\<close>

lemma hex_val_of: "n < 16 \<Longrightarrow> hex_val (hex_of n) = Some n"
  by (simp add: hex_val_def hex_of_def byte_def of_char_of)

lemma byte_less: "byte c < 256"
  by (simp add: byte_def)

lemma char_of_byte [simp]: "char_of (byte c) = c"
  by (simp add: byte_def)

lemma byte_inj: "byte c = byte d \<longleftrightarrow> c = d"
  by (metis char_of_byte)

lemma parse_short:
  "short_escape c = Some e \<Longrightarrow> parse_str (Suc k) (backslash # e # t) =
     (case parse_str k t of None \<Rightarrow> None | Some (x, r) \<Rightarrow> Some (c # x, r))"
  by (auto simp: short_escape_def unescape_def parse_str.simps(3) Let_def split: if_splits option.splits)

lemma parse_hex:
  "byte c < 128 \<Longrightarrow> parse_str (Suc k) (backslash # CHR ''u'' # CHR ''0'' # CHR ''0''
       # hex_of (byte c div 16) # hex_of (byte c mod 16) # t) =
     (case parse_str k t of None \<Rightarrow> None | Some (x, r) \<Rightarrow> Some (c # x, r))"
proof -
  assume c: "byte c < 128"
  have z: "hex_val (CHR ''0'') = Some 0" by (simp add: hex_val_def byte_def)
  have "byte c div 16 < 16" using c by simp
  then have "unicode_escape (CHR ''0'' # CHR ''0'' # hex_of (byte c div 16) # hex_of (byte c mod 16) # t)
      = Some ([c], t)"
    using c by (simp add: unicode_escape_def z hex_val_of utf8_def)
  then show ?thesis by (simp add: parse_str.simps(3) Let_def split: option.splits)
qed

lemma parse_plain_ascii:
  "short_escape c = None \<Longrightarrow> \<not> needs_hex c \<Longrightarrow> byte c < 128 \<Longrightarrow> parse_str (Suc k) (c # t) =
     (case parse_str k t of None \<Rightarrow> None | Some (x, r) \<Rightarrow> Some (c # x, r))"
  by (auto simp: short_escape_def needs_hex_def parse_str.simps(3) Let_def rune_size_ascii
      simp del: rune_size.simps split: if_splits option.split)

lemma parse_esc_char:
  "byte c < 128 \<Longrightarrow> parse_str (Suc k) (esc_char c @ t) =
     (case parse_str k t of None \<Rightarrow> None | Some (x, r) \<Rightarrow> Some (c # x, r))"
  by (auto simp: esc_char_def parse_short parse_hex parse_plain_ascii split: option.split)

text \<open>The bytes of the three runes the printer escapes.\<close>

lemma rune_bytes:
  "char_of (239::nat) = CHR 0xEF" "char_of (191::nat) = CHR 0xBF" "char_of (189::nat) = CHR 0xBD"
  "char_of (226::nat) = CHR 0xE2" "char_of (128::nat) = CHR 0x80"
  "char_of (168::nat) = CHR 0xA8" "char_of (169::nat) = CHR 0xA9"
  by code_simp+

lemma parse_bad_byte:
  "parse_str (Suc k) ((backslash # ''ufffd'') @ t) =
     (case parse_str k t of None \<Rightarrow> None | Some (x, r) \<Rightarrow> Some (replacement @ x, r))"
proof -
  have "unicode_escape (''fffd'' @ t) = Some (replacement, t)"
    by (simp add: unicode_escape_def hex_val_def byte_def utf8_def replacement_def rune_bytes)
  then show ?thesis by (simp add: parse_str.simps(3) Let_def split: option.splits)
qed

lemma parse_separator:
  "v = CHR ''8'' \<and> l = CHR 0xA8 \<or> v = CHR ''9'' \<and> l = CHR 0xA9 \<Longrightarrow>
   parse_str (Suc k) (backslash # CHR ''u'' # CHR ''2'' # CHR ''0'' # CHR ''2'' # v # t) =
     (case parse_str k t of None \<Rightarrow> None | Some (x, r) \<Rightarrow> Some ([CHR 0xE2, CHR 0x80, l] @ x, r))"
proof -
  assume "v = CHR ''8'' \<and> l = CHR 0xA8 \<or> v = CHR ''9'' \<and> l = CHR 0xA9"
  then have "unicode_escape (CHR ''2'' # CHR ''0'' # CHR ''2'' # v # t) = Some ([CHR 0xE2, CHR 0x80, l], t)"
    by (auto simp: unicode_escape_def hex_val_def byte_def utf8_def rune_bytes)
  then show ?thesis by (simp add: parse_str.simps(3) Let_def split: option.splits)
qed

lemma parse_rune_bytes:
  assumes c: "\<not> byte c < 128" and n: "rune_size (c # s) \<noteq> 0"
  shows "parse_str (Suc k) (take (rune_size (c # s)) (c # s) @ t) =
     (case parse_str k t of None \<Rightarrow> None
      | Some (x, r) \<Rightarrow> Some (take (rune_size (c # s)) (c # s) @ x, r))"
proof -
  let ?n = "rune_size (c # s)"
  obtain m where m: "?n = Suc m" using n by (cases ?n) auto
  have le: "m \<le> length s" using rune_size_le [of "c # s"] m by simp
  have r: "rune_size (c # take m s @ t) = Suc m"
    using rune_size_take [of "c # s" t] m by simp
  have "c \<noteq> quote" "c \<noteq> backslash" "\<not> byte c < 32" using c by (auto simp: byte_def)
  then show ?thesis using r le
    by (simp add: m parse_str.simps(3) Let_def min_def del: rune_size.simps split: option.splits)
qed

lemma parse_esc_rune:
  assumes "\<not> byte c < 128" and "rune_size (c # s) \<noteq> 0"
  shows "parse_str (Suc k) (esc_rune (take (rune_size (c # s)) (c # s)) @ t) =
     (case parse_str k t of None \<Rightarrow> None
      | Some (x, r) \<Rightarrow> Some (take (rune_size (c # s)) (c # s) @ x, r))"
proof -
  let ?r = "take (rune_size (c # s)) (c # s)"
  consider (ls) "?r = [CHR 0xE2, CHR 0x80, CHR 0xA8]" | (ps) "?r = [CHR 0xE2, CHR 0x80, CHR 0xA9]"
    | (other) "esc_rune ?r = ?r"
    unfolding esc_rune_def by meson
  then show ?thesis
  proof cases
    case ls
    then show ?thesis using parse_separator [of "CHR ''8''" "CHR 0xA8" k t] unfolding ls
      by (simp add: esc_rune_def)
  next
    case ps
    then show ?thesis using parse_separator [of "CHR ''9''" "CHR 0xA9" k t] unfolding ps
      by (simp add: esc_rune_def)
  next
    case other
    then show ?thesis using parse_rune_bytes [OF assms, of k t] by (simp only: other)
  qed
qed

text \<open>A string literal comes back as the sanitized string.\<close>

lemma parse_esc: "length s < k \<Longrightarrow> parse_str k (esc s @ quote # r) = Some (sanitize s, r)"
proof (induction s arbitrary: k rule: esc.induct)
  case 1
  then show ?case by (cases k) (auto simp: parse_str.simps(3))
next
  case (2 c s)
  then obtain k' where k: "k = Suc k'" and s: "length s < k'" by (cases k) auto
  let ?n = "rune_size (c # s)"
  consider (ascii) "byte c < 128" | (bad) "\<not> byte c < 128" "?n = 0" | (rune) "\<not> byte c < 128" "?n \<noteq> 0"
    by blast
  then show ?case
  proof cases
    case ascii
    then show ?thesis using "2.IH"(1) [OF refl ascii s] rune_size_ascii [OF ascii, of s]
      by (simp add: k esc.simps(2) sanitize.simps(2) Let_def parse_esc_char del: rune_size.simps)
  next
    case bad
    then show ?thesis using "2.IH"(2) [OF refl bad s] parse_bad_byte [of k' "esc s @ quote # r"]
      by (simp add: k esc.simps(2) sanitize.simps(2) Let_def del: rune_size.simps)
  next
    case rune
    have "length (drop (?n - 1) s) < k'" using s by simp
    from "2.IH"(3) [OF refl rune this] rune parse_esc_rune [OF rune, of k']
    show ?thesis
      by (simp add: k esc.simps(2) sanitize.simps(2) Let_def del: rune_size.simps)
  qed
qed

subsection \<open>Numbers\<close>

text \<open>Integers, as \<^verbatim>\<open>strconv\<close> prints and reads them; 64 bits is all the
  sentinel's sizes have.\<close>

definition int_lit :: "int \<Rightarrow> string" where
  "int_lit i = (if i < 0 then CHR ''-'' # digits (nat (- i)) else digits (nat i))"

definition digits_val :: "string \<Rightarrow> nat" where
  "digits_val ds = foldl (\<lambda>a c. a * 10 + (byte c - 48)) 0 ds"

definition int64_of_lit :: "string \<Rightarrow> int option" where
  "int64_of_lit s =
     (let neg = has_prefix s ''-''; ds = (if neg then tl s else s);
          i = (if neg then - int (digits_val ds) else int (digits_val ds))
      in if ds \<noteq> [] \<and> list_all is_digit ds \<and> - (2 ^ 63) \<le> i \<and> i < 2 ^ 63 then Some i else None)"

lemma digits_val_append: "digits_val (ds @ [c]) = digits_val ds * 10 + (byte c - 48)"
  by (simp add: digits_val_def)

lemma byte_digit: "m < 10 \<Longrightarrow> byte (char_of (48 + m)) = 48 + m"  for m :: nat
  by (simp add: byte_def of_char_of)

lemma digits_val_digits: "digits_val (digits n) = n"
proof (induction n rule: digits.induct)
  case (1 n)
  show ?case
  proof (cases "n < 10")
    case True
    then show ?thesis by (subst digits.simps) (simp add: digits_val_def byte_digit)
  next
    case False
    then show ?thesis using 1 by (subst digits.simps) (simp add: digits_val_append byte_digit)
  qed
qed

lemma hd_digits: "0 < n \<Longrightarrow> hd (digits n) \<noteq> CHR ''0''"
proof (induction n rule: digits.induct)
  case (1 n)
  show ?case
  proof (cases "n < 10")
    case True
    have "byte (char_of (48 + n)) \<noteq> byte (CHR ''0'')"
      using True "1.prems" byte_digit [OF True] by (simp add: byte_def)
    then have "char_of (48 + n) \<noteq> CHR ''0''" by metis
    with True show ?thesis by (subst digits.simps) simp
  next
    case False
    then have "0 < n div 10" by simp
    with False "1.IH" show ?thesis by (subst digits.simps) simp
  qed
qed

lemma digits_0: "digits 0 = ''0''"
  by (subst digits.simps) (simp, code_simp)

lemma digits_head: "is_digit (hd (digits n))"
  using digits_are_digits [of "hd (digits n)" n] by simp

lemma minus_not_digit: "\<not> is_digit (CHR ''-'')"
  by (simp add: is_digit_def less_eq_char_def)

lemma int64_of_int_lit: "- (2 ^ 63) \<le> i \<Longrightarrow> i < 2 ^ 63 \<Longrightarrow> int64_of_lit (int_lit i) = Some i"
proof -
  have d: "list_all is_digit (digits n)" for n
    by (simp add: list_all_iff digits_are_digits)
  have h: "\<not> has_prefix (digits n) ''-''" for n
    using digits_head [of n] minus_not_digit by (cases "digits n") auto
  assume "- (2 ^ 63) \<le> i" "i < 2 ^ 63"
  with d h show ?thesis
    by (auto simp: int64_of_lit_def int_lit_def Let_def digits_val_digits)
qed

subsection \<open>Values\<close>

text \<open>A number is kept as its literal.\<close>

datatype json =
    JNull | JBool bool | JNum string | JStr string
  | JArr "json list" | JObj "(string \<times> json) list"

abbreviation comma :: char where "comma \<equiv> CHR '',''"
abbreviation colon :: char where "colon \<equiv> CHR '':''"

fun print :: "json \<Rightarrow> string"
and print_elems :: "json list \<Rightarrow> string"
and print_members :: "(string \<times> json) list \<Rightarrow> string" where
  "print JNull = ''null''"
| "print (JBool b) = (if b then ''true'' else ''false'')"
| "print (JNum n) = n"
| "print (JStr s) = quote # esc s @ [quote]"
| "print (JArr xs) = CHR ''['' # print_elems xs"
| "print (JObj ms) = CHR ''{'' # print_members ms"
| "print_elems [] = '']''"
| "print_elems [x] = print x @ '']''"
| "print_elems (x # y # xs) = print x @ comma # print_elems (y # xs)"
| "print_members [] = ''}''"
| "print_members [(k, v)] = quote # esc k @ quote # colon # print v @ ''}''"
| "print_members ((k, v) # m # ms) = quote # esc k @ quote # colon # print v @ comma # print_members (m # ms)"

fun skip_ws :: "string \<Rightarrow> string" where
  "skip_ws [] = []"
| "skip_ws (c # s) = (if c = CHR '' '' \<or> c = CHR 0x09 \<or> c = CHR 0x0A \<or> c = CHR 0x0D then skip_ws s else c # s)"

text \<open>A number literal: an optional minus, an integer without leading zeros, an optional fraction
  and an optional exponent.\<close>

definition span_digits :: "string \<Rightarrow> string \<times> string" where
  "span_digits s = (takeWhile is_digit s, dropWhile is_digit s)"

definition lex_int :: "string \<Rightarrow> (string \<times> string) option" where
  "lex_int s = (case s of
     c # t \<Rightarrow> if c = CHR ''0'' then Some (''0'', t)
             else if is_digit c then Some (span_digits s) else None
   | [] \<Rightarrow> None)"

definition lex_frac :: "string \<Rightarrow> (string \<times> string) option" where
  "lex_frac s = (case s of
     c # t \<Rightarrow> if c = CHR ''.'' then
                (case span_digits t of (ds, r) \<Rightarrow> if ds = [] then None else Some (c # ds, r))
             else Some ([], s)
   | [] \<Rightarrow> Some ([], s))"

definition lex_exp :: "string \<Rightarrow> (string \<times> string) option" where
  "lex_exp s = (case s of
     c # t \<Rightarrow> if c = CHR ''e'' \<or> c = CHR ''E'' then
                (let sign = takeWhile (\<lambda>d. d = CHR ''+'' \<or> d = CHR ''-'') (take 1 t)
                 in case span_digits (drop (length sign) t) of
                      (ds, r) \<Rightarrow> if ds = [] then None else Some (c # sign @ ds, r))
             else Some ([], s)
   | [] \<Rightarrow> Some ([], s))"

definition lex_num :: "string \<Rightarrow> (string \<times> string) option" where
  "lex_num s =
     (let sign = (if has_prefix s ''-'' then ''-'' else []) in
      case lex_int (drop (length sign) s) of
        None \<Rightarrow> None
      | Some (i, r) \<Rightarrow> (case lex_frac r of
          None \<Rightarrow> None
        | Some (f, r') \<Rightarrow> (case lex_exp r' of
            None \<Rightarrow> None
          | Some (e, r'') \<Rightarrow> Some (sign @ i @ f @ e, r''))))"

definition parse_atom :: "string \<Rightarrow> (json \<times> string) option" where
  "parse_atom s =
     (if has_prefix s ''null'' then Some (JNull, drop 4 s)
      else if has_prefix s ''true'' then Some (JBool True, drop 4 s)
      else if has_prefix s ''false'' then Some (JBool False, drop 5 s)
      else (case lex_num s of None \<Rightarrow> None | Some (n, r) \<Rightarrow> Some (JNum n, r)))"

text \<open>The parser runs on fuel: a value takes no more than its own length.\<close>

fun parse_val :: "nat \<Rightarrow> string \<Rightarrow> (json \<times> string) option"
and parse_elems :: "nat \<Rightarrow> string \<Rightarrow> (json list \<times> string) option"
and parse_members :: "nat \<Rightarrow> string \<Rightarrow> ((string \<times> json) list \<times> string) option" where
  "parse_val 0 s = None"
| "parse_val (Suc k) s = (case skip_ws s of
     [] \<Rightarrow> None
   | c # t \<Rightarrow>
       if c = quote then
         (case parse_str (Suc (length t)) t of None \<Rightarrow> None | Some (x, r) \<Rightarrow> Some (JStr x, r))
       else if c = CHR ''['' then
         (if has_prefix (skip_ws t) '']'' then Some (JArr [], tl (skip_ws t))
          else (case parse_elems k t of None \<Rightarrow> None | Some (xs, r) \<Rightarrow> Some (JArr xs, r)))
       else if c = CHR ''{'' then
         (if has_prefix (skip_ws t) ''}'' then Some (JObj [], tl (skip_ws t))
          else (case parse_members k t of None \<Rightarrow> None | Some (ms, r) \<Rightarrow> Some (JObj ms, r)))
       else parse_atom (c # t))"
| "parse_elems 0 s = None"
| "parse_elems (Suc k) s = (case parse_val k s of
     None \<Rightarrow> None
   | Some (x, r) \<Rightarrow> (case skip_ws r of
       [] \<Rightarrow> None
     | c # t \<Rightarrow>
         if c = CHR '']'' then Some ([x], t)
         else if c = comma then
           (case parse_elems k t of None \<Rightarrow> None | Some (xs, r') \<Rightarrow> Some (x # xs, r'))
         else None))"
| "parse_members 0 s = None"
| "parse_members (Suc k) s = (case skip_ws s of
     [] \<Rightarrow> None
   | q # t \<Rightarrow> if q \<noteq> quote then None else
     (case parse_str (Suc (length t)) t of
        None \<Rightarrow> None
      | Some (key, r) \<Rightarrow> (case skip_ws r of
          [] \<Rightarrow> None
        | d # u \<Rightarrow> if d \<noteq> colon then None else
          (case parse_val k u of
             None \<Rightarrow> None
           | Some (v, r') \<Rightarrow> (case skip_ws r' of
               [] \<Rightarrow> None
             | c # t' \<Rightarrow>
                 if c = CHR ''}'' then Some ([(key, v)], t')
                 else if c = comma then
                   (case parse_members k t' of None \<Rightarrow> None | Some (ms, r'') \<Rightarrow> Some ((key, v) # ms, r''))
                 else None)))))"

text \<open>A document is one value, with white space around it.\<close>

definition parse_json :: "string \<Rightarrow> json option" where
  "parse_json s = (case parse_val (Suc (length s)) s of
     Some (v, r) \<Rightarrow> if skip_ws r = [] then Some v else None
   | None \<Rightarrow> None)"

subsection \<open>The round trip\<close>

text \<open>What is read back: every string sanitized, and numbers that are integers.\<close>

fun sanitize_json :: "json \<Rightarrow> json" where
  "sanitize_json (JStr s) = JStr (sanitize s)"
| "sanitize_json (JArr xs) = JArr (map sanitize_json xs)"
| "sanitize_json (JObj ms) = JObj (map (\<lambda>(k, v). (sanitize k, sanitize_json v)) ms)"
| "sanitize_json v = v"

fun int_nums :: "json \<Rightarrow> bool" where
  "int_nums (JNum n) = (\<exists>i. n = int_lit i)"
| "int_nums (JArr xs) = list_all int_nums xs"
| "int_nums (JObj ms) = list_all (\<lambda>(k, v). int_nums v) ms"
| "int_nums _ = True"

definition delim :: "string \<Rightarrow> bool" where
  "delim r \<longleftrightarrow> r = [] \<or> hd r = comma \<or> hd r = CHR '']'' \<or> hd r = CHR ''}''"

lemma delim_simps [simp]: "delim []" "delim (comma # r)" "delim (CHR '']'' # r)" "delim (CHR ''}'' # r)"
  by (simp_all add: delim_def)

lemma delim_not_digit: "delim (c # r) \<Longrightarrow> \<not> is_digit c"
  by (auto simp: delim_def is_digit_def less_eq_char_def)

lemma span_digits_delim: "delim r \<Longrightarrow> span_digits (digits n @ r) = (digits n, r)"
  by (cases r) (auto simp: span_digits_def takeWhile_append dropWhile_append digits_are_digits
      dest: delim_not_digit)

lemma lex_int_digits: "delim r \<Longrightarrow> lex_int (digits n @ r) = Some (digits n, r)"
proof -
  assume r: "delim r"
  show ?thesis
  proof (cases "n = 0")
    case True
    then show ?thesis by (simp add: digits_0 lex_int_def)
  next
    case False
    obtain c t where d: "digits n = c # t" by (cases "digits n") auto
    with False hd_digits [of n] digits_head [of n] have "c \<noteq> CHR ''0''" "is_digit c" by auto
    with span_digits_delim [OF r, of n] d show ?thesis by (simp add: lex_int_def)
  qed
qed

lemma lex_tail_delim: "delim r \<Longrightarrow> lex_frac r = Some ([], r)" "delim r \<Longrightarrow> lex_exp r = Some ([], r)"
  by (auto simp: lex_frac_def lex_exp_def delim_def split: list.splits)

lemma digits_no_minus: "\<not> has_prefix (digits n @ r) ''-''"
  using digits_head [of n] minus_not_digit by (cases "digits n") auto

lemma lex_num_int: "delim r \<Longrightarrow> lex_num (int_lit i @ r) = Some (int_lit i, r)"
  by (simp add: lex_num_def int_lit_def lex_int_digits lex_tail_delim digits_no_minus)

lemma int_lit_head: "hd (int_lit i) = CHR ''-'' \<or> is_digit (hd (int_lit i))" and int_lit_ne: "int_lit i \<noteq> []"
  by (simp_all add: int_lit_def digits_head)

lemma parse_atom_int: "delim r \<Longrightarrow> parse_atom (int_lit i @ r) = Some (JNum (int_lit i), r)"
proof -
  assume r: "delim r"
  obtain c t where ct: "int_lit i = c # t" using int_lit_ne [of i] by (cases "int_lit i") auto
  have "c \<noteq> CHR ''n''" "c \<noteq> CHR ''t''" "c \<noteq> CHR ''f''"
    using int_lit_head [of i] by (auto simp: ct is_digit_def less_eq_char_def)
  then show ?thesis using lex_num_int [OF r, of i] by (simp add: parse_atom_def ct)
qed

text \<open>A printed value starts with a character that is no white space and closes nothing.\<close>

definition starts_value :: "char \<Rightarrow> bool" where
  "starts_value c \<longleftrightarrow> c \<noteq> CHR '' '' \<and> c \<noteq> CHR 0x09 \<and> c \<noteq> CHR 0x0A \<and> c \<noteq> CHR 0x0D \<and> c \<noteq> CHR '']''"

lemma starts_int: "starts_value (hd (int_lit i))"
  using int_lit_head [of i] by (auto simp: starts_value_def is_digit_def less_eq_char_def)

lemma print_head: "int_nums v \<Longrightarrow> \<exists>c t. print v = c # t \<and> starts_value c"
proof (cases v)
  case (JNum n)
  moreover assume "int_nums v"
  ultimately obtain i where "n = int_lit i" by auto
  with JNum starts_int [of i] int_lit_ne [of i] show ?thesis by (cases "int_lit i") auto
qed (auto simp: starts_value_def)

lemma skip_ws_print: "int_nums v \<Longrightarrow> skip_ws (print v @ r) = print v @ r"
  using print_head [of v] by (auto simp: starts_value_def)

lemma print_not_closing: "int_nums v \<Longrightarrow> \<not> has_prefix (print v @ r) '']''"
  using print_head [of v] by (auto simp: starts_value_def)

lemma length_esc: "length s \<le> length (esc s)"
proof (induction s rule: esc.induct)
  case (2 c s)
  let ?n = "rune_size (c # s)"
  consider (ascii) "byte c < 128" | (bad) "\<not> byte c < 128" "?n = 0" | (rune) "\<not> byte c < 128" "?n \<noteq> 0"
    by blast
  then show ?case
  proof cases
    case ascii
    moreover obtain d ds where "esc_char c = d # ds"
      by (cases "esc_char c") (auto simp: esc_char_def split: option.splits if_splits)
    ultimately show ?thesis using "2.IH"(1) [OF refl ascii]
      by (simp add: esc.simps(2) Let_def del: rune_size.simps)
  next
    case bad
    then show ?thesis using "2.IH"(2) [OF refl bad]
      by (simp add: esc.simps(2) Let_def del: rune_size.simps)
  next
    case rune
    moreover have "length r \<le> length (esc_rune r)" for r by (simp add: esc_rune_def)
    then have "?n \<le> length (esc_rune (take ?n (c # s)))"
      using rune_size_le [of "c # s"] by (metis length_take min.absorb2)
    ultimately show ?thesis using "2.IH"(3) [OF refl rune]
      by (simp add: esc.simps(2) Let_def del: rune_size.simps)
  qed
qed simp

lemma parse_literal:
  "parse_str (Suc (length (esc s @ quote # r))) (esc s @ quote # r) = Some (sanitize s, r)"
  by (rule parse_esc) (use length_esc [of s] in simp)

lemma parse_print_all:
  "int_nums v \<Longrightarrow> length (print v) < k \<Longrightarrow> delim r \<Longrightarrow>
     parse_val k (print v @ r) = Some (sanitize_json v, r)"
  "xs \<noteq> [] \<Longrightarrow> list_all int_nums xs \<Longrightarrow> length (print_elems xs) < k \<Longrightarrow>
     parse_elems k (print_elems xs @ r) = Some (map sanitize_json xs, r)"
  "ms \<noteq> [] \<Longrightarrow> list_all (\<lambda>(k, v). int_nums v) ms \<Longrightarrow> length (print_members ms) < k \<Longrightarrow>
     parse_members k (print_members ms @ r) = Some (map (\<lambda>(k, v). (sanitize k, sanitize_json v)) ms, r)"
proof (induction v and xs and ms arbitrary: k r and k r and k r rule: print_print_elems_print_members.induct)
  case 1
  then show ?case by (cases k) (auto simp: parse_atom_def)
next
  case (2 b)
  then show ?case by (cases k) (auto simp: parse_atom_def)
next
  case (3 n)
  then obtain i where n: "n = int_lit i" by auto
  obtain k' where k: "k = Suc k'" using 3 by (cases k) auto
  obtain c t where ct: "int_lit i = c # t" using int_lit_ne [of i] by (cases "int_lit i") auto
  have "c \<noteq> quote" "c \<noteq> CHR ''[''" "c \<noteq> CHR ''{''"
    using int_lit_head [of i] by (auto simp: ct is_digit_def less_eq_char_def)
  moreover have "starts_value c" using starts_int [of i] by (simp add: ct)
  ultimately show ?case
    using parse_atom_int [OF "3.prems"(3), of i] by (simp add: n k ct starts_value_def)
next
  case (4 s)
  then show ?case using parse_literal [of s r] by (cases k) auto
next
  case (5 xs)
  then obtain k' where k: "k = Suc k'" by (cases k) auto
  show ?case
  proof (cases xs)
    case Nil
    then show ?thesis by (simp add: k)
  next
    case (Cons x ys)
    then obtain z where z: "print_elems xs = print x @ z" by (cases ys) auto
    have "int_nums x" using 5 Cons by simp
    then have h: "\<not> has_prefix (skip_ws (print_elems xs @ r)) '']''"
      by (simp add: z skip_ws_print print_not_closing)
    have "parse_elems k' (print_elems xs @ r) = Some (map sanitize_json xs, r)"
      using 5 Cons k by auto
    with h show ?thesis by (simp add: k)
  qed
next
  case (6 ms)
  then obtain k' where k: "k = Suc k'" by (cases k) auto
  show ?case
  proof (cases ms)
    case Nil
    then show ?thesis by (simp add: k)
  next
    case (Cons m ns)
    then obtain z where z: "print_members ms = quote # z" by (cases m; cases ns) auto
    have "parse_members k' (print_members ms @ r) = Some (map (\<lambda>(k, v). (sanitize k, sanitize_json v)) ms, r)"
      using 6 Cons k by auto
    then show ?thesis by (simp add: k z)
  qed
next
  case (8 x)
  then obtain k' where k: "k = Suc k'" by (cases k) auto
  have "parse_val k' (print x @ CHR '']'' # r) = Some (sanitize_json x, CHR '']'' # r)"
    using 8 k by auto
  then show ?case by (simp add: k)
next
  case (9 x y xs)
  then obtain k' where k: "k = Suc k'" by (cases k) auto
  have "parse_val k' (print x @ comma # print_elems (y # xs) @ r)
      = Some (sanitize_json x, comma # print_elems (y # xs) @ r)"
    using "9.IH"(1) "9.prems" k by auto
  moreover have "parse_elems k' (print_elems (y # xs) @ r) = Some (map sanitize_json (y # xs), r)"
    using "9.IH"(2) "9.prems" k by auto
  ultimately show ?case by (simp add: k)
next
  case (11 key v)
  then obtain k' where k: "k = Suc k'" by (cases k) auto
  have "parse_val k' (print v @ CHR ''}'' # r) = Some (sanitize_json v, CHR ''}'' # r)"
    using 11 k by auto
  then show ?case using parse_literal [of key "colon # print v @ CHR ''}'' # r"] by (simp add: k)
next
  case (12 key v m ms)
  then obtain k' where k: "k = Suc k'" by (cases k) auto
  have "parse_val k' (print v @ comma # print_members (m # ms) @ r)
      = Some (sanitize_json v, comma # print_members (m # ms) @ r)"
    using "12.IH"(1) "12.prems" k by auto
  moreover have "parse_members k' (print_members (m # ms) @ r)
      = Some (map (\<lambda>(k, v). (sanitize k, sanitize_json v)) (m # ms), r)"
    using "12.IH"(2) "12.prems" k by auto
  ultimately show ?case
    using parse_literal [of key "colon # print v @ comma # print_members (m # ms) @ r"] by (simp add: k)
qed auto

text \<open>What the printer writes, the parser reads back, up to invalid UTF-8.\<close>

lemma parse_print: "int_nums v \<Longrightarrow> parse_json (print v) = Some (sanitize_json v)"
  using parse_print_all(1) [of v "Suc (length (print v))" "[]"] by (simp add: parse_json_def)

end
