(* ===== verification/GoErrors.thy ===== *)
theory GoErrors
  imports Prelude
begin

section \<open>Errors as values\<close>

text \<open>
  The errors the sources build and compare. A Go error is a chain: a sentinel of the agent
  (\<^verbatim>\<open>ErrState\<close>, \<^verbatim>\<open>ErrExtract\<close>, and so on) wrapped around a cause, or an aggregate of
  several. Operating-system errors are \<open>errno\<close> values. Properties added by
  \<^verbatim>\<open>WithProperty\<close> and the arguments of a formatted detail only reach log lines and
  are left out; the detail itself is kept, because it tells the branches of a function apart.
\<close>

datatype errno =
    ENOENT | EEXIST | ENOTEMPTY | ENOTDIR | EISDIR | ELOOP | EACCES | EWOULDBLOCK | EINVAL
  | ENXIO | EIO | ENOSPC | EINTR

text \<open>The sentinels of \<^verbatim>\<open>cache/store.go\<close>, \<^verbatim>\<open>fill/fill.go\<close>,
  \<^verbatim>\<open>puller/puller.go\<close> and \<^verbatim>\<open>controller/errors.go\<close>.\<close>

datatype sentinel_error =
    ErrState | ErrExtract | ErrGC | ErrAdopt
  | ErrCachePath
  | ErrReference | ErrPull | ErrCA | ErrTLS
  | ErrNode | ErrResources | ErrSync | ErrWatcher

text \<open>\<open>Eof\<close> is the bare \<^verbatim>\<open>io.EOF\<close>, \<open>Canceled\<close> is
  \<^verbatim>\<open>context.Canceled\<close>; \<open>Msg\<close> is any other plain error and
  \<open>Fmt\<close> a \<^verbatim>\<open>fmt.Errorf\<close> that wraps one.\<close>

datatype err =
    Sys errno
  | Canceled
  | Eof
  | Msg string
  | Wrap sentinel_error "err option" string
  | Agg "err list"
  | Fmt string err

text \<open>\<^verbatim>\<open>errors.Is\<close> walks the chain and every member of an aggregate.\<close>

fun err_is :: "(err \<Rightarrow> bool) \<Rightarrow> err \<Rightarrow> bool" where
  "err_is p (Sys n) = p (Sys n)"
| "err_is p Canceled = p Canceled"
| "err_is p Eof = p Eof"
| "err_is p (Msg m) = p (Msg m)"
| "err_is p (Wrap k None d) = p (Wrap k None d)"
| "err_is p (Wrap k (Some c) d) = (p (Wrap k (Some c) d) \<or> err_is p c)"
| "err_is p (Agg es) = (p (Agg es) \<or> list_ex (err_is p) es)"
| "err_is p (Fmt m c) = (p (Fmt m c) \<or> err_is p c)"

text \<open>\<^verbatim>\<open>os.ErrNotExist\<close> and \<^verbatim>\<open>os.ErrExist\<close>, as
  \<^verbatim>\<open>syscall.Errno.Is\<close> maps error numbers to them.\<close>

definition is_not_exist :: "err \<Rightarrow> bool" where
  "is_not_exist = err_is (\<lambda>e. e = Sys ENOENT)"

definition is_exist :: "err \<Rightarrow> bool" where
  "is_exist = err_is (\<lambda>e. e = Sys EEXIST \<or> e = Sys ENOTEMPTY)"

definition is_errno :: "errno \<Rightarrow> err \<Rightarrow> bool" where
  "is_errno n = err_is (\<lambda>e. e = Sys n)"

definition is_canceled :: "err \<Rightarrow> bool" where
  "is_canceled = err_is (\<lambda>e. e = Canceled)"

fun has_kind :: "sentinel_error \<Rightarrow> err \<Rightarrow> bool" where
  "has_kind k (Wrap k' c d) = (k = k')"
| "has_kind k _ = False"

definition is_kind :: "sentinel_error \<Rightarrow> err \<Rightarrow> bool" where
  "is_kind k = err_is (has_kind k)"

lemma err_is_simps [simp]:
  "is_not_exist (Sys n) = (n = ENOENT)"
  "is_errno m (Sys n) = (n = m)"
  "is_exist (Sys n) = (n = EEXIST \<or> n = ENOTEMPTY)"
  "\<not> is_canceled (Sys n)" "is_canceled Canceled"
  "is_not_exist (Agg es) = list_ex is_not_exist es"
  "is_canceled (Agg es) = list_ex is_canceled es"
  "is_kind k (Agg es) = list_ex (is_kind k) es"
  by (auto simp: is_not_exist_def is_errno_def is_exist_def is_canceled_def is_kind_def)

lemma err_wrap_simps [simp]:
  "is_not_exist (Wrap k (Some c) d) = is_not_exist c"
  "\<not> is_not_exist (Wrap k None d)"
  "is_canceled (Wrap k (Some c) d) = is_canceled c"
  "\<not> is_canceled (Wrap k None d)"
  "is_kind k' (Wrap k (Some c) d) = (k' = k \<or> is_kind k' c)"
  "is_kind k' (Wrap k None d) = (k' = k)"
  "\<not> is_kind k' (Sys n)" "\<not> is_kind k' Canceled"
  "is_canceled (Fmt m c) = is_canceled c" "\<not> is_canceled (Msg m)"
  by (auto simp: is_not_exist_def is_canceled_def is_kind_def)

text \<open>\<^verbatim>\<open>utilerrors.NewAggregate\<close> drops the nil errors of its list and is nil itself
  when nothing is left.\<close>

definition new_aggregate :: "err option list \<Rightarrow> err option" where
  "new_aggregate es = (case List.map_filter id es of [] \<Rightarrow> None | xs \<Rightarrow> Some (Agg xs))"

lemma new_aggregate_None [simp]: "new_aggregate es = None \<longleftrightarrow> (\<forall>e\<in>set es. e = None)"
  by (induction es) (auto simp: new_aggregate_def List.map_filter_simps split: option.splits list.splits)

lemma new_aggregate_Some_Cons [simp]:
  "new_aggregate (Some e # es) = Some (Agg (e # List.map_filter id es))"
  by (simp add: new_aggregate_def List.map_filter_simps)

text \<open>A Go call that returns a value and an error: the error, or the value.\<close>

type_synonym 'a res = "err + 'a"

definition err_of :: "'a res \<Rightarrow> err option" where
  "err_of r = (case r of Inl e \<Rightarrow> Some e | Inr _ \<Rightarrow> None)"

lemma err_of_simps [simp]: "err_of (Inl e) = Some e" "err_of (Inr x) = None"
  by (simp_all add: err_of_def)

end
