(* ===== verification/GoPath.thy ===== *)
theory GoPath
  imports Prelude
begin

section \<open>Paths: the filepath package\<close>

text \<open>
  The functions of Go's \<^verbatim>\<open>path/filepath\<close> the sources call, on strings. An absolute
  path the store works with is the list of its components (\<open>path\<close>): \<open>join\<close> is
  \<^verbatim>\<open>filepath.Join\<close>, which cleans its result lexically, and \<open>base\<close> is
  \<^verbatim>\<open>filepath.Base\<close>. The lemmas show that a base name is one directory entry
  or one of the three names the store refuses, which is what makes an extraction unable to
  leave its directory.
\<close>

type_synonym path = "string list"

abbreviation slash :: char where
  "slash \<equiv> CHR ''/''"

text \<open>A component that names one entry of a directory.\<close>

definition plain :: "string \<Rightarrow> bool" where
  "plain c \<longleftrightarrow> c \<noteq> [] \<and> c \<noteq> ''.'' \<and> c \<noteq> ''..'' \<and> slash \<notin> set c"

definition clean_path :: "path \<Rightarrow> bool" where
  "clean_path p = list_all plain p"

lemma clean_path_simps [simp]:
  "clean_path []" "clean_path (c # p) = (plain c \<and> clean_path p)"
  "clean_path (p @ q) = (clean_path p \<and> clean_path q)"
  by (auto simp: clean_path_def)

text \<open>\<^verbatim>\<open>filepath.Clean\<close> of a rooted path, on components: empty components and
  \<^verbatim>\<open>.\<close> go, \<^verbatim>\<open>..\<close> removes the one before it, and the root is its own
  parent. The accumulator is the result so far, last component first.\<close>

fun clean_rooted :: "path \<Rightarrow> path \<Rightarrow> path" where
  "clean_rooted acc [] = rev acc"
| "clean_rooted acc (c # cs) =
     (if c = [] \<or> c = ''.'' then clean_rooted acc cs
      else if c = ''..'' then clean_rooted (tl acc) cs
      else clean_rooted (c # acc) cs)"

definition clean :: "path \<Rightarrow> path" where
  "clean p = clean_rooted [] p"

definition join :: "path \<Rightarrow> string \<Rightarrow> path" where
  "join p n = clean (p @ split_on slash n)"

lemma clean_rooted_plain:
  "clean_path p \<Longrightarrow> clean_rooted acc (p @ q) = clean_rooted (rev p @ acc) q"
  by (induction p arbitrary: acc) (auto simp: plain_def)

lemma clean_id [path_simps]: "clean_path p \<Longrightarrow> clean p = p"
  using clean_rooted_plain [of p "[]" "[]"] by (simp add: clean_def)

lemma clean_rooted_clean:
  "clean_path acc \<Longrightarrow> \<forall>c\<in>set p. slash \<notin> set c \<Longrightarrow> clean_path (clean_rooted acc p)"
proof (induction acc p rule: clean_rooted.induct)
  case (2 acc c cs)
  have "clean_path (tl acc)" using "2.prems"(1) by (cases acc) auto
  with 2 show ?case by (auto simp: plain_def)
qed (simp add: clean_path_def)

lemma clean_clean: "\<forall>c\<in>set p. slash \<notin> set c \<Longrightarrow> clean_path (clean p)"
  by (simp add: clean_def clean_rooted_clean)

lemma clean_path_noslash: "clean_path p \<Longrightarrow> c \<in> set p \<Longrightarrow> slash \<notin> set c"
  by (auto simp: clean_path_def list_all_iff plain_def)

lemma clean_path_join: "clean_path p \<Longrightarrow> clean_path (join p n)"
  unfolding join_def by (rule clean_clean) (auto dest: split_on_fields clean_path_noslash)

lemma join_plain [path_simps]: "clean_path p \<Longrightarrow> plain n \<Longrightarrow> join p n = p @ [n]"
  unfolding join_def by (subst split_on_no_sep) (auto simp: plain_def clean_id)

text \<open>A path with \<^verbatim>\<open>..\<close> in a name climbs out lexically: \<open>join\<close> does not confine.\<close>

lemma join_escapes: "clean_path p \<Longrightarrow> plain d \<Longrightarrow> plain n \<Longrightarrow> join (p @ [d]) (''../'' @ n) = p @ [n]"
  using clean_rooted_plain [of "p @ [d]" "[]" "[''..'', n]"]
  by (simp add: join_def clean_def split_on_no_sep plain_def)

subsection \<open>Base names\<close>

text \<open>\<^verbatim>\<open>filepath.Base\<close>: the empty path is \<^verbatim>\<open>.\<close>; trailing separators
  go; the rest after the last separator is the result, or the separator itself when nothing is
  left.\<close>

definition strip_slashes :: "string \<Rightarrow> string" where
  "strip_slashes s = rev (dropWhile (\<lambda>c. c = slash) (rev s))"

definition base :: "string \<Rightarrow> string" where
  "base s =
     (if s = [] then ''.''
      else let t = strip_slashes s; b = rev (takeWhile (\<lambda>c. c \<noteq> slash) (rev t))
           in if b = [] then [slash] else b)"

lemma base_cases: "base s = ''.'' \<or> base s = ''..'' \<or> base s = [slash] \<or> plain (base s)"
proof -
  have "slash \<notin> set (takeWhile (\<lambda>c. c \<noteq> slash) t)" for t
    by (induction t) auto
  then show ?thesis by (auto simp: base_def plain_def Let_def)
qed

lemma strip_slashes_id: "n \<noteq> [] \<Longrightarrow> slash \<notin> set n \<Longrightarrow> strip_slashes (d @ n) = d @ n"
  by (cases n rule: rev_cases) (auto simp: strip_slashes_def)

lemma takeWhile_noslash: "slash \<notin> set n \<Longrightarrow> takeWhile (\<lambda>c. c \<noteq> slash) (rev n) = rev n"
  by (subst takeWhile_eq_all_conv) auto

lemma takeWhile_last: "slash \<notin> set n \<Longrightarrow> takeWhile (\<lambda>c. c \<noteq> slash) (rev n @ slash # r) = rev n"
  by (subst takeWhile_append2) auto

lemma base_plain: "plain n \<Longrightarrow> base n = n"
  using strip_slashes_id [of n "[]"]
  by (auto simp: base_def Let_def takeWhile_noslash plain_def)

lemma base_dir_plain: "plain n \<Longrightarrow> base (d @ slash # n) = n"
  using strip_slashes_id [of n "d @ [slash]"]
  by (auto simp: base_def Let_def takeWhile_last plain_def)

end
