(* ===== verification/FileSystem.thy ===== *)
theory FileSystem
  imports GoErrors GoPath
begin

section \<open>The node's file system\<close>

text \<open>
  The \<^verbatim>\<open>os\<close> calls the sources make, on a tree of directories, regular files,
  links and special files. A path is walked the way the kernel walks it: links are followed, at
  most forty of them. Every call takes one tick of a schedule that may make it fail, with any
  error and any partial effect the real call can leave (a file written in part, a directory
  emptied in part); a theorem for all schedules therefore covers every error path, and also a
  crash, which is a schedule in which every call from some tick on fails with no effect.
  The schedule also says when the context is cancelled, what the clock reads and which random
  numbers are drawn.
\<close>

subsection \<open>The tree\<close>

record regfile =
  fdata :: string
  fdev :: nat
  fino :: nat
  fmtime :: int
  fctime :: int

text \<open>A directory has an inode number, which a lock is held on, and its entries.\<close>

datatype node =
    Dir nat "(string \<times> node) list"
  | Reg regfile
  | Link string
  | Special

fun is_dir :: "node \<Rightarrow> bool" where
  "is_dir (Dir i es) = True"
| "is_dir _ = False"

fun is_regular :: "node \<Rightarrow> bool" where
  "is_regular (Reg f) = True"
| "is_regular _ = False"

fun is_link :: "node \<Rightarrow> bool" where
  "is_link (Link t) = True"
| "is_link _ = False"

fun lookup :: "node \<Rightarrow> path \<Rightarrow> node option" where
  "lookup n [] = Some n"
| "lookup (Dir i es) (c # cs) = (case map_of es c of None \<Rightarrow> None | Some m \<Rightarrow> lookup m cs)"
| "lookup _ (c # cs) = None"

text \<open>\<open>put p v n\<close> sets the entry at \<open>p\<close>, or removes it; a path whose parent is not a
  directory changes nothing.\<close>

fun put :: "path \<Rightarrow> node option \<Rightarrow> node \<Rightarrow> node" where
  "put [] v n = (case v of None \<Rightarrow> n | Some m \<Rightarrow> m)"
| "put (c # cs) v (Dir i es) = Dir i
     (if cs = [] then (case v of None \<Rightarrow> AList.delete c es | Some m \<Rightarrow> AList.update c m es)
      else (case map_of es c of None \<Rightarrow> es | Some m \<Rightarrow> AList.update c (put cs v m) es))"
| "put (c # cs) v n = n"

text \<open>\<^verbatim>\<open>os.ReadDir\<close> lists the names in order.\<close>

definition names :: "(string \<times> node) list \<Rightarrow> string list" where
  "names es = sort (remdups (map fst es))"

lemma set_names [simp]: "set (names es) = fst ` set es"
  by (simp add: names_def)

lemma distinct_names [simp]: "distinct (names es)"
  by (simp add: names_def)

definition dir_at :: "node \<Rightarrow> path \<Rightarrow> bool" where
  "dir_at r p = (case lookup r p of Some n \<Rightarrow> is_dir n | None \<Rightarrow> False)"

lemma dir_at_iff: "dir_at r p \<longleftrightarrow> (\<exists>i es. lookup r p = Some (Dir i es))"
  by (auto simp: dir_at_def split: option.splits elim!: is_dir.elims)

lemma lookup_append:
  "lookup n (p @ q) = (case lookup n p of None \<Rightarrow> None | Some m \<Rightarrow> lookup m q)"
  by (induction n p rule: lookup.induct) (auto split: option.splits)

lemma lookup_child [path_simps]:
  "lookup n p = Some (Dir i es) \<Longrightarrow> lookup n (p @ c # q) = (case map_of es c of None \<Rightarrow> None | Some m \<Rightarrow> lookup m q)"
  by (simp add: lookup_append split: option.splits)

lemma dir_at_prefix: "dir_at r (p @ q) \<Longrightarrow> dir_at r p"
proof (induction q arbitrary: p)
  case (Cons c q)
  have "dir_at r ((p @ [c]) @ q)" using Cons.prems by simp
  then have "dir_at r (p @ [c])" by (rule Cons.IH)
  then show ?case
    by (auto simp: dir_at_iff lookup_append split: option.splits) (metis is_dir.elims(1) lookup.simps(3,4,5) node.exhaust option.distinct(1))
qed simp

text \<open>What \<open>put\<close> does at the path, under it, and everywhere else.\<close>

lemma lookup_put_same [path_simps]: "dir_at n p \<Longrightarrow> lookup (put (p @ [c]) v n) (p @ [c]) = v"
  by (induction "p @ [c]" v n arbitrary: p rule: put.induct)
    (auto simp: dir_at_def Cons_eq_append_conv split: option.splits)

lemma lookup_put_under [path_simps]:
  "dir_at n p \<Longrightarrow> lookup (put (p @ [c]) v n) (p @ c # q)
     = (case v of None \<Rightarrow> None | Some m \<Rightarrow> lookup m q)"
  using lookup_append [of "put (p @ [c]) v n" "p @ [c]" q] by (simp add: lookup_put_same)

lemma lookup_put_parallel:
  "p \<parallel> q \<Longrightarrow> lookup (put p v n) q = lookup n q"
proof (induction p v n arbitrary: q rule: put.induct)
  case (2 c cs v i es)
  then obtain d ds where q: "q = d # ds" by (cases q) auto
  show ?case
  proof (cases "c = d")
    case True
    with "2.prems" q have "cs \<noteq> []" "cs \<parallel> ds" by (auto simp: parallel_def)
    with True q "2.IH" show ?thesis by (auto split: option.splits)
  next
    case False
    with q show ?thesis by (auto split: option.splits)
  qed
qed auto

lemma lookup_put_sibling [path_simps]:
  "c \<noteq> d \<Longrightarrow> lookup (put (p @ [c]) v n) (p @ d # q) = lookup n (p @ d # q)"
  by (rule lookup_put_parallel) (simp add: parallel_def)

lemma put_entries:
  "lookup n p = Some (Dir i es) \<Longrightarrow> lookup (put (p @ [c]) v n) p
     = Some (Dir i (case v of None \<Rightarrow> AList.delete c es | Some m \<Rightarrow> AList.update c m es))"
  by (induction "p @ [c]" v n arbitrary: p rule: put.induct)
    (auto simp: Cons_eq_append_conv split: option.splits)

lemma dir_at_put [path_simps]: "dir_at n p \<Longrightarrow> dir_at (put (p @ [c]) v n) p"
  by (auto simp: dir_at_iff put_entries)

lemma put_put [path_simps]: "put p v (put p (Some m) n) = put p v n"  if "p \<noteq> []"
  using that
proof (induction p "Some m" n arbitrary: m rule: put.induct)
  case (2 c cs i es)
  then show ?case
    by (cases "cs = []") (auto simp: delete_update_same split: option.splits)
qed auto

lemma put_absent: "lookup n p = None \<Longrightarrow> put p None n = n"
proof (induction p "None :: node option" n rule: put.induct)
  case (2 d cs i es)
  show ?case
  proof (cases "map_of es d")
    case None
    then show ?thesis by simp
  next
    case (Some m)
    with 2 show ?thesis by (cases "cs = []") (simp_all add: update_triv)
  qed
qed auto

lemma put_same: "lookup n p = Some m \<Longrightarrow> put p (Some m) n = n"
proof (induction p "Some m" n arbitrary: m rule: put.induct)
  case (2 c cs i es)
  then show ?case by (auto simp: update_triv split: option.splits)
qed auto

text \<open>An entry put where there was none and removed again leaves no trace.\<close>

lemma put_remove [path_simps]:
  "lookup n (p @ [c]) = None \<Longrightarrow> put (p @ [c]) None (put (p @ [c]) (Some m) n) = n"
  by (simp add: put_put put_absent)

subsection \<open>Walking a path\<close>

text \<open>The kernel's walk: \<open>cur\<close> is the directory reached so far, without links on the way.
  The last component may be missing, so that it can be created; a link there is followed when
  \<open>follow\<close> is set (\<^verbatim>\<open>stat\<close> against \<^verbatim>\<open>lstat\<close>). Each link costs one
  unit of the forty Linux allows; one more is \<open>ELOOP\<close>.\<close>

function walk :: "nat \<Rightarrow> node \<Rightarrow> bool \<Rightarrow> path \<Rightarrow> path \<Rightarrow> errno + path" where
  "walk links r follow cur [] = Inr cur"
| "walk links r follow cur (c # cs) =
     (if \<not> dir_at r cur then Inl ENOTDIR
      else if c = [] \<or> c = ''.'' then walk links r follow cur cs
      else if c = ''..'' then walk links r follow (butlast cur) cs
      else (case lookup r (cur @ [c]) of
          None \<Rightarrow> if cs = [] then Inr (cur @ [c]) else Inl ENOENT
        | Some (Link t) \<Rightarrow>
            if cs = [] \<and> \<not> follow then Inr (cur @ [c])
            else if links = 0 then Inl ELOOP
            else walk (links - 1) r follow (if has_prefix t [slash] then [] else cur)
                   (split_on slash t @ cs)
        | Some n \<Rightarrow> walk links r follow (cur @ [c]) cs))"
  by pat_completeness auto
termination
  by (relation "measures [\<lambda>(l, r, f, cur, cs). l, \<lambda>(l, r, f, cur, cs). length cs]") auto

declare walk.simps(2) [simp del]

definition resolve :: "node \<Rightarrow> bool \<Rightarrow> path \<Rightarrow> errno + path" where
  "resolve r follow p = walk 40 r follow [] p"

text \<open>The node a path leads to.\<close>

definition node_at :: "node \<Rightarrow> bool \<Rightarrow> path \<Rightarrow> errno + node" where
  "node_at r follow p =
     (case resolve r follow p of
        Inl e \<Rightarrow> Inl e
      | Inr q \<Rightarrow> (case lookup r q of None \<Rightarrow> Inl ENOENT | Some n \<Rightarrow> Inr n))"

text \<open>A directory of the tree reached without links is walked component by component.\<close>

lemma walk_dir:
  "dir_at r (cur @ p) \<Longrightarrow> clean_path p \<Longrightarrow> walk links r follow cur (p @ q) = walk links r follow (cur @ p) q"
proof (induction p arbitrary: cur)
  case (Cons c p)
  have d: "dir_at r ((cur @ [c]) @ p)" using Cons.prems(1) by simp
  then have dc: "dir_at r (cur @ [c])" by (rule dir_at_prefix)
  then have "dir_at r cur" by (rule dir_at_prefix)
  moreover obtain i es where "lookup r (cur @ [c]) = Some (Dir i es)"
    using dc by (auto simp: dir_at_iff)
  ultimately have "walk links r follow cur ((c # p) @ q) = walk links r follow (cur @ [c]) (p @ q)"
    using Cons.prems(2) by (auto simp: walk.simps(2) plain_def)
  also have "\<dots> = walk links r follow ((cur @ [c]) @ p) q"
    using d Cons.prems(2) by (intro Cons.IH) auto
  finally show ?case by simp
qed simp

lemma resolve_dir [path_simps]:
  "dir_at r p \<Longrightarrow> clean_path p \<Longrightarrow> resolve r follow p = Inr p"
  using walk_dir [of r "[]" p 40 follow "[]"] by (simp add: resolve_def)

lemma resolve_child:
  "dir_at r p \<Longrightarrow> clean_path p \<Longrightarrow> plain c \<Longrightarrow> resolve r follow (p @ [c]) =
     (case lookup r (p @ [c]) of
        Some (Link t) \<Rightarrow> if \<not> follow then Inr (p @ [c]) else resolve r follow (p @ [c])
      | _ \<Rightarrow> Inr (p @ [c]))"
  using walk_dir [of r "[]" p 40 follow "[c]"]
  by (auto simp: resolve_def walk.simps(2) plain_def split: option.splits node.splits)

lemma resolve_entry [path_simps]:
  "dir_at r p \<Longrightarrow> clean_path p \<Longrightarrow> plain c \<Longrightarrow> resolve r False (p @ [c]) = Inr (p @ [c])"
  by (subst resolve_child) (auto split: option.splits node.splits)

lemma resolve_nolink [path_simps]:
  "dir_at r p \<Longrightarrow> clean_path p \<Longrightarrow> plain c \<Longrightarrow> \<forall>t. lookup r (p @ [c]) \<noteq> Some (Link t)
   \<Longrightarrow> resolve r follow (p @ [c]) = Inr (p @ [c])"
  by (subst resolve_child) (auto split: option.splits node.splits)

subsection \<open>One directory and its entries\<close>

text \<open>A change below a directory is a change of its entry list.\<close>

definition upd :: "string \<Rightarrow> node option \<Rightarrow> (string \<times> node) list \<Rightarrow> (string \<times> node) list" where
  "upd c v es = (case v of None \<Rightarrow> AList.delete c es | Some m \<Rightarrow> AList.update c m es)"

lemma upd_simps [simp]: "upd c None es = AList.delete c es" "upd c (Some m) es = AList.update c m es"
  by (simp_all add: upd_def)

lemma map_of_upd [simp]: "map_of (upd c v es) = (map_of es)(c := v)"
  by (cases v) simp_all

lemma put_twice: "put p (Some v) (put p (Some m) n) = put p (Some v) n"
  by (cases "p = []") (simp_all add: put_put)

lemma put_child: "lookup n p = Some (Dir i es) \<Longrightarrow> put (p @ [c]) v n = put p (Some (Dir i (upd c v es))) n"
  by (induction "p @ [c]" v n arbitrary: p rule: put.induct)
    (auto simp: Cons_eq_append_conv upd_def split: option.splits)

lemma lookup_put_self: "lookup n p = Some m' \<Longrightarrow> lookup (put p (Some m) n) p = Some m"
proof (cases p rule: rev_cases)
  case (snoc q c)
  assume l: "lookup n p = Some m'"
  have "dir_at n q"
    using l snoc by (auto simp: dir_at_def lookup_append split: option.splits elim: lookup.elims)
  with snoc show ?thesis by (simp add: lookup_put_same)
qed simp

lemma put_grandchild:
  "dir_at r p \<Longrightarrow> put (p @ [t, f]) v (put (p @ [t]) (Some (Dir i es)) r) = put (p @ [t]) (Some (Dir i (upd f v es))) r"
  using put_child [of "put (p @ [t]) (Some (Dir i es)) r" "p @ [t]" i es f v]
  by (simp add: lookup_put_same put_twice)

lemma update_last: "b \<notin> fst ` set es \<Longrightarrow> AList.update b v (es @ [(b, u)]) = es @ [(b, v)]"
  by (induction es) auto

lemma delete_fresh_last: "b \<notin> fst ` set es \<Longrightarrow> AList.delete b (es @ [(b, u)]) = es"
  by (simp add: AList.delete_eq filter_id_conv) force

lemma delete_append: "AList.delete b (es @ es') = AList.delete b es @ AList.delete b es'"
  by (simp add: AList.delete_eq)

text \<open>The file system below a directory, read back.\<close>

lemma dir_at_put_dir [path_simps]: "dir_at r p \<Longrightarrow> dir_at (put (p @ [t]) (Some (Dir i es)) r) (p @ [t])"
  by (simp add: dir_at_iff lookup_put_same)

lemma lookup_put_child [path_simps]:
  "dir_at r p \<Longrightarrow> lookup (put (p @ [t]) (Some (Dir i es)) r) (p @ [t, f]) = map_of es f"
  using lookup_put_under [of r p t _ "[f]"] by (auto split: option.split)

lemma node_at_entry [path_simps]:
  "dir_at r p \<Longrightarrow> clean_path p \<Longrightarrow> plain c \<Longrightarrow>
   node_at r False (p @ [c]) = (case lookup r (p @ [c]) of None \<Rightarrow> Inl ENOENT | Some n \<Rightarrow> Inr n)"
  by (simp add: node_at_def resolve_entry)

lemma node_at_nolink [path_simps]:
  "dir_at r p \<Longrightarrow> clean_path p \<Longrightarrow> plain c \<Longrightarrow> \<forall>t. lookup r (p @ [c]) \<noteq> Some (Link t) \<Longrightarrow>
   node_at r follow (p @ [c]) = (case lookup r (p @ [c]) of None \<Rightarrow> Inl ENOENT | Some n \<Rightarrow> Inr n)"
  by (simp add: node_at_def resolve_nolink)

text \<open>An entry of a directory put into the tree.\<close>

lemma join_in [path_simps]: "clean_path p \<Longrightarrow> plain t \<Longrightarrow> plain b \<Longrightarrow> join (p @ [t]) b = p @ [t, b]"
  by (simp add: join_plain)

lemma resolve_in [path_simps]:
  "dir_at r p \<Longrightarrow> clean_path p \<Longrightarrow> plain t \<Longrightarrow> plain b \<Longrightarrow>
   resolve (put (p @ [t]) (Some (Dir i es)) r) False (p @ [t, b]) = Inr (p @ [t, b])"
  using resolve_entry [of "put (p @ [t]) (Some (Dir i es)) r" "p @ [t]" b] by (simp add: dir_at_put_dir)

lemma resolve_in_follow [path_simps]:
  "dir_at r p \<Longrightarrow> clean_path p \<Longrightarrow> plain t \<Longrightarrow> plain b \<Longrightarrow> \<forall>l. map_of es b \<noteq> Some (Link l) \<Longrightarrow>
   resolve (put (p @ [t]) (Some (Dir i es)) r) follow (p @ [t, b]) = Inr (p @ [t, b])"
  using resolve_nolink [of "put (p @ [t]) (Some (Dir i es)) r" "p @ [t]" b follow]
  by (simp add: dir_at_put_dir lookup_put_child)

text \<open>The entries of a directory, and the tree with other entries there.\<close>

definition entries_at :: "node \<Rightarrow> path \<Rightarrow> (string \<times> node) list" where
  "entries_at r p = (case lookup r p of Some (Dir i es) \<Rightarrow> es | _ \<Rightarrow> [])"

definition with_entries :: "node \<Rightarrow> path \<Rightarrow> (string \<times> node) list \<Rightarrow> node" where
  "with_entries r p es = (case lookup r p of Some (Dir i es0) \<Rightarrow> put p (Some (Dir i es)) r | _ \<Rightarrow> r)"

lemma with_entries_self [simp]: "dir_at r p \<Longrightarrow> with_entries r p (entries_at r p) = r"
  by (auto simp: dir_at_iff with_entries_def entries_at_def put_same)

lemma put_with_entries [path_simps]: "dir_at r p \<Longrightarrow> put (p @ [c]) v (with_entries r p es) = with_entries r p (upd c v es)"
  by (auto simp: dir_at_iff with_entries_def lookup_put_self put_child put_twice)

lemma put_as_entries: "dir_at r p \<Longrightarrow> put (p @ [c]) v r = with_entries r p (upd c v (entries_at r p))"
  by (auto simp: dir_at_iff with_entries_def entries_at_def put_child)

lemma dir_at_with_entries [path_simps]: "dir_at r p \<Longrightarrow> dir_at (with_entries r p es) p"
  by (auto simp: dir_at_iff with_entries_def lookup_put_self)

lemma entries_with_entries [path_simps]: "dir_at r p \<Longrightarrow> entries_at (with_entries r p es) p = es"
  by (auto simp: dir_at_iff with_entries_def entries_at_def lookup_put_self)

lemma with_entries_twice [path_simps]: "dir_at r p \<Longrightarrow> with_entries (with_entries r p es) p es' = with_entries r p es'"
  by (auto simp: dir_at_iff with_entries_def lookup_put_self put_twice)

lemma lookup_with_entries [path_simps]:
  "dir_at r p \<Longrightarrow> lookup (with_entries r p es) (p @ c # q)
     = (case map_of es c of None \<Rightarrow> None | Some m \<Rightarrow> lookup m q)"
  by (auto simp: dir_at_iff with_entries_def lookup_append lookup_put_self)

lemma lookup_entries:
  "dir_at r p \<Longrightarrow> lookup r (p @ c # q) = (case map_of (entries_at r p) c of None \<Rightarrow> None | Some m \<Rightarrow> lookup m q)"
  by (metis lookup_with_entries with_entries_self)

lemma lookup_with_parallel: "p \<parallel> q \<Longrightarrow> lookup (with_entries r p es) q = lookup r q"
  by (auto simp: with_entries_def lookup_put_parallel split: option.split node.split)

text \<open>Two trees that agree but for the entries \<open>N\<close> of the directory \<open>p\<close>.\<close>

definition elsewhere :: "path \<Rightarrow> string set \<Rightarrow> node \<Rightarrow> node \<Rightarrow> bool" where
  "elsewhere p N r r' \<longleftrightarrow> (dir_at r p \<longrightarrow> dir_at r' p)
     \<and> (\<forall>c q. c \<notin> N \<longrightarrow> lookup r' (p @ c # q) = lookup r (p @ c # q))
     \<and> (\<forall>q. p \<parallel> q \<longrightarrow> lookup r' q = lookup r q)"

lemma elsewhere_refl [simp]: "elsewhere p N r r"
  by (simp add: elsewhere_def)

lemma elsewhere_with_entries:
  "dir_at r p \<Longrightarrow> \<forall>c. c \<notin> N \<longrightarrow> map_of es c = map_of (entries_at r p) c \<Longrightarrow> elsewhere p N r (with_entries r p es)"
  by (simp add: elsewhere_def dir_at_with_entries lookup_with_entries entries_with_entries lookup_entries lookup_with_parallel)

lemma elsewhere_put: "dir_at r p \<Longrightarrow> c \<in> N \<Longrightarrow> elsewhere p N r (put (p @ [c]) v r)"
  by (subst put_as_entries, assumption, rule elsewhere_with_entries) auto

lemma elsewhere_trans: "elsewhere p N r s \<Longrightarrow> elsewhere p N s t \<Longrightarrow> elsewhere p N r t"
  by (simp add: elsewhere_def)

lemma elsewhere_mono: "elsewhere p N r s \<Longrightarrow> N \<subseteq> M \<Longrightarrow> elsewhere p M r s"
  by (auto simp: elsewhere_def)

text \<open>A path below something that is not a directory.\<close>

lemma resolve_below_file:
  "dir_at r p \<Longrightarrow> clean_path p \<Longrightarrow> plain c \<Longrightarrow> lookup r (p @ [c]) = Some n \<Longrightarrow> \<not> is_dir n \<Longrightarrow> \<not> is_link n \<Longrightarrow>
   resolve r follow (p @ [c, d]) = Inl ENOTDIR"
  using walk_dir [of r "[]" p 40 follow "[c, d]"]
  by (cases n) (auto simp: resolve_def walk.simps(2) plain_def dir_at_def)

lemma resolve_below_absent:
  "dir_at r p \<Longrightarrow> clean_path p \<Longrightarrow> plain c \<Longrightarrow> lookup r (p @ [c]) = None \<Longrightarrow>
   resolve r follow (p @ [c, d]) = Inl ENOENT"
  using walk_dir [of r "[]" p 40 follow "[c, d]"]
  by (auto simp: resolve_def walk.simps(2) plain_def)

text \<open>An entry of a directory that is itself an entry of \<open>p\<close>.\<close>

lemma dir_at_entry: "dir_at r p \<Longrightarrow> map_of (entries_at r p) c = Some (Dir k fs) \<Longrightarrow> dir_at r (p @ [c])"
  by (simp add: dir_at_iff lookup_entries)

lemma node_at_below:
  assumes "dir_at r p" "clean_path p" "plain c" "plain d" "map_of (entries_at r p) c = Some (Dir k fs)"
    "\<forall>l. map_of fs d \<noteq> Some (Link l)"
  shows "node_at r follow (p @ [c, d]) = (case map_of fs d of None \<Rightarrow> Inl ENOENT | Some n \<Rightarrow> Inr n)"
proof -
  have l: "lookup r (p @ [c, d]) = map_of fs d"
    using assms(1,5) by (simp add: lookup_entries split: option.split)
  show ?thesis
    using node_at_nolink [OF dir_at_entry [OF assms(1,5)], of d follow] assms(2-4,6)
    by (simp add: l)
qed

end
