(* ===== verification/Syscalls.thy ===== *)
theory Syscalls
  imports FileSystem
begin

section \<open>System calls under a schedule of failures\<close>

text \<open>
  The state the store's code runs in, and the calls of \<^verbatim>\<open>os\<close> and
  \<^verbatim>\<open>unix\<close> it makes. A call takes one tick. When the schedule has a fault at that
  tick the call returns its error and leaves the partial effect the fault names; otherwise the
  result is the one the tree gives. \<open>'m\<close> is the memory of the process (the digests the
  store remembers).
\<close>

text \<open>\<open>fwrote\<close>: a failing write touched the file and got so many bytes out, or never opened
  it. \<open>fsurvives\<close>: what a failing removal left, by its path below the one removed.\<close>

datatype fault = Fault (ferr: errno) (fwrote: "nat option") (fsurvives: "path \<Rightarrow> bool")

record 'm world =
  root :: node
  locks :: "nat set"
  next_ino :: nat
  fsdev :: nat
  tick :: nat
  faults :: "nat \<Rightarrow> fault option"
  clock :: "nat \<Rightarrow> int"
  granularity :: int
  rnd :: "nat \<Rightarrow> nat"
  cancel :: "nat option"
  memory :: 'm

text \<open>\<^verbatim>\<open>time.Now()\<close>, in nanoseconds, and the time stamp a file system with ticks of
  \<open>granularity\<close> stores for it.\<close>

definition now :: "'m world \<Rightarrow> int" where
  "now w = clock w (tick w)"

definition stamp :: "'m world \<Rightarrow> int" where
  "stamp w = now w - now w mod granularity w"

subsection \<open>The shapes of a call\<close>

definition enter :: "('m world, fault option) state" where
  "enter = do {
     w \<leftarrow> State_Monad.get;
     State_Monad.set (w\<lparr>tick := Suc (tick w)\<rparr>);
     State_Monad.return (faults w (tick w))
   }"

text \<open>A call that only looks.\<close>

definition query :: "('m world \<Rightarrow> 'a res) \<Rightarrow> ('m world, 'a res) state" where
  "query q = do {
     f \<leftarrow> enter;
     case f of
       Some ft \<Rightarrow> State_Monad.return (Inl (Sys (ferr ft)))
     | None \<Rightarrow> do { w \<leftarrow> State_Monad.get; State_Monad.return (q w) }
   }"

text \<open>A call that changes the tree or the locks: \<open>u\<close> is its effect, \<open>partial\<close> what a
  failing one leaves behind.\<close>

definition mutate ::
  "('m world \<Rightarrow> ('a \<times> 'm world) res) \<Rightarrow> (fault \<Rightarrow> 'm world \<Rightarrow> 'm world) \<Rightarrow> ('m world, 'a res) state" where
  "mutate u partial = do {
     f \<leftarrow> enter;
     w \<leftarrow> State_Monad.get;
     case f of
       Some ft \<Rightarrow> do {
         State_Monad.set (partial ft w);
         State_Monad.return (Inl (Sys (ferr ft))) }
     | None \<Rightarrow> (case u w of
         Inl e \<Rightarrow> State_Monad.return (Inl e)
       | Inr (x, w') \<Rightarrow> do { State_Monad.set w'; State_Monad.return (Inr x) })
   }"

text \<open>\<^verbatim>\<open>ctx.Err()\<close>: once cancelled, a context stays so.\<close>

definition ctx_done :: "'m world \<Rightarrow> bool" where
  "ctx_done w = (case cancel w of None \<Rightarrow> False | Some t \<Rightarrow> t \<le> tick w)"

definition ctx_err :: "('m world, err option) state" where
  "ctx_err = do {
     _ \<leftarrow> enter;
     w \<leftarrow> State_Monad.get;
     State_Monad.return (if ctx_done w then Some Canceled else None)
   }"

subsection \<open>Calls that only look\<close>

definition lift_errno :: "errno + 'a \<Rightarrow> 'a res" where
  "lift_errno r = (case r of Inl e \<Rightarrow> Inl (Sys e) | Inr x \<Rightarrow> Inr x)"

definition stat_in :: "node \<Rightarrow> path \<Rightarrow> node res" where
  "stat_in r p = lift_errno (node_at r True p)"

definition lstat_in :: "node \<Rightarrow> path \<Rightarrow> node res" where
  "lstat_in r p = lift_errno (node_at r False p)"

text \<open>The content of the file at a path, as \<^verbatim>\<open>os.ReadFile\<close> gives it.\<close>

definition read_in :: "node \<Rightarrow> path \<Rightarrow> string res" where
  "read_in r p = (case stat_in r p of
     Inl e \<Rightarrow> Inl e
   | Inr (Reg f) \<Rightarrow> Inr (fdata f)
   | Inr (Dir i es) \<Rightarrow> Inl (Sys EISDIR)
   | Inr (Link t) \<Rightarrow> Inl (Sys ELOOP)
   | Inr Special \<Rightarrow> Inl (Sys ENXIO))"

definition readdir_in :: "node \<Rightarrow> path \<Rightarrow> (string \<times> node) list res" where
  "readdir_in r p = (case stat_in r p of
     Inl e \<Rightarrow> Inl e
   | Inr (Dir i es) \<Rightarrow> Inr (map (\<lambda>n. (n, the (map_of es n))) (names es))
   | Inr _ \<Rightarrow> Inl (Sys ENOTDIR))"

definition stat :: "path \<Rightarrow> ('m world, node res) state" where
  "stat p = query (\<lambda>w. stat_in (root w) p)"

definition lstat :: "path \<Rightarrow> ('m world, node res) state" where
  "lstat p = query (\<lambda>w. lstat_in (root w) p)"

definition read_file :: "path \<Rightarrow> ('m world, string res) state" where
  "read_file p = query (\<lambda>w. read_in (root w) p)"

text \<open>\<^verbatim>\<open>os.ReadDir\<close>: the entries in order of their names, each with its own type.\<close>

definition read_dir :: "path \<Rightarrow> ('m world, (string \<times> node) list res) state" where
  "read_dir p = query (\<lambda>w. readdir_in (root w) p)"

text \<open>\<^verbatim>\<open>os.Open\<close>, on a directory to lock and on a file to read. The handle on a
  directory is its inode; a lock is on the inode, whatever path leads to it later.\<close>

definition open_inode :: "path \<Rightarrow> ('m world, nat res) state" where
  "open_inode p = query (\<lambda>w. case stat_in (root w) p of
     Inl e \<Rightarrow> Inl e
   | Inr (Dir i es) \<Rightarrow> Inr i
   | Inr (Reg f) \<Rightarrow> Inr (fino f)
   | Inr _ \<Rightarrow> Inl (Sys ENXIO))"

definition open_file :: "path \<Rightarrow> ('m world, unit res) state" where
  "open_file p = query (\<lambda>w. case stat_in (root w) p of
     Inl e \<Rightarrow> Inl e
   | Inr Special \<Rightarrow> Inl (Sys ENXIO)
   | Inr _ \<Rightarrow> Inr ())"

definition close :: "('m world, unit res) state" where
  "close = query (\<lambda>w. Inr ())"

subsection \<open>Locks\<close>

text \<open>\<^verbatim>\<open>unix.Flock(LOCK_EX)\<close> waits for the holder and returns with the lock held;
  with \<^verbatim>\<open>LOCK_NB\<close> it fails at once when somebody holds it. Closing the handle, or
  the end of the process, releases it.\<close>

definition flock :: "nat \<Rightarrow> ('m world, unit res) state" where
  "flock i = mutate (\<lambda>w. Inr ((), w\<lparr>locks := insert i (locks w)\<rparr>)) (\<lambda>_ w. w)"

definition flock_nb :: "nat \<Rightarrow> ('m world, unit res) state" where
  "flock_nb i = mutate (\<lambda>w. if i \<in> locks w then Inl (Sys EWOULDBLOCK)
                           else Inr ((), w\<lparr>locks := insert i (locks w)\<rparr>)) (\<lambda>_ w. w)"

definition unlock :: "nat \<Rightarrow> 'm world \<Rightarrow> 'm world" where
  "unlock i w = w\<lparr>locks := locks w - {i}\<rparr>"

text \<open>Closing a locked handle releases the lock even when the call reports an error.\<close>

definition close_locked :: "nat \<Rightarrow> ('m world, unit res) state" where
  "close_locked i = mutate (\<lambda>w. Inr ((), unlock i w)) (\<lambda>_ w. unlock i w)"

subsection \<open>Calls that change the tree\<close>

definition new_file :: "'m world \<Rightarrow> string \<Rightarrow> regfile" where
  "new_file w d = \<lparr>fdata = d, fdev = fsdev w, fino = next_ino w, fmtime = stamp w, fctime = stamp w\<rparr>"

definition set_data :: "'m world \<Rightarrow> string \<Rightarrow> regfile \<Rightarrow> regfile" where
  "set_data w d f = f\<lparr>fdata := d, fmtime := stamp w, fctime := stamp w\<rparr>"

definition put_root :: "path \<Rightarrow> node option \<Rightarrow> 'm world \<Rightarrow> 'm world" where
  "put_root p v w = w\<lparr>root := put p v (root w)\<rparr>"

text \<open>\<^verbatim>\<open>os.MkdirTemp\<close> makes up to ten thousand attempts at a name nobody has. It
  returns the name it used.\<close>

definition mkdir :: "path \<Rightarrow> ('m world, unit res) state" where
  "mkdir p = mutate (\<lambda>w. case resolve (root w) False p of
       Inl e \<Rightarrow> Inl (Sys e)
     | Inr q \<Rightarrow> (case lookup (root w) q of
           Some _ \<Rightarrow> Inl (Sys EEXIST)
         | None \<Rightarrow> Inr ((), (put_root q (Some (Dir (next_ino w) [])) w)\<lparr>next_ino := Suc (next_ino w)\<rparr>)))
     (\<lambda>_ w. w)"

fun mkdir_temp_from :: "nat \<Rightarrow> path \<Rightarrow> string \<Rightarrow> ('m world, string res) state" where
  "mkdir_temp_from n dir pre = do {
     w \<leftarrow> State_Monad.get;
     let name = pre @ digits (rnd w (tick w));
     r \<leftarrow> mkdir (join dir name);
     case r of
       Inr _ \<Rightarrow> State_Monad.return (Inr name)
     | Inl e \<Rightarrow>
         if is_exist e then
           (if n = 0 then State_Monad.return (Inl (Sys EEXIST)) else mkdir_temp_from (n - 1) dir pre)
         else if is_not_exist e then do {
           s \<leftarrow> stat dir;
           case s of
             Inl e' \<Rightarrow> State_Monad.return (Inl (if is_not_exist e' then e' else e))
           | Inr _ \<Rightarrow> State_Monad.return (Inl e) }
         else State_Monad.return (Inl e)
   }"

declare mkdir_temp_from.simps [simp del]

definition mkdir_temp :: "path \<Rightarrow> string \<Rightarrow> ('m world, string res) state" where
  "mkdir_temp dir pre =
     (if slash \<in> set pre then State_Monad.return (Inl (Msg ''pattern contains path separator''))
      else mkdir_temp_from 9999 dir pre)"

text \<open>\<^verbatim>\<open>os.OpenFile(O_CREATE|O_WRONLY|O_EXCL)\<close>, and a write at the end of the
  file so opened.\<close>

definition create_excl :: "path \<Rightarrow> ('m world, unit res) state" where
  "create_excl p = mutate (\<lambda>w. case resolve (root w) False p of
       Inl e \<Rightarrow> Inl (Sys e)
     | Inr q \<Rightarrow> (case lookup (root w) q of
           Some _ \<Rightarrow> Inl (Sys EEXIST)
         | None \<Rightarrow> Inr ((), (put_root q (Some (Reg (new_file w []))) w)\<lparr>next_ino := Suc (next_ino w)\<rparr>)))
     (\<lambda>_ w. w)"

definition append_to :: "path \<Rightarrow> string \<Rightarrow> 'm world \<Rightarrow> 'm world" where
  "append_to p d w = (case lookup (root w) p of
     Some (Reg f) \<Rightarrow> put_root p (Some (Reg (set_data w (fdata f @ d) f))) w
   | _ \<Rightarrow> w)"

definition write_out :: "path \<Rightarrow> string \<Rightarrow> ('m world, unit res) state" where
  "write_out p d = mutate (\<lambda>w. Inr ((), append_to p d w))
     (\<lambda>ft w. case fwrote ft of None \<Rightarrow> w | Some k \<Rightarrow> append_to p (take k d) w)"

text \<open>\<^verbatim>\<open>os.WriteFile\<close>: creates the file, or truncates the one a path leads to.\<close>

definition overwrite :: "path \<Rightarrow> string \<Rightarrow> 'm world \<Rightarrow> 'm world res" where
  "overwrite p d w = (case resolve (root w) True p of
     Inl e \<Rightarrow> Inl (Sys e)
   | Inr q \<Rightarrow> (case lookup (root w) q of
       None \<Rightarrow> Inr ((put_root q (Some (Reg (new_file w d))) w)\<lparr>next_ino := Suc (next_ino w)\<rparr>)
     | Some (Reg f) \<Rightarrow> Inr (put_root q (Some (Reg (set_data w d f))) w)
     | Some (Dir i es) \<Rightarrow> Inl (Sys EISDIR)
     | Some _ \<Rightarrow> Inl (Sys ENXIO)))"

definition write_file :: "path \<Rightarrow> string \<Rightarrow> ('m world, unit res) state" where
  "write_file p d = mutate
     (\<lambda>w. case overwrite p d w of Inl e \<Rightarrow> Inl e | Inr w' \<Rightarrow> Inr ((), w'))
     (\<lambda>ft w. case fwrote ft of
         None \<Rightarrow> w
       | Some k \<Rightarrow> (case overwrite p (take k d) w of Inl e \<Rightarrow> w | Inr w' \<Rightarrow> w'))"

text \<open>\<^verbatim>\<open>os.Rename\<close> refuses an existing directory at the new name before it calls the
  kernel; the kernel moves the entry in one step, or not at all.\<close>

definition rename :: "path \<Rightarrow> path \<Rightarrow> ('m world, unit res) state" where
  "rename old new = mutate (\<lambda>w. case node_at (root w) False old of
       Inl e \<Rightarrow> Inl (Sys e)
     | Inr n \<Rightarrow> (case (resolve (root w) False old, resolve (root w) False new) of
         (Inr qo, Inr qn) \<Rightarrow> (case lookup (root w) qn of
             Some (Dir i es) \<Rightarrow> Inl (Sys EEXIST)
           | Some m \<Rightarrow> if is_dir n then Inl (Sys ENOTDIR)
                       else Inr ((), put_root qn (Some n) (put_root qo None w))
           | None \<Rightarrow> Inr ((), put_root qn (Some n) (put_root qo None w)))
       | (Inl e, _) \<Rightarrow> Inl (Sys e)
       | (_, Inl e) \<Rightarrow> Inl (Sys e)))
     (\<lambda>_ w. w)"

text \<open>\<^verbatim>\<open>os.Remove\<close> of a file or an empty directory, and \<^verbatim>\<open>os.RemoveAll\<close>,
  which does not follow a link and takes a missing path for removed. A removal that fails may
  have emptied a directory in part.\<close>

definition remove :: "path \<Rightarrow> ('m world, unit res) state" where
  "remove p = mutate (\<lambda>w. case node_at (root w) False p of
       Inl e \<Rightarrow> Inl (Sys e)
     | Inr (Dir i (e # es)) \<Rightarrow> Inl (Sys ENOTEMPTY)
     | Inr _ \<Rightarrow> (case resolve (root w) False p of
           Inl e \<Rightarrow> Inl (Sys e)
         | Inr q \<Rightarrow> Inr ((), put_root q None w)))
     (\<lambda>_ w. w)"

primrec partly_removed :: "node \<Rightarrow> (path \<Rightarrow> bool) \<Rightarrow> node" where
  "partly_removed (Dir i es) = (\<lambda>keeps. Dir i
     (map (\<lambda>(c, f). (c, f (\<lambda>p. keeps (c # p))))
        (filter (\<lambda>(c, _). keeps [c]) (map (map_prod id partly_removed) es))))"
| "partly_removed (Reg f) = (\<lambda>_. Reg f)"
| "partly_removed (Link t) = (\<lambda>_. Link t)"
| "partly_removed Special = (\<lambda>_. Special)"

definition remove_all :: "path \<Rightarrow> ('m world, unit res) state" where
  "remove_all p = mutate (\<lambda>w. case resolve (root w) False p of
       Inl e \<Rightarrow> if e = ENOENT then Inr ((), w) else Inl (Sys e)
     | Inr q \<Rightarrow> Inr ((), put_root q None w))
     (\<lambda>ft w. case resolve (root w) False p of
       Inl e \<Rightarrow> w
     | Inr q \<Rightarrow> (case lookup (root w) q of
           None \<Rightarrow> w
         | Some n \<Rightarrow> put_root q (Some (partly_removed n (fsurvives ft))) w))"

subsection \<open>Rules for the calls\<close>

text \<open>The state after a tick, and the two ways a call can end. \<open>calm\<close>: no fault on the schedule
  and no cancellation.\<close>

definition tock :: "'m world \<Rightarrow> 'm world" where
  "tock w = w\<lparr>tick := Suc (tick w)\<rparr>"

definition calm :: "'m world \<Rightarrow> bool" where
  "calm w \<longleftrightarrow> faults w = (\<lambda>_. None) \<and> cancel w = None"

lemma tock_sel [simp]:
  "root (tock w) = root w" "locks (tock w) = locks w" "next_ino (tock w) = next_ino w"
  "fsdev (tock w) = fsdev w" "faults (tock w) = faults w" "clock (tock w) = clock w"
  "granularity (tock w) = granularity w" "rnd (tock w) = rnd w" "cancel (tock w) = cancel w"
  "memory (tock w) = memory w" "tick (tock w) = Suc (tick w)"
  by (simp_all add: tock_def)

lemma put_root_sel [simp]:
  "root (put_root p v w) = put p v (root w)" "locks (put_root p v w) = locks w"
  "next_ino (put_root p v w) = next_ino w" "faults (put_root p v w) = faults w"
  "cancel (put_root p v w) = cancel w" "memory (put_root p v w) = memory w"
  "tick (put_root p v w) = tick w" "fsdev (put_root p v w) = fsdev w"
  "clock (put_root p v w) = clock w" "granularity (put_root p v w) = granularity w"
  "rnd (put_root p v w) = rnd w"
  by (simp_all add: put_root_def)

lemma unlock_sel [simp]:
  "root (unlock i w) = root w" "locks (unlock i w) = locks w - {i}"
  "next_ino (unlock i w) = next_ino w" "faults (unlock i w) = faults w"
  "cancel (unlock i w) = cancel w" "memory (unlock i w) = memory w" "tick (unlock i w) = tick w"
  by (simp_all add: unlock_def)

lemma calm_simps [simp]:
  "calm w \<Longrightarrow> faults w t = None" "calm (tock w) = calm w" "calm (put_root p v w) = calm w"
  "calm (unlock i w) = calm w" "calm (w\<lparr>locks := l\<rparr>) = calm w" "calm (w\<lparr>next_ino := k\<rparr>) = calm w"
  "calm (w\<lparr>memory := m\<rparr>) = calm w" "calm w \<Longrightarrow> \<not> ctx_done w"
  by (auto simp: calm_def ctx_done_def)

lemma wp_enter [wp_rules]: "wp enter Q w = Q (faults w (tick w)) (tock w)"
  by (simp add: enter_def wp_rules tock_def)

lemma wp_query [wp_rules]:
  "wp (query q) Q w = (case faults w (tick w) of
     Some ft \<Rightarrow> Q (Inl (Sys (ferr ft))) (tock w) | None \<Rightarrow> Q (q (tock w)) (tock w))"
  by (simp add: query_def wp_rules split: option.split)

lemma wp_mutate [wp_rules]:
  "wp (mutate u partial) Q w = (case faults w (tick w) of
     Some ft \<Rightarrow> Q (Inl (Sys (ferr ft))) (partial ft (tock w))
   | None \<Rightarrow> (case u (tock w) of Inl e \<Rightarrow> Q (Inl e) (tock w) | Inr (x, w') \<Rightarrow> Q (Inr x) w'))"
  by (simp add: mutate_def wp_rules split: option.split sum.split)

lemma wp_ctx_err [wp_rules]:
  "wp ctx_err Q w = Q (if ctx_done (tock w) then Some Canceled else None) (tock w)"
  by (simp add: ctx_err_def wp_rules)

text \<open>The queries of the sources, with \<open>root\<close> the tree they look at.\<close>

lemma wp_stat: "wp (stat p) Q w = (case faults w (tick w) of
     Some ft \<Rightarrow> Q (Inl (Sys (ferr ft))) (tock w) | None \<Rightarrow> Q (stat_in (root w) p) (tock w))"
  and wp_lstat: "wp (lstat p) Q w = (case faults w (tick w) of
     Some ft \<Rightarrow> Q (Inl (Sys (ferr ft))) (tock w) | None \<Rightarrow> Q (lstat_in (root w) p) (tock w))"
  and wp_read_file: "wp (read_file p) R w = (case faults w (tick w) of
     Some ft \<Rightarrow> R (Inl (Sys (ferr ft))) (tock w) | None \<Rightarrow> R (read_in (root w) p) (tock w))"
  and wp_read_dir: "wp (read_dir p) S w = (case faults w (tick w) of
     Some ft \<Rightarrow> S (Inl (Sys (ferr ft))) (tock w) | None \<Rightarrow> S (readdir_in (root w) p) (tock w))"
  and wp_close: "wp close T w = (case faults w (tick w) of
     Some ft \<Rightarrow> T (Inl (Sys (ferr ft))) (tock w) | None \<Rightarrow> T (Inr ()) (tock w))"
  by (simp_all add: stat_def lstat_def read_file_def read_dir_def close_def wp_query split: option.split)

lemmas wp_queries = wp_stat wp_lstat wp_read_file wp_read_dir wp_close

text \<open>What every call keeps: the schedule, and whatever is not the tree, the locks, the inode
  counter or the memory. \<open>looks\<close>: what a call that only looks keeps besides.\<close>

definition same_env :: "'m world \<Rightarrow> 'm world \<Rightarrow> bool" where
  "same_env w w' \<longleftrightarrow> faults w' = faults w \<and> cancel w' = cancel w \<and> fsdev w' = fsdev w
     \<and> clock w' = clock w \<and> granularity w' = granularity w \<and> rnd w' = rnd w \<and> tick w \<le> tick w'"

definition looks :: "'m world \<Rightarrow> 'm world \<Rightarrow> bool" where
  "looks w w' \<longleftrightarrow> same_env w w' \<and> root w' = root w \<and> locks w' = locks w
     \<and> next_ino w' = next_ino w \<and> memory w' = memory w"

definition quiet :: "'m world \<Rightarrow> 'm world \<Rightarrow> bool" where
  "quiet w w' \<longleftrightarrow> same_env w w' \<and> locks w' = locks w \<and> memory w' = memory w"

lemma same_env_calm: "same_env w w' \<Longrightarrow> calm w' = calm w"
  by (simp add: same_env_def calm_def)

lemma looks_calm: "looks w w' \<Longrightarrow> calm w' = calm w"
  by (simp add: looks_def same_env_calm)

lemma quiet_calm: "quiet w w' \<Longrightarrow> calm w' = calm w"
  by (simp add: quiet_def same_env_calm)

lemma looks_quiet: "looks w w' \<Longrightarrow> quiet w w'"
  by (simp add: looks_def quiet_def)

interpretation env: preorder_steps same_env
  by unfold_locales (auto simp: same_env_def)

interpretation look: preorder_steps looks
  by unfold_locales (auto simp: looks_def intro: env.step_refl env.step_trans)

interpretation qt: preorder_steps quiet
  by unfold_locales (auto simp: quiet_def intro: env.step_refl env.step_trans)

lemma same_env_tock [simp]: "same_env w (tock w)"
  and looks_tock [simp]: "looks w (tock w)" and quiet_tock [simp]: "quiet w (tock w)"
  by (simp_all add: same_env_def looks_def quiet_def)

lemma same_env_put [simp]: "same_env w (put_root p v w') = same_env w w'"
  and quiet_put [simp]: "quiet w (put_root p v w') = quiet w w'"
  by (simp_all add: same_env_def quiet_def put_root_def)

lemma same_env_upd [simp]:
  "same_env w (w'\<lparr>locks := l\<rparr>) = same_env w w'" "same_env w (w'\<lparr>next_ino := k\<rparr>) = same_env w w'"
  "same_env w (w'\<lparr>memory := m\<rparr>) = same_env w w'" "same_env w (unlock i w') = same_env w w'"
  "quiet w (w'\<lparr>next_ino := k\<rparr>) = quiet w w'"
  by (simp_all add: same_env_def quiet_def unlock_def)

lemma along_query: "along looks (query q)"
  by (auto simp: along_iff_wp wp_query split: option.split)

lemma along_queries:
  "along looks (stat p)" "along looks (lstat p)" "along looks (read_file p)"
  "along looks (read_dir p)" "along looks close" "along looks (open_inode p)"
  "along looks (open_file p)" "along looks ctx_err"
  by (simp_all add: stat_def lstat_def read_file_def read_dir_def close_def open_inode_def
      open_file_def along_query) (simp add: along_iff_wp wp_ctx_err)

lemma along_looks_quiet: "along looks m \<Longrightarrow> along quiet m"
  by (auto simp: along_def intro: looks_quiet)

lemmas along_quiet_queries = along_queries [THEN along_looks_quiet]

lemma along_env_quiet: "along quiet m \<Longrightarrow> along same_env m"
  by (auto simp: along_def quiet_def)

lemma along_env_locks:
  "along same_env (flock i)" "along same_env (flock_nb i)" "along same_env (close_locked i)"
  by (auto simp: along_iff_wp flock_def flock_nb_def close_locked_def wp_mutate split: option.split)

lemma same_env_append: "same_env w w' \<Longrightarrow> same_env w (append_to p d w')"
  and quiet_append: "quiet w w' \<Longrightarrow> quiet w (append_to p d w')"
  by (auto simp: append_to_def split: option.split node.split)

lemma quiet_overwrite: "quiet w w' \<Longrightarrow> overwrite p d w' = Inr w'' \<Longrightarrow> quiet w w''"
  by (auto simp: overwrite_def split: sum.splits option.splits node.splits)

lemma along_quiet_changes:
  "along quiet (mkdir p)" "along quiet (create_excl p)" "along quiet (write_out p d)"
  "along quiet (write_file p d)" "along quiet (rename p q)" "along quiet (remove p)"
  "along quiet (remove_all p)"
  by (auto simp: along_iff_wp mkdir_def create_excl_def write_out_def write_file_def rename_def
      remove_def remove_all_def wp_mutate quiet_append
      intro: quiet_overwrite [OF quiet_tock] split: option.split sum.split node.split list.split)

lemma along_quiet_mkdir_temp_from: "along quiet (mkdir_temp_from n dir pre)"
  by (induction n; subst mkdir_temp_from.simps)
    (auto simp: Let_def intro!: qt.along_intros along_quiet_changes along_quiet_queries)

lemma along_quiet_mkdir_temp: "along quiet (mkdir_temp dir pre)"
  by (simp add: mkdir_temp_def along_quiet_mkdir_temp_from qt.along_return)

text \<open>A schedule is honest when its faults are failures of the machine: an error that says what
  is in the tree is never invented.\<close>

definition machine_errno :: "errno \<Rightarrow> bool" where
  "machine_errno n \<longleftrightarrow> n = EACCES \<or> n = EIO \<or> n = ENOSPC \<or> n = EINTR"

definition honest :: "'m world \<Rightarrow> bool" where
  "honest w \<longleftrightarrow> (\<forall>t ft. faults w t = Some ft \<longrightarrow> machine_errno (ferr ft))"

lemma calm_honest: "calm w \<Longrightarrow> honest w"
  by (simp add: calm_def honest_def)

lemma honestD: "honest w \<Longrightarrow> faults w t = Some ft \<Longrightarrow> machine_errno (ferr ft)"
  by (simp add: honest_def)

lemma machine_errno_simps [simp]:
  "\<not> machine_errno ENOENT" "\<not> machine_errno ENOTDIR" "\<not> machine_errno ELOOP"
  "\<not> machine_errno EEXIST" "\<not> machine_errno ENOTEMPTY" "\<not> machine_errno EWOULDBLOCK"
  by (simp_all add: machine_errno_def)

lemma machine_errno_not: "machine_errno n \<Longrightarrow> n \<noteq> ENOENT \<and> n \<noteq> ENOTDIR \<and> n \<noteq> ELOOP \<and> n \<noteq> EEXIST
    \<and> n \<noteq> ENOTEMPTY \<and> n \<noteq> EWOULDBLOCK"
  by auto

lemma same_env_honest: "same_env w w' \<Longrightarrow> honest w' = honest w"
  by (simp add: same_env_def honest_def)

text \<open>Without a fault, whatever the context does.\<close>

definition faultless :: "'m world \<Rightarrow> bool" where
  "faultless w \<longleftrightarrow> faults w = (\<lambda>_. None)"

lemma faultless_simps [simp]: "faultless w \<Longrightarrow> faults w t = None" "faultless (tock w) = faultless w"
  by (simp_all add: faultless_def)

lemma calm_faultless: "calm w \<Longrightarrow> faultless w" and calm_not_done: "calm w \<Longrightarrow> \<not> ctx_done w"
  by (simp_all add: calm_def faultless_def ctx_done_def)

lemma same_env_faultless: "same_env w w' \<Longrightarrow> faultless w' = faultless w"
  by (simp add: same_env_def faultless_def)

lemma ctx_done_mono: "same_env w w' \<Longrightarrow> ctx_done w \<Longrightarrow> ctx_done w'"
  by (auto simp: same_env_def ctx_done_def split: option.splits)

end
