(* ===== verification/Sha256.thy ===== *)
theory Sha256
  imports Prelude "HOL-Library.Word"
begin

unbundle bit_operations_syntax

section \<open>SHA-256\<close>

text \<open>
  The digest of \<^verbatim>\<open>crypto/sha256\<close>, which the store records for each file and compares
  later, in the hexadecimal form of \<^verbatim>\<open>encoding/hex\<close>. Written out on 32-bit words, so
  that the content check of the store runs on concrete files; no property rests on more than the
  digest being a function of the content and having sixty-four digits.
\<close>

type_synonym u32 = "32 word"

definition rotr :: "nat \<Rightarrow> u32 \<Rightarrow> u32" where
  "rotr n x = drop_bit n x OR push_bit (32 - n) x"

text \<open>The constants are the first 32 bits of the fractional parts of the cube roots (square roots
  for the initial state) of the first primes, so they are computed here rather than listed:
  \<open>root_from k b 0 n\<close> is the integer \<open>k\<close>-th root of \<open>n\<close>, found bit by bit from the top.\<close>

fun root_from :: "nat \<Rightarrow> nat \<Rightarrow> int \<Rightarrow> int \<Rightarrow> int" where
  "root_from k 0 acc n = acc"
| "root_from k (Suc b) acc n = root_from k b (if (acc + 2 ^ b) ^ k \<le> n then acc + 2 ^ b else acc) n"

definition primes :: "int list" where
  "primes = [
     2, 3, 5, 7, 11, 13, 17, 19, 23, 29, 31, 37, 41, 43, 47, 53,
     59, 61, 67, 71, 73, 79, 83, 89, 97, 101, 103, 107, 109, 113, 127, 131,
     137, 139, 149, 151, 157, 163, 167, 173, 179, 181, 191, 193, 197, 199, 211, 223,
     227, 229, 233, 239, 241, 251, 257, 263, 269, 271, 277, 281, 283, 293, 307, 311]"

definition root_bits :: "nat \<Rightarrow> int \<Rightarrow> u32" where
  "root_bits k p = word_of_int (root_from k 40 0 (p * 2 ^ (32 * k)))"

definition sha_k :: "u32 list" where
  "sha_k = map (root_bits 3) (take 64 primes)"

definition sha_init :: "u32 list" where
  "sha_init = map (root_bits 2) (take 8 primes)"

text \<open>Padding: a one bit, zeros, and the length in bits as eight bytes, so that the whole is a
  multiple of 64 bytes.\<close>

definition be_bytes :: "nat \<Rightarrow> u32 list" where
  "be_bytes n = (let l = word_of_nat n :: 64 word
     in map (\<lambda>i. ucast (drop_bit i l AND 255)) [56, 48, 40, 32, 24, 16, 8, 0])"

definition sha_pad :: "string \<Rightarrow> u32 list" where
  "sha_pad s = map of_char s @ [128] @ replicate ((119 - length s mod 64) mod 64) 0
     @ be_bytes (8 * length s)"

fun be_words :: "u32 list \<Rightarrow> u32 list" where
  "be_words (a # b # c # d # bs) = (push_bit 24 a + push_bit 16 b + push_bit 8 c + d) # be_words bs"
| "be_words _ = []"

text \<open>The message schedule, kept in reverse: the last sixteen words come first.\<close>

definition sched_step :: "u32 list \<Rightarrow> u32 list" where
  "sched_step ws =
     (let x = ws ! 14; y = ws ! 1;
          s0 = (rotr 7 x XOR rotr 18 x) XOR drop_bit 3 x;
          s1 = (rotr 17 y XOR rotr 19 y) XOR drop_bit 10 y
      in (ws ! 15 + s0 + ws ! 6 + s1) # ws)"

fun sched_extend :: "nat \<Rightarrow> u32 list \<Rightarrow> u32 list" where
  "sched_extend 0 ws = ws"
| "sched_extend (Suc n) ws = sched_extend n (sched_step ws)"

definition schedule :: "u32 list \<Rightarrow> u32 list" where
  "schedule block = rev (sched_extend 48 (rev block))"

type_synonym sha_state = "u32 \<times> u32 \<times> u32 \<times> u32 \<times> u32 \<times> u32 \<times> u32 \<times> u32"

fun sha_round :: "u32 \<times> u32 \<Rightarrow> sha_state \<Rightarrow> sha_state" where
  "sha_round (k, w) (a, b, c, d, e, f, g, h) =
     (let s1 = (rotr 6 e XOR rotr 11 e) XOR rotr 25 e;
          ch = (e AND f) XOR (NOT e AND g);
          t1 = h + s1 + ch + k + w;
          s0 = (rotr 2 a XOR rotr 13 a) XOR rotr 22 a;
          maj = ((a AND b) XOR (a AND c)) XOR (b AND c);
          t2 = s0 + maj
      in (t1 + t2, a, b, c, d + t1, e, f, g))"

fun sha_tuple :: "u32 list \<Rightarrow> sha_state" where
  "sha_tuple [a, b, c, d, e, f, g, h] = (a, b, c, d, e, f, g, h)"
| "sha_tuple _ = (0, 0, 0, 0, 0, 0, 0, 0)"

fun sha_list :: "sha_state \<Rightarrow> u32 list" where
  "sha_list (a, b, c, d, e, f, g, h) = [a, b, c, d, e, f, g, h]"

definition sha_block :: "u32 list \<Rightarrow> u32 list \<Rightarrow> u32 list" where
  "sha_block hs block =
     map2 (+) hs (sha_list (fold sha_round (zip sha_k (schedule block)) (sha_tuple hs)))"

fun sha_blocks :: "nat \<Rightarrow> u32 list \<Rightarrow> u32 list \<Rightarrow> u32 list" where
  "sha_blocks 0 hs ws = hs"
| "sha_blocks (Suc n) hs ws = sha_blocks n (sha_block hs (take 16 ws)) (drop 16 ws)"

definition hex_digit :: "nat \<Rightarrow> char" where
  "hex_digit n = (if n < 10 then char_of (48 + n) else char_of (87 + n))"

definition hex32 :: "u32 \<Rightarrow> string" where
  "hex32 w = map (\<lambda>i. hex_digit (unat (drop_bit i w AND 15))) [28, 24, 20, 16, 12, 8, 4, 0]"

definition sha256 :: "string \<Rightarrow> string" where
  "sha256 s = (let ws = be_words (sha_pad s) in concat (map hex32 (sha_blocks (length ws div 16) sha_init ws)))"

lemma length_sha_list [simp]: "length (sha_list t) = 8"
  by (cases t rule: sha_list.cases) simp

lemma length_sha_block [simp]: "length (sha_block hs b) = min (length hs) 8"
  by (simp add: sha_block_def del: sha_list.simps)

lemma length_sha_blocks: "length hs = 8 \<Longrightarrow> length (sha_blocks n hs ws) = 8"
  by (induction n arbitrary: hs ws) auto

lemma length_hex: "length (concat (map hex32 ws)) = 8 * length ws"
  by (induction ws) (auto simp: hex32_def)

text \<open>The digest has sixty-four digits.\<close>

lemma length_sha256: "length (sha256 s) = 64"
  by (simp add: sha256_def Let_def length_hex length_sha_blocks sha_init_def primes_def)

end
