(* ===== verification/Content.thy ===== *)
theory Content
  imports Syscalls Sha256
begin

section \<open>The content check (cache/content.go, cache/key_linux.go, cache/key_other.go)\<close>

text \<open>
  What a sentinel records of each file (\<open>File\<close>), the digest of a stream (\<open>sum_of\<close>), and the
  memory of digests (\<open>sums\<close>) with its four operations: \<open>digest\<close> answers from the memory or
  reads the file, \<open>remember\<close> records what an extraction computed, \<open>forget\<close> drops what lies
  under a directory, \<open>mismatch\<close> compares a directory with its record. The memory is the
  \<open>memory\<close> field of the world; it is \<open>None\<close> for the zero \<^verbatim>\<open>Store\<close>, whose
  \<^verbatim>\<open>sums\<close> pointer is nil. The mutex is not modelled: each critical section is one
  step here.
\<close>

record file_rec =
  fr_name :: string
  fr_digest :: string
  fr_size :: int

definition digest_prefix :: string where
  "digest_prefix = ''sha256:''"

definition sum_of :: "string \<Rightarrow> string" where
  "sum_of d = digest_prefix @ sha256 d"

text \<open>\<^verbatim>\<open>sumKey\<close> identifies a version of a file on disk.\<close>

record sum_key =
  kdev :: nat
  kino :: nat
  ksize :: int
  kmtime :: int
  kctime :: int

record sum_entry =
  ekey :: sum_key
  edigest :: string
  eat :: int
  ewritten :: bool

record sums =
  sentries :: "path \<Rightarrow> sum_entry option"
  sracy :: int
  shashed :: nat

type_synonym sworld = "sums option world"

text \<open>Two seconds, in nanoseconds.\<close>

definition racy_window :: int where
  "racy_window = 2 * 1000000000"

definition new_sums :: sums where
  "new_sums = \<lparr>sentries = (\<lambda>_. None), sracy = racy_window, shashed = 0\<rparr>"

definition trusted :: "int \<Rightarrow> sum_entry \<Rightarrow> sum_key \<Rightarrow> bool" where
  "trusted racy e k \<longleftrightarrow> ekey e = k \<and> (ewritten e \<or> kctime k < eat e - racy)"

definition file_size :: "regfile \<Rightarrow> int" where
  "file_size f = int (length (fdata f))"

text \<open>\<^verbatim>\<open>keyOf\<close>: on Linux every file has a key. The sources ask for the key of a
  regular file only.\<close>

definition key_of_file :: "regfile \<Rightarrow> sum_key" where
  "key_of_file f = \<lparr>kdev = fdev f, kino = fino f, ksize = file_size f, kmtime = fmtime f, kctime = fctime f\<rparr>"

fun key_of :: "node \<Rightarrow> sum_key option" where
  "key_of (Reg f) = Some (key_of_file f)"
| "key_of _ = None"

text \<open>Elsewhere a key is of another shape, the zero time alone, and \<^verbatim>\<open>keyOf\<close> says that it is
  none. The shared code would only compare it and read its \<^verbatim>\<open>ctime\<close>, so it is embedded in the
  shape above. The zero \<^verbatim>\<open>time.Time\<close> is the first of January of the year 1.\<close>

record sum_key_other =
  ko_ctime :: int

definition zero_time :: int where
  "zero_time = - 62135596800 * 1000000000"

definition key_of_other :: "node \<Rightarrow> sum_key_other \<times> bool" where
  "key_of_other info = (\<lparr>ko_ctime = zero_time\<rparr>, False)"

definition keyed_other :: "node \<Rightarrow> sum_key option" where
  "keyed_other info = (case key_of_other info of (k, keyed) \<Rightarrow>
     if keyed then Some \<lparr>kdev = 0, kino = 0, ksize = 0, kmtime = 0, kctime = ko_ctime k\<rparr> else None)"

subsection \<open>Changing the memory\<close>

definition modify_sums :: "(sums \<Rightarrow> sums) \<Rightarrow> (sworld, unit) state" where
  "modify_sums g = do {
     w \<leftarrow> State_Monad.get;
     State_Monad.set (w\<lparr>memory := map_option g (memory w)\<rparr>)
   }"

definition store_entry :: "path \<Rightarrow> sum_entry \<Rightarrow> sums \<Rightarrow> sums" where
  "store_entry p e c = c\<lparr>sentries := (sentries c)(p \<mapsto> e)\<rparr>"

text \<open>\<^verbatim>\<open>ctxReader.Read\<close>: a read that fails once the context is done.\<close>

definition ctx_read :: "(sworld, 'a res) state \<Rightarrow> (sworld, 'a res) state" where
  "ctx_read r = do {
     c \<leftarrow> ctx_err;
     case c of
       Some e \<Rightarrow> State_Monad.return (Inl e)
     | None \<Rightarrow> r }"

text \<open>\<^verbatim>\<open>sumOf(ctxReader{...})\<close> on an open file: \<^verbatim>\<open>io.Copy\<close> reads it in pieces
  as large as its buffer, the context being asked before each, until the read that meets the end of the
  file. What cannot be read, a directory say, fails the first read. Any read may fail.\<close>

definition copy_buffer :: nat where
  "copy_buffer = 32 * 1024"

function pieces :: "string \<Rightarrow> string list" where
  "pieces t = (if t = [] then [] else take copy_buffer t # pieces (drop copy_buffer t))"
  by auto
termination by (relation "measure length") (auto simp: copy_buffer_def)

declare pieces.simps [simp del]

fun hash_pieces :: "string \<Rightarrow> string list \<Rightarrow> (sworld, string res) state" where
  "hash_pieces acc [] = ctx_read (do {
     r \<leftarrow> query (\<lambda>_. Inr ());
     State_Monad.return (case r of Inl e \<Rightarrow> Inl e | Inr _ \<Rightarrow> Inr (sum_of acc)) })"
| "hash_pieces acc (b # bs) = ctx_read (do {
     r \<leftarrow> query (\<lambda>_. Inr ());
     case r of
       Inl e \<Rightarrow> State_Monad.return (Inl e)
     | Inr _ \<Rightarrow> hash_pieces (acc @ b) bs })"

definition sum_file :: "path \<Rightarrow> (sworld, string res) state" where
  "sum_file p = do {
     w \<leftarrow> State_Monad.get;
     (case read_in (root w) p of
        Inl e \<Rightarrow> ctx_read (query (\<lambda>_. Inl e))
      | Inr t \<Rightarrow> hash_pieces [] (pieces t))
   }"

lemma concat_pieces: "concat (pieces t) = t"
  by (induction t rule: pieces.induct) (subst pieces.simps, simp)

text \<open>\<^verbatim>\<open>digest\<close>: from the memory when the entry is trusted for the key the caller's
  \<^verbatim>\<open>Stat\<close> saw; else the file is read, and the entry stored is stamped with the time
  read before the file was opened.\<close>

definition remembered_by :: "(node \<Rightarrow> sum_key option) \<Rightarrow> sums \<Rightarrow> path \<Rightarrow> node \<Rightarrow> string option" where
  "remembered_by kf c p info = (case (kf info, sentries c p) of
     (Some k, Some e) \<Rightarrow> if trusted (sracy c) e k then Some (edigest e) else None
   | _ \<Rightarrow> None)"

definition digest_by :: "(node \<Rightarrow> sum_key option) \<Rightarrow> path \<Rightarrow> node \<Rightarrow> (sworld, string res) state" where
  "digest_by kf p info = do {
     w \<leftarrow> State_Monad.get;
     case (case memory w of None \<Rightarrow> None | Some c \<Rightarrow> remembered_by kf c p info) of
       Some d \<Rightarrow> State_Monad.return (Inr d)
     | None \<Rightarrow> do {
         let at = now w;
         f \<leftarrow> open_file p;
         case f of
           Inl e \<Rightarrow> State_Monad.return (Inl e)
         | Inr _ \<Rightarrow> do {
             s \<leftarrow> sum_file p;
             _ \<leftarrow> close;
             case s of
               Inl e \<Rightarrow> State_Monad.return (Inl e)
             | Inr d \<Rightarrow> do {
                 modify_sums (\<lambda>c. c\<lparr>shashed := Suc (shashed c)\<rparr>);
                 (case kf info of
                    Some k \<Rightarrow> modify_sums (store_entry p
                      \<lparr>ekey = k, edigest = d, eat = at, ewritten = False\<rparr>)
                  | None \<Rightarrow> State_Monad.return ());
                 State_Monad.return (Inr d) } } }
   }"

text \<open>\<^verbatim>\<open>remember\<close>: one entry per file just moved under the directory; a file it cannot
  stat is left out. Nothing happens without a memory, not even the \<^verbatim>\<open>Stat\<close>.\<close>

fun remember_files_by :: "(node \<Rightarrow> sum_key option) \<Rightarrow> path \<Rightarrow> file_rec list \<Rightarrow> (sworld, unit) state" where
  "remember_files_by kf dir [] = State_Monad.return ()"
| "remember_files_by kf dir (f # fs) = do {
     i \<leftarrow> stat (join dir (fr_name f));
     (case i of
        Inl e \<Rightarrow> State_Monad.return ()
      | Inr n \<Rightarrow> (case kf n of
            Some k \<Rightarrow> modify_sums (store_entry (join dir (fr_name f))
              \<lparr>ekey = k, edigest = fr_digest f, eat = 0, ewritten = True\<rparr>)
          | None \<Rightarrow> State_Monad.return ()));
     remember_files_by kf dir fs
   }"

definition remember_by :: "(node \<Rightarrow> sum_key option) \<Rightarrow> path \<Rightarrow> file_rec list \<Rightarrow> (sworld, unit) state" where
  "remember_by kf dir content = do {
     w \<leftarrow> State_Monad.get;
     if memory w = None then State_Monad.return () else remember_files_by kf dir content
   }"

text \<open>\<^verbatim>\<open>forget\<close> compares with the directory and a separator, so a sibling whose name
  starts the same is left alone: on components, the paths strictly below.\<close>

definition forget_under :: "path \<Rightarrow> sums \<Rightarrow> sums" where
  "forget_under dir c = c\<lparr>sentries := (\<lambda>p. if strict_prefix dir p then None else sentries c p)\<rparr>"

definition forget :: "path \<Rightarrow> (sworld, unit) state" where
  "forget dir = modify_sums (forget_under dir)"

subsection \<open>Comparing a directory with its record\<close>

text \<open>Why a file does not match: the reasons the log line gives.\<close>

datatype reason =
    BadName | StatFailed err | NotRegular | SizeDiffers int int | ReadFailed err | DigestDiffers string string

definition storable_name :: "string \<Rightarrow> bool" where
  "storable_name n \<longleftrightarrow> \<not> (n = [] \<or> n = ''.'' \<or> n = ''..'' \<or> slash \<in> set n)"

text \<open>The first loop: every file by name and size, before any is read.\<close>

fun check_sizes :: "path \<Rightarrow> file_rec list \<Rightarrow> (sworld, (string \<times> reason) + node list) state" where
  "check_sizes dir [] = State_Monad.return (Inr [])"
| "check_sizes dir (f # fs) =
     (if \<not> storable_name (fr_name f) then State_Monad.return (Inl (fr_name f, BadName))
      else do {
        i \<leftarrow> stat (join dir (fr_name f));
        case i of
          Inl e \<Rightarrow> State_Monad.return (Inl (fr_name f, StatFailed e))
        | Inr (Reg g) \<Rightarrow>
            if file_size g \<noteq> fr_size f
            then State_Monad.return (Inl (fr_name f, SizeDiffers (file_size g) (fr_size f)))
            else do {
              r \<leftarrow> check_sizes dir fs;
              State_Monad.return (case r of Inl why \<Rightarrow> Inl why | Inr infos \<Rightarrow> Inr (Reg g # infos)) }
        | Inr _ \<Rightarrow> State_Monad.return (Inl (fr_name f, NotRegular)) })"

text \<open>The second loop: every file by digest.\<close>

fun check_digests_by :: "(node \<Rightarrow> sum_key option) \<Rightarrow> path \<Rightarrow> (file_rec \<times> node) list \<Rightarrow> (sworld, (string \<times> reason) option) state" where
  "check_digests_by kf dir [] = State_Monad.return None"
| "check_digests_by kf dir ((f, info) # fs) = do {
     d \<leftarrow> digest_by kf (join dir (fr_name f)) info;
     case d of
       Inl e \<Rightarrow> State_Monad.return (Some (fr_name f, ReadFailed e))
     | Inr x \<Rightarrow> if x \<noteq> fr_digest f
                then State_Monad.return (Some (fr_name f, DigestDiffers x (fr_digest f)))
                else check_digests_by kf dir fs
   }"

definition mismatch_by :: "(node \<Rightarrow> sum_key option) \<Rightarrow> path \<Rightarrow> file_rec list \<Rightarrow> (sworld, (string \<times> reason) option) state" where
  "mismatch_by kf dir content = do {
     r \<leftarrow> check_sizes dir content;
     case r of
       Inl why \<Rightarrow> State_Monad.return (Some why)
     | Inr infos \<Rightarrow> check_digests_by kf dir (zip content infos)
   }"

subsection \<open>The Linux build\<close>

abbreviation "remembered \<equiv> remembered_by key_of"
abbreviation "digest \<equiv> digest_by key_of"
abbreviation "remember_files \<equiv> remember_files_by key_of"
abbreviation "remember \<equiv> remember_by key_of"
abbreviation "check_digests \<equiv> check_digests_by key_of"
abbreviation "mismatch \<equiv> mismatch_by key_of"

lemma storable_iff_plain: "storable_name n = plain n"
  by (simp add: storable_name_def plain_def)

end
