(* ===== verification/Sentinel.thy ===== *)
theory Sentinel
  imports Json Content
begin

section \<open>The sentinel file (cache/store.go)\<close>

text \<open>
  What the store writes last in a resource's directory: the \<^verbatim>\<open>Record\<close> and the list
  of files, through \<^verbatim>\<open>json.Marshal\<close> and \<^verbatim>\<open>json.Unmarshal\<close>. The
  round trip \<open>unmarshal_marshal\<close> says what a later pass reads back.
\<close>

record cache_record =
  rec_digest :: string
  rec_owner :: string
  rec_source :: string
  rec_layers :: "string list"
  rec_content :: "file_rec list"

text \<open>\<open>sn_files\<close> is \<open>None\<close> for Go's nil slice, which \<^verbatim>\<open>json\<close> tells from
  an empty one.\<close>

record sentinel =
  sn_record :: cache_record
  sn_files :: "string list option"

definition sentinel_name :: string where
  "sentinel_name = ''.image-cache-agent.json''"

definition zero_record :: cache_record where
  "zero_record = \<lparr>rec_digest = [], rec_owner = [], rec_source = [], rec_layers = [], rec_content = []\<rparr>"

definition zero_sentinel :: sentinel where
  "zero_sentinel = \<lparr>sn_record = zero_record, sn_files = None\<rparr>"

definition zero_file :: file_rec where
  "zero_file = \<lparr>fr_name = [], fr_digest = [], fr_size = 0\<rparr>"

lemma plain_sentinel_name [simp]: "plain sentinel_name"
  by (simp add: plain_def sentinel_name_def)

subsection \<open>Marshal\<close>

text \<open>Fields in declaration order, the embedded record's first; \<^verbatim>\<open>omitempty\<close> leaves
  an empty field out.\<close>

definition file_json :: "file_rec \<Rightarrow> json" where
  "file_json f = JObj [(''name'', JStr (fr_name f)), (''digest'', JStr (fr_digest f)),
     (''size'', JNum (int_lit (fr_size f)))]"

definition record_members :: "cache_record \<Rightarrow> (string \<times> json) list" where
  "record_members r =
     [(''digest'', JStr (rec_digest r))]
     @ (if rec_owner r = [] then [] else [(''owner'', JStr (rec_owner r))])
     @ (if rec_source r = [] then [] else [(''source'', JStr (rec_source r))])
     @ (if rec_layers r = [] then [] else [(''layers'', JArr (map JStr (rec_layers r)))])
     @ (if rec_content r = [] then [] else [(''content'', JArr (map file_json (rec_content r)))])"

definition sentinel_json :: "sentinel \<Rightarrow> json" where
  "sentinel_json s = JObj (record_members (sn_record s)
     @ [(''files'', case sn_files s of None \<Rightarrow> JNull | Some fs \<Rightarrow> JArr (map JStr fs))])"

definition marshal :: "sentinel \<Rightarrow> string" where
  "marshal s = print (sentinel_json s)"

subsection \<open>Unmarshal\<close>

text \<open>A key names a field when the two are equal up to case; folding case also takes the long s
  for s and the Kelvin sign for k.\<close>

fun fold_key :: "string \<Rightarrow> string" where
  "fold_key [] = []"
| "fold_key (c # s) =
     (if 65 \<le> byte c \<and> byte c \<le> 90 then char_of (byte c + 32) # fold_key s
      else (case s of
          d # t \<Rightarrow>
            if c = CHR 0xC5 \<and> d = CHR 0xBF then CHR ''s'' # fold_key t
            else (case t of
                e # u \<Rightarrow> if c = CHR 0xE2 \<and> d = CHR 0x84 \<and> e = CHR 0xAA then CHR ''k'' # fold_key u
                          else c # fold_key s
              | [] \<Rightarrow> c # fold_key s)
        | [] \<Rightarrow> [c]))"

text \<open>A null leaves a field as it is; a value of another type fails the whole call.\<close>

definition set_string :: "string \<Rightarrow> json \<Rightarrow> string option" where
  "set_string old v = (case v of JNull \<Rightarrow> Some old | JStr s \<Rightarrow> Some s | _ \<Rightarrow> None)"

fun collect :: "('a \<Rightarrow> 'b option) \<Rightarrow> 'a list \<Rightarrow> 'b list option" where
  "collect g [] = Some []"
| "collect g (x # xs) = (case g x of None \<Rightarrow> None | Some y \<Rightarrow> map_option ((#) y) (collect g xs))"

definition set_list :: "(json \<Rightarrow> 'a option) \<Rightarrow> json \<Rightarrow> 'a list option option" where
  "set_list g v = (case v of
     JNull \<Rightarrow> Some None
   | JArr xs \<Rightarrow> map_option Some (collect g xs)
   | _ \<Rightarrow> None)"

fun fold_members :: "(string \<Rightarrow> json \<Rightarrow> 'a \<Rightarrow> 'a option) \<Rightarrow> (string \<times> json) list \<Rightarrow> 'a \<Rightarrow> 'a option" where
  "fold_members f [] a = Some a"
| "fold_members f ((k, v) # ms) a = (case f (fold_key k) v a of None \<Rightarrow> None | Some b \<Rightarrow> fold_members f ms b)"

definition file_field :: "string \<Rightarrow> json \<Rightarrow> file_rec \<Rightarrow> file_rec option" where
  "file_field k v f =
     (if k = ''name'' then map_option (\<lambda>s. f\<lparr>fr_name := s\<rparr>) (set_string (fr_name f) v)
      else if k = ''digest'' then map_option (\<lambda>s. f\<lparr>fr_digest := s\<rparr>) (set_string (fr_digest f) v)
      else if k = ''size'' then
        (case v of JNull \<Rightarrow> Some f
         | JNum n \<Rightarrow> map_option (\<lambda>i. f\<lparr>fr_size := i\<rparr>) (int64_of_lit n)
         | _ \<Rightarrow> None)
      else Some f)"

definition json_file :: "json \<Rightarrow> file_rec option" where
  "json_file v = (case v of
     JNull \<Rightarrow> Some zero_file
   | JObj ms \<Rightarrow> fold_members file_field ms zero_file
   | _ \<Rightarrow> None)"

definition list_of :: "'a list option \<Rightarrow> 'a list" where
  "list_of x = (case x of None \<Rightarrow> [] | Some xs \<Rightarrow> xs)"

definition sentinel_field :: "string \<Rightarrow> json \<Rightarrow> sentinel \<Rightarrow> sentinel option" where
  "sentinel_field k v s =
     (let r = sn_record s; with_rec = (\<lambda>r'. s\<lparr>sn_record := r'\<rparr>) in
      if k = ''digest'' then map_option (\<lambda>x. with_rec (r\<lparr>rec_digest := x\<rparr>)) (set_string (rec_digest r) v)
      else if k = ''owner'' then map_option (\<lambda>x. with_rec (r\<lparr>rec_owner := x\<rparr>)) (set_string (rec_owner r) v)
      else if k = ''source'' then map_option (\<lambda>x. with_rec (r\<lparr>rec_source := x\<rparr>)) (set_string (rec_source r) v)
      else if k = ''layers'' then map_option (\<lambda>x. with_rec (r\<lparr>rec_layers := list_of x\<rparr>)) (set_list (set_string []) v)
      else if k = ''content'' then map_option (\<lambda>x. with_rec (r\<lparr>rec_content := list_of x\<rparr>)) (set_list json_file v)
      else if k = ''files'' then map_option (\<lambda>x. s\<lparr>sn_files := x\<rparr>) (set_list (set_string []) v)
      else Some s)"

definition unmarshal :: "string \<Rightarrow> sentinel option" where
  "unmarshal d = (case parse_json d of
     Some JNull \<Rightarrow> Some zero_sentinel
   | Some (JObj ms) \<Rightarrow> fold_members sentinel_field ms zero_sentinel
   | _ \<Rightarrow> None)"

subsection \<open>The round trip\<close>

definition sanitize_file :: "file_rec \<Rightarrow> file_rec" where
  "sanitize_file f = f\<lparr>fr_name := sanitize (fr_name f), fr_digest := sanitize (fr_digest f)\<rparr>"

definition sanitize_sentinel :: "sentinel \<Rightarrow> sentinel" where
  "sanitize_sentinel s = \<lparr>sn_record =
      (let r = sn_record s in
       \<lparr>rec_digest = sanitize (rec_digest r), rec_owner = sanitize (rec_owner r),
        rec_source = sanitize (rec_source r), rec_layers = map sanitize (rec_layers r),
        rec_content = map sanitize_file (rec_content r)\<rparr>),
      sn_files = map_option (map sanitize) (sn_files s)\<rparr>"

definition int64 :: "int \<Rightarrow> bool" where
  "int64 i \<longleftrightarrow> - (2 ^ 63) \<le> i \<and> i < 2 ^ 63"

definition sizes_ok :: "sentinel \<Rightarrow> bool" where
  "sizes_ok s = list_all (\<lambda>f. int64 (fr_size f)) (rec_content (sn_record s))"

lemma int_nums_sentinel: "int_nums (sentinel_json s)"
  by (auto simp: sentinel_json_def record_members_def file_json_def list_all_iff split: option.split)

lemma sanitize_ascii_keys [simp]:
  "sanitize ''digest'' = ''digest''" "sanitize ''owner'' = ''owner''" "sanitize ''source'' = ''source''"
  "sanitize ''layers'' = ''layers''" "sanitize ''content'' = ''content''" "sanitize ''files'' = ''files''"
  "sanitize ''name'' = ''name''" "sanitize ''size'' = ''size''"
  by code_simp+

lemma fold_ascii_keys [simp]:
  "fold_key ''digest'' = ''digest''" "fold_key ''owner'' = ''owner''" "fold_key ''source'' = ''source''"
  "fold_key ''layers'' = ''layers''" "fold_key ''content'' = ''content''" "fold_key ''files'' = ''files''"
  "fold_key ''name'' = ''name''" "fold_key ''size'' = ''size''"
  by code_simp+

declare fold_key.simps [simp del]

lemma int64_lit: "int64 i \<Longrightarrow> int64_of_lit (int_lit i) = Some i"
  using int64_of_int_lit [of i] by (simp add: int64_def)

lemma collect_map: "\<forall>x\<in>set xs. g (h x) = Some (k x) \<Longrightarrow> collect g (map h xs) = Some (map k xs)"
  by (induction xs) auto

lemma fold_members_append:
  "fold_members f (xs @ ys) a = (case fold_members f xs a of None \<Rightarrow> None | Some b \<Rightarrow> fold_members f ys b)"
  by (induction f xs a rule: fold_members.induct) (auto split: option.splits)

lemma json_file_back:
  "int64 (fr_size f) \<Longrightarrow> json_file (sanitize_json (file_json f)) = Some (sanitize_file f)"
  by (simp add: json_file_def file_json_def file_field_def set_string_def int64_lit
      sanitize_file_def zero_file_def)

lemma collect_strings: "collect (set_string []) (map (sanitize_json \<circ> JStr) xs) = Some (map sanitize xs)"
  by (rule collect_map) (simp add: set_string_def)

lemma collect_files:
  "list_all (\<lambda>f. int64 (fr_size f)) fs \<Longrightarrow>
   collect json_file (map (sanitize_json \<circ> file_json) fs) = Some (map sanitize_file fs)"
  by (rule collect_map) (auto simp: json_file_back list_all_iff)

lemma unmarshal_marshal: "sizes_ok s \<Longrightarrow> unmarshal (marshal s) = Some (sanitize_sentinel s)"
proof -
  assume ok: "sizes_ok s"
  have p: "parse_json (marshal s) = Some (sanitize_json (sentinel_json s))"
    unfolding marshal_def by (rule parse_print [OF int_nums_sentinel])
  show ?thesis
    using ok by (simp add: unmarshal_def p, simp add: sentinel_json_def record_members_def sizes_ok_def
        sentinel_field_def set_string_def fold_members_append zero_sentinel_def zero_record_def
        sanitize_sentinel_def list_of_def collect_strings collect_files Let_def set_list_def split: option.split)
qed
end
