(* ===== verification/Store.thy ===== *)
theory Store
  imports Sentinel
begin

section \<open>The store (cache/store.go)\<close>

text \<open>
  Every function of \<^verbatim>\<open>cache/store.go\<close>, in the order of the source but for the
  callees a definition needs first. A resource directory is \<open>store_dir cp name\<close>; an extraction
  writes a temporary directory next to it, locked, and publishes it with a removal and a rename.
  An archive is what \<^verbatim>\<open>archive/tar\<close> makes of the stream: the entries in order, each
  with the pieces its content is read in and the error that ends it (\<open>Eof\<close> when it is whole),
  and the error that ends the archive (\<open>Eof\<close> at its regular end).
\<close>

datatype cache_state = Absent | Incomplete | Complete

definition default_path :: string where
  "default_path = ''/var/lib/image-cache''"

definition lost_found :: string where
  "lost_found = ''lost+found''"

definition owner_agent :: string where
  "owner_agent = ''image-cache-agent''"

text \<open>The fields of \<^verbatim>\<open>Store\<close>: the memory of digests is in the world; the hook that runs between
  the creation of a temporary directory and its lock, where the tests put a garbage collection, is here.\<close>

record store =
  before_lock :: "(path \<Rightarrow> sworld \<Rightarrow> sworld) option"

definition no_hook :: store where
  "no_hook = \<lparr>before_lock = None\<rparr>"

text \<open>\<^verbatim>\<open>NewStore\<close>: with a memory of its own, empty. The zero \<^verbatim>\<open>Store\<close> has none.\<close>

definition new_store :: "(sworld, store) state" where
  "new_store = do {
     w \<leftarrow> State_Monad.get;
     State_Monad.set (w\<lparr>memory := Some new_sums\<rparr>);
     State_Monad.return no_hook }"

definition store_dir :: "path \<Rightarrow> string \<Rightarrow> path" where
  "store_dir cp name = join cp name"

subsection \<open>State, ReadRecord, Adopt\<close>

definition no_directory :: "err \<Rightarrow> bool" where
  "no_directory e \<longleftrightarrow> is_errno ENOTDIR e \<or> is_errno ELOOP e"

fun check_names :: "path \<Rightarrow> string list \<Rightarrow> (sworld, cache_state) state" where
  "check_names dir [] = State_Monad.return Complete"
| "check_names dir (f # fs) = do {
     i \<leftarrow> stat (join dir f);
     case i of
       Inl e \<Rightarrow> State_Monad.return Incomplete
     | Inr _ \<Rightarrow> check_names dir fs
   }"

definition state_of_sentinel :: "path \<Rightarrow> sentinel \<Rightarrow> (sworld, cache_state \<times> err option) state" where
  "state_of_sentinel dir sn = do {
     w \<leftarrow> State_Monad.get;
     if memory w \<noteq> None \<and> rec_content (sn_record sn) \<noteq> [] then do {
       m \<leftarrow> mismatch dir (rec_content (sn_record sn));
       c \<leftarrow> ctx_err;
       State_Monad.return (case c of
         Some e \<Rightarrow> (Absent, Some (Wrap ErrState (Some e) []))
       | None \<Rightarrow> (if m \<noteq> None then Incomplete else Complete, None)) }
     else do {
       s \<leftarrow> check_names dir (list_of (sn_files sn));
       State_Monad.return (s, None) }
   }"

definition state_of :: "path \<Rightarrow> string \<Rightarrow> (sworld, cache_state \<times> err option) state" where
  "state_of cp name = do {
     d \<leftarrow> read_file (join (store_dir cp name) sentinel_name);
     case d of
       Inl e \<Rightarrow>
         if is_not_exist e then do {
           i \<leftarrow> stat (store_dir cp name);
           State_Monad.return (case i of
             Inl se \<Rightarrow> if is_not_exist se then (Absent, None)
                       else (Absent, Some (Wrap ErrState (Some se) []))
           | Inr _ \<Rightarrow> (Incomplete, None)) }
         else if no_directory e then State_Monad.return (Incomplete, None)
         else State_Monad.return (Absent, Some (Wrap ErrState (Some e) []))
     | Inr t \<Rightarrow> (case unmarshal t of
         None \<Rightarrow> State_Monad.return (Incomplete, None)
       | Some sn \<Rightarrow> state_of_sentinel (store_dir cp name) sn)
   }"

definition read_sentinel :: "path \<Rightarrow> string \<Rightarrow> (sworld, sentinel res) state" where
  "read_sentinel cp name = do {
     d \<leftarrow> read_file (join (store_dir cp name) sentinel_name);
     State_Monad.return (case d of
       Inl e \<Rightarrow> Inl (Wrap ErrState (Some e) [])
     | Inr t \<Rightarrow> (case unmarshal t of
         None \<Rightarrow> Inl (Wrap ErrState (Some (Msg ''json'')) ''the sentinel does not parse'')
       | Some sn \<Rightarrow> Inr sn))
   }"

definition read_record :: "path \<Rightarrow> string \<Rightarrow> (sworld, cache_record res) state" where
  "read_record cp name = do {
     r \<leftarrow> read_sentinel cp name;
     State_Monad.return (case r of Inl e \<Rightarrow> Inl e | Inr sn \<Rightarrow> Inr (sn_record sn))
   }"

definition set_owner :: "string \<Rightarrow> sentinel \<Rightarrow> sentinel" where
  "set_owner o' sn = sn\<lparr>sn_record := (sn_record sn)\<lparr>rec_owner := o'\<rparr>\<rparr>"

text \<open>\<^verbatim>\<open>json.Marshal\<close> of a sentinel cannot fail, so its error branch is not a branch of
  the model; here and in \<open>publish\<close>.\<close>

definition adopt :: "path \<Rightarrow> string \<Rightarrow> (sworld, err option) state" where
  "adopt cp name = do {
     r \<leftarrow> read_sentinel cp name;
     case r of
       Inl e \<Rightarrow> State_Monad.return (Some (Wrap ErrAdopt (Some e) []))
     | Inr sn \<Rightarrow> do {
         let path = join (store_dir cp name) sentinel_name;
         let tmp = join (store_dir cp name) (sentinel_name @ ''.tmp'');
         x \<leftarrow> write_file tmp (marshal (set_owner owner_agent sn));
         case x of
           Inl e \<Rightarrow> State_Monad.return (Some (Wrap ErrAdopt (Some e) ''writing the new sentinel''))
         | Inr _ \<Rightarrow> do {
             y \<leftarrow> rename tmp path;
             case y of
               Inl e \<Rightarrow> do {
                 z \<leftarrow> remove tmp;
                 State_Monad.return (new_aggregate
                   [Some (Wrap ErrAdopt (Some e) ''replacing the sentinel''), err_of z]) }
             | Inr _ \<Rightarrow> State_Monad.return None } }
   }"

subsection \<open>The temporary directory and its lock\<close>

text \<open>An error of the first call and whatever the clean-up adds to it.\<close>

definition agg_with :: "err \<Rightarrow> err option list \<Rightarrow> err" where
  "agg_with e es = Agg (e # List.map_filter id es)"

definition lock_temporary :: "path \<Rightarrow> (sworld, nat res) state" where
  "lock_temporary dir = do {
     f \<leftarrow> open_inode dir;
     case f of
       Inl e \<Rightarrow> State_Monad.return (Inl e)
     | Inr i \<Rightarrow> do {
         l \<leftarrow> flock i;
         case l of
           Inl e \<Rightarrow> do { c \<leftarrow> close; State_Monad.return (Inl (agg_with e [err_of c])) }
         | Inr _ \<Rightarrow> do {
             s \<leftarrow> stat dir;
             case s of
               Inl e \<Rightarrow> do { c \<leftarrow> close_locked i; State_Monad.return (Inl (agg_with e [err_of c])) }
             | Inr _ \<Rightarrow> State_Monad.return (Inr i) } }
   }"

definition temp_prefix :: "string \<Rightarrow> string" where
  "temp_prefix name = ''.'' @ name @ ''.tmp-''"

definition run_hook :: "store \<Rightarrow> path \<Rightarrow> (sworld, unit) state" where
  "run_hook st p = (case before_lock st of
     None \<Rightarrow> State_Monad.return ()
   | Some g \<Rightarrow> do { w \<leftarrow> State_Monad.get; State_Monad.set (g p w) })"

definition temporary_tries :: nat where
  "temporary_tries = 3"

fun create_temporary_from :: "nat \<Rightarrow> err option \<Rightarrow> store \<Rightarrow> path \<Rightarrow> string \<Rightarrow> (sworld, (string \<times> nat) res) state" where
  "create_temporary_from 0 lost st cp name = State_Monad.return (Inl (Wrap ErrExtract lost
     ''the temporary directory was removed before it could be locked, 3 times in a row''))"
| "create_temporary_from (Suc k) lost st cp name = do {
     t \<leftarrow> mkdir_temp cp (temp_prefix name);
     case t of
       Inl e \<Rightarrow> State_Monad.return (Inl (Wrap ErrExtract (Some e) ''creating the temporary directory''))
     | Inr n \<Rightarrow> do {
         run_hook st (join cp n);
         l \<leftarrow> lock_temporary (join cp n);
         case l of
           Inr i \<Rightarrow> State_Monad.return (Inr (n, i))
         | Inl e \<Rightarrow>
             if is_not_exist e then create_temporary_from k (Some e) st cp name
             else do {
               x \<leftarrow> remove_all (join cp n);
               State_Monad.return (Inl (agg_with
                 (Wrap ErrExtract (Some e) ''locking the temporary directory'') [err_of x])) } }
   }"

definition create_temporary :: "store \<Rightarrow> path \<Rightarrow> string \<Rightarrow> (sworld, (string \<times> nat) res) state" where
  "create_temporary = create_temporary_from temporary_tries None"

definition remove_temporary :: "path \<Rightarrow> (sworld, bool \<times> err option) state" where
  "remove_temporary dir = do {
     f \<leftarrow> open_inode dir;
     case f of
       Inl e \<Rightarrow> State_Monad.return (False, if is_not_exist e then None else Some e)
     | Inr i \<Rightarrow> do {
         l \<leftarrow> flock_nb i;
         case l of
           Inl e \<Rightarrow> do {
             _ \<leftarrow> close;
             State_Monad.return (False, if is_errno EWOULDBLOCK e then None else Some e) }
         | Inr _ \<Rightarrow> do {
             x \<leftarrow> remove_all dir;
             _ \<leftarrow> close_locked i;
             State_Monad.return (True, err_of x) } }
   }"

subsection \<open>Replaceable\<close>

definition replaceable :: "path \<Rightarrow> string \<Rightarrow> (sworld, err option) state" where
  "replaceable final owner = do {
     l \<leftarrow> lstat final;
     case l of
       Inl e \<Rightarrow> State_Monad.return (if is_not_exist e then None
         else Some (Wrap ErrExtract (Some e) ''looking at the directory to replace''))
     | Inr info \<Rightarrow>
         if owner = owner_agent \<and> \<not> is_dir info then State_Monad.return None
         else do {
           s \<leftarrow> stat (join final sentinel_name);
           let err = (case s of Inr _ \<Rightarrow> None
                      | Inl e \<Rightarrow> Some (if no_directory e then Sys ENOENT else e));
           State_Monad.return (case err of
             Some e \<Rightarrow>
               if \<not> is_not_exist e
               then Some (Wrap ErrExtract (Some e) ''reading the sentinel of the directory to replace'')
               else if owner = owner_agent then None
               else Some (Wrap ErrExtract None ''what is already there was not written by this'')
           | None \<Rightarrow> None) }
   }"

definition store_replaceable :: "path \<Rightarrow> string \<Rightarrow> string \<Rightarrow> (sworld, err option) state" where
  "store_replaceable cp name owner = replaceable (store_dir cp name) owner"

subsection \<open>Extract\<close>

record tar_entry =
  te_name :: string
  te_flag :: char
  te_chunks :: "string list"
  te_end :: err

text \<open>The type flags of \<^verbatim>\<open>archive/tar\<close>.\<close>

definition type_reg :: char where "type_reg = CHR ''0''"
definition type_link :: char where "type_link = CHR ''1''"
definition type_symlink :: char where "type_symlink = CHR ''2''"
definition type_char :: char where "type_char = CHR ''3''"
definition type_block :: char where "type_block = CHR ''4''"
definition type_dir :: char where "type_dir = CHR ''5''"
definition type_fifo :: char where "type_fifo = CHR ''6''"
definition type_cont :: char where "type_cont = CHR ''7''"
definition type_xglobal :: char where "type_xglobal = CHR ''g''"

definition entry_kind :: "char \<Rightarrow> string" where
  "entry_kind flag =
     (if flag = type_symlink then ''a symbolic link''
      else if flag = type_link then ''a hard link''
      else if flag = type_char \<or> flag = type_block then ''a device''
      else if flag = type_fifo then ''a named pipe''
      else ''an entry of tar type '' @ [flag])"

text \<open>\<^verbatim>\<open>sumOf(io.TeeReader(tr, out))\<close>: each piece is read, the context being asked
  first, written to the file and added to what is hashed. The regular end of an entry is known from its
  size, without a read; any other end is what the read met.\<close>

fun copy_body :: "path \<Rightarrow> string \<Rightarrow> string list \<Rightarrow> err \<Rightarrow> (sworld, string res) state" where
  "copy_body p acc [] fin = (if fin = Eof then State_Monad.return (Inr acc) else ctx_read (State_Monad.return (Inl fin)))"
| "copy_body p acc (b # bs) fin = ctx_read (do {
     r \<leftarrow> write_out p b;
     case r of
       Inl e \<Rightarrow> State_Monad.return (Inl e)
     | Inr _ \<Rightarrow> copy_body p (acc @ b) bs fin })"

declare copy_body.simps [simp del]

lemmas copy_body_simps [simp] = copy_body.simps [unfolded ctx_read_def]

text \<open>One entry: skipped (\<open>None\<close>), written, or an error.\<close>

definition extract_file :: "path \<Rightarrow> string \<Rightarrow> tar_entry \<Rightarrow> (sworld, file_rec res) state" where
  "extract_file tmp b en = do {
     o' \<leftarrow> create_excl (join tmp b);
     case o' of
       Inl e \<Rightarrow> State_Monad.return (Inl
         (if is_exist e then Wrap ErrExtract None ''duplicate file name in image''
          else Wrap ErrExtract (Some e) ''creating the file''))
     | Inr _ \<Rightarrow> do {
         s \<leftarrow> copy_body (join tmp b) [] (te_chunks en) (te_end en);
         x \<leftarrow> close;
         State_Monad.return (case s of
           Inl e \<Rightarrow> Inl (agg_with (Wrap ErrExtract (Some e) ''writing the file'') [err_of x])
         | Inr d \<Rightarrow> (case x of
             Inl e \<Rightarrow> Inl (Wrap ErrExtract (Some e) ''closing the file'')
           | Inr _ \<Rightarrow> Inr \<lparr>fr_name = b, fr_digest = sum_of d, fr_size = int (length d)\<rparr>)) }
   }"

definition extract_entry :: "path \<Rightarrow> tar_entry \<Rightarrow> (sworld, file_rec option res) state" where
  "extract_entry tmp en =
     (if te_flag en = type_dir \<or> te_flag en = type_xglobal then State_Monad.return (Inr None)
      else if te_flag en \<noteq> type_reg \<and> te_flag en \<noteq> type_cont then
        State_Monad.return (Inl (Wrap ErrExtract None (entry_kind (te_flag en) @ '', not a regular file'')))
      else
        let b = base (te_name en) in
        if b = ''.'' \<or> b = ''..'' \<or> b = [slash] then
          State_Monad.return (Inl (Wrap ErrExtract None ''the entry has no file name''))
        else if b = sentinel_name then State_Monad.return (Inr None)
        else do {
          r \<leftarrow> extract_file tmp b en;
          State_Monad.return (case r of Inl e \<Rightarrow> Inl e | Inr f \<Rightarrow> Inr (Some f)) })"

text \<open>The loop over the archive. \<^verbatim>\<open>Next\<close> reads through \<^verbatim>\<open>ctxReader\<close>, so a
  context cancelled since the loop asked fails it; the content of a skipped entry is read over by
  the next call, which then returns the error it meets there.\<close>

definition reading_error :: "err \<Rightarrow> err" where
  "reading_error e = Wrap ErrExtract (Some e) ''reading the image filesystem''"

fun extract_entries :: "path \<Rightarrow> file_rec list \<Rightarrow> tar_entry list \<Rightarrow> err \<Rightarrow> (sworld, file_rec list res) state" where
  "extract_entries tmp files [] fin = do {
     c \<leftarrow> ctx_err;
     case c of
       Some e \<Rightarrow> State_Monad.return (Inl e)
     | None \<Rightarrow> do {
         n \<leftarrow> ctx_err;
         State_Monad.return (case n of
           Some e \<Rightarrow> Inl (reading_error e)
         | None \<Rightarrow> if fin = Eof then Inr files else Inl (reading_error fin)) }
   }"
| "extract_entries tmp files (en # ens) fin = do {
     c \<leftarrow> ctx_err;
     case c of
       Some e \<Rightarrow> State_Monad.return (Inl e)
     | None \<Rightarrow> do {
         n \<leftarrow> ctx_err;
         case n of
           Some e \<Rightarrow> State_Monad.return (Inl (reading_error e))
         | None \<Rightarrow> do {
             r \<leftarrow> extract_entry tmp en;
             case r of
               Inl e \<Rightarrow> State_Monad.return (Inl e)
             | Inr None \<Rightarrow>
                 if te_end en = Eof then extract_entries tmp files ens fin
                 else extract_entries tmp files [] (te_end en)
             | Inr (Some f) \<Rightarrow> extract_entries tmp (files @ [f]) ens fin } }
   }"

definition sentinel_for :: "cache_record \<Rightarrow> file_rec list \<Rightarrow> sentinel" where
  "sentinel_for rec files =
     \<lparr>sn_record = rec\<lparr>rec_content := files\<rparr>, sn_files = Some (map fr_name files)\<rparr>"

text \<open>From the sentinel to the swap.\<close>

definition publish :: "path \<Rightarrow> string \<Rightarrow> cache_record \<Rightarrow> path \<Rightarrow> file_rec list \<Rightarrow> (sworld, err option) state" where
  "publish cp name rec tmp files = do {
     x \<leftarrow> write_file (join tmp sentinel_name) (marshal (sentinel_for rec files));
     case x of
       Inl e \<Rightarrow> State_Monad.return (Some (Wrap ErrExtract (Some e) ''writing the sentinel''))
     | Inr _ \<Rightarrow> do {
         let final = store_dir cp name;
         r \<leftarrow> replaceable final (rec_owner rec);
         case r of
           Some e \<Rightarrow> State_Monad.return (Some e)
         | None \<Rightarrow> do {
             y \<leftarrow> remove_all final;
             case y of
               Inl e \<Rightarrow> State_Monad.return (Some (Wrap ErrExtract (Some e) ''clearing the previous directory''))
             | Inr _ \<Rightarrow> do {
                 forget final;
                 z \<leftarrow> rename tmp final;
                 case z of
                   Inl e \<Rightarrow> State_Monad.return (Some (Wrap ErrExtract (Some e) ''swapping the directory into place''))
                 | Inr _ \<Rightarrow> do { remember final files; State_Monad.return None } } } }
   }"

definition fill_temporary :: "path \<Rightarrow> string \<Rightarrow> cache_record \<Rightarrow> path \<Rightarrow> tar_entry list \<Rightarrow> err \<Rightarrow> (sworld, err option) state" where
  "fill_temporary cp name rec tmp ens fin = do {
     r \<leftarrow> extract_entries tmp [] ens fin;
     case r of
       Inl e \<Rightarrow> State_Monad.return (Some e)
     | Inr files \<Rightarrow>
         if files = [] then State_Monad.return (Some (Wrap ErrExtract None ''the image carries no file to cache''))
         else publish cp name rec tmp files
   }"

text \<open>The lock is released before the deferred removal of a failed extraction runs.\<close>

definition store_extract :: "store \<Rightarrow> path \<Rightarrow> string \<Rightarrow> cache_record \<Rightarrow> tar_entry list \<Rightarrow> err \<Rightarrow> (sworld, err option) state" where
  "store_extract st cp name rec ens fin = do {
     t \<leftarrow> create_temporary st cp name;
     case t of
       Inl e \<Rightarrow> State_Monad.return (Some e)
     | Inr (n, lock) \<Rightarrow> do {
         r \<leftarrow> fill_temporary cp name rec (join cp n) ens fin;
         _ \<leftarrow> close_locked lock;
         case r of
           None \<Rightarrow> State_Monad.return None
         | Some e \<Rightarrow> do {
             x \<leftarrow> remove_all (join cp n);
             State_Monad.return (new_aggregate [Some e, err_of x]) } }
   }"

subsection \<open>Sweeping and garbage collection\<close>

definition is_temporary :: "string \<Rightarrow> bool" where
  "is_temporary name \<longleftrightarrow> has_prefix name ''.'' \<and> str_contains name ''.tmp-''"

definition gc_error :: "err \<Rightarrow> string \<Rightarrow> err" where
  "gc_error e d = Wrap ErrGC (Some e) d"

fun sweep_entries :: "path \<Rightarrow> string \<Rightarrow> (string \<times> node) list \<Rightarrow> (sworld, string list \<times> err list) state" where
  "sweep_entries cp pre [] = State_Monad.return ([], [])"
| "sweep_entries cp pre ((n, e) # es) =
     (if \<not> is_dir e \<or> \<not> has_prefix n pre then sweep_entries cp pre es
      else do {
        (ok, rerr) \<leftarrow> remove_temporary (join cp n);
        (removed, errs) \<leftarrow> sweep_entries cp pre es;
        State_Monad.return (case rerr of
          Some x \<Rightarrow> (removed, gc_error x [] # errs)
        | None \<Rightarrow> (if ok then n # removed else removed, errs)) })"

definition sweep_temporaries :: "path \<Rightarrow> string \<Rightarrow> (sworld, string list \<times> err option) state" where
  "sweep_temporaries cp name = do {
     l \<leftarrow> read_dir cp;
     case l of
       Inl e \<Rightarrow> State_Monad.return ([], Some (gc_error e ''listing the cache path''))
     | Inr es \<Rightarrow> do {
         (removed, errs) \<leftarrow> sweep_entries cp (temp_prefix name) es;
         State_Monad.return (removed, new_aggregate (map Some errs)) }
   }"

definition seeded :: "path \<Rightarrow> (sworld, bool res) state" where
  "seeded dir = do {
     d \<leftarrow> read_file (join dir sentinel_name);
     State_Monad.return (case d of
       Inl e \<Rightarrow> if is_not_exist e then Inr False else Inl e
     | Inr t \<Rightarrow> (case unmarshal t of
         None \<Rightarrow> Inr False
       | Some sn \<Rightarrow> Inr (rec_owner (sn_record sn) \<noteq> owner_agent)))
   }"

text \<open>One entry of the cache path: whether it was removed, or the error that kept it.\<close>

definition gc_remove :: "path \<Rightarrow> (sworld, bool \<times> err option) state" where
  "gc_remove p = do {
     forget p;
     x \<leftarrow> remove_all p;
     State_Monad.return (case x of Inl e \<Rightarrow> (False, Some (gc_error e [])) | Inr _ \<Rightarrow> (True, None))
   }"

definition gc_entry :: "path \<Rightarrow> (string \<Rightarrow> bool) \<Rightarrow> string \<Rightarrow> node \<Rightarrow> (sworld, bool \<times> err option) state" where
  "gc_entry cp keep n e =
     (if keep n \<or> is_regular e \<or> n = lost_found then State_Monad.return (False, None)
      else if is_dir e \<and> is_temporary n then do {
        (ok, err) \<leftarrow> remove_temporary (join cp n);
        State_Monad.return (case err of
          Some x \<Rightarrow> (False, Some (gc_error x []))
        | None \<Rightarrow> (ok, None)) }
      else if is_dir e then do {
        s \<leftarrow> seeded (join cp n);
        case s of
          Inl x \<Rightarrow> State_Monad.return (False, Some (gc_error x ''reading the sentinel, so the directory is kept''))
        | Inr True \<Rightarrow> State_Monad.return (False, None)
        | Inr False \<Rightarrow> gc_remove (join cp n) }
      else gc_remove (join cp n))"

fun gc_entries :: "path \<Rightarrow> (string \<Rightarrow> bool) \<Rightarrow> (string \<times> node) list \<Rightarrow> (sworld, string list \<times> err list) state" where
  "gc_entries cp keep [] = State_Monad.return ([], [])"
| "gc_entries cp keep ((n, e) # es) = do {
     (ok, err) \<leftarrow> gc_entry cp keep n e;
     (removed, errs) \<leftarrow> gc_entries cp keep es;
     State_Monad.return (if ok then n # removed else removed,
                         case err of Some x \<Rightarrow> x # errs | None \<Rightarrow> errs)
   }"

definition gc :: "path \<Rightarrow> (string \<Rightarrow> bool) \<Rightarrow> (sworld, string list \<times> err option) state" where
  "gc cp keep = do {
     l \<leftarrow> read_dir cp;
     case l of
       Inl e \<Rightarrow> State_Monad.return ([], if is_not_exist e then None
                  else Some (gc_error e ''listing the cache path''))
     | Inr es \<Rightarrow> do {
         (removed, errs) \<leftarrow> gc_entries cp keep es;
         State_Monad.return (removed, new_aggregate (map Some errs)) }
   }"

end
