(* ===== verification/Memory.thy ===== *)
theory Memory
  imports Content
begin

section \<open>The memory of digests is truthful\<close>

text \<open>
  What an entry of the memory promises: while the file at its path still has the entry's key, the
  digest is the one of its content. Under that promise \<open>digest\<close> answers what reading the file
  would, and \<open>mismatch\<close> is the comparison of the directory with its record; both keep the
  promise. Who may rely on it (the racy window, the files just written) is the subject of
  \<open>Racy\<close> and of \<open>Extract\<close>.
\<close>

definition entry_true :: "node \<Rightarrow> path \<Rightarrow> int \<Rightarrow> sum_entry \<Rightarrow> bool" where
  "entry_true r p racy e \<longleftrightarrow>
     (\<forall>f. stat_in r p = Inr (Reg f) \<longrightarrow> trusted racy e (key_of_file f) \<longrightarrow> edigest e = sum_of (fdata f))"

definition truthful_under :: "path \<Rightarrow> sworld \<Rightarrow> bool" where
  "truthful_under d w \<longleftrightarrow> (\<forall>c p e. memory w = Some c \<longrightarrow> sentries c p = Some e \<longrightarrow> strict_prefix d p \<longrightarrow>
     entry_true (root w) p (sracy c) e)"

lemma truthful_underD:
  "truthful_under d w \<Longrightarrow> memory w = Some c \<Longrightarrow> sentries c p = Some e \<Longrightarrow> strict_prefix d p \<Longrightarrow>
   stat_in (root w) p = Inr (Reg f) \<Longrightarrow> trusted (sracy c) e (key_of_file f) \<Longrightarrow> edigest e = sum_of (fdata f)"
  by (simp add: truthful_under_def entry_true_def)

lemma truthful_cong: "root w' = root w \<Longrightarrow> memory w' = memory w \<Longrightarrow> truthful_under d w' = truthful_under d w"
  by (simp add: truthful_under_def)

lemma truthful_no_memory: "memory w = None \<Longrightarrow> truthful_under d w"
  by (simp add: truthful_under_def)

lemma truthful_store_entry:
  assumes "truthful_under d w" "memory w = Some c" "entry_true (root w) p (sracy c) e"
  shows "truthful_under d (w\<lparr>memory := Some (store_entry p e c)\<rparr>)"
  using assms by (auto simp: truthful_under_def store_entry_def)

lemma truthful_forget: "truthful_under d (w\<lparr>memory := map_option (forget_under d) (memory w)\<rparr>)"
  by (auto simp: truthful_under_def forget_under_def)

lemma wp_modify: "wp (modify_sums g) Q w = Q () (w\<lparr>memory := map_option g (memory w)\<rparr>)"
  by (simp add: modify_sums_def wp_rules)

subsection \<open>Steps that use the memory\<close>

text \<open>What a program that may use the memory keeps: the tree, the locks and the schedule.\<close>

definition tends :: "'m world \<Rightarrow> 'm world \<Rightarrow> bool" where
  "tends w w' \<longleftrightarrow> same_env w w' \<and> root w' = root w \<and> locks w' = locks w"

interpretation td: preorder_steps tends
  by unfold_locales (auto simp: tends_def intro: env.step_refl env.step_trans)

lemma along_looks_tends: "along looks m \<Longrightarrow> along tends m"
  by (auto simp: along_def looks_def tends_def)

lemma looks_tends: "looks w w' \<Longrightarrow> tends w w'"
  by (simp add: looks_def tends_def)

lemma looks_truthful: "looks w w' \<Longrightarrow> truthful_under d w \<Longrightarrow> truthful_under d w'"
  by (simp add: looks_def truthful_under_def)

lemmas along_tends_queries = along_queries [THEN along_looks_tends]

lemma along_tends_modify: "along tends (modify_sums g)"
  by (auto simp: along_iff_wp wp_modify tends_def env.step_refl)

lemma along_tends_forget: "along tends (forget dir)"
  by (simp add: forget_def along_tends_modify)

lemma along_tends_remember_files: "along tends (remember_files_by kf dir fs)"
  by (induction fs) (auto intro!: td.along_intros along_tends_modify along_tends_queries)

lemma along_tends_remember: "along tends (remember_by kf dir fs)"
  by (auto simp: remember_by_def intro!: td.along_intros along_tends_remember_files)

lemma along_hash_pieces: "along looks (hash_pieces acc bs)"
  by (induction acc bs rule: hash_pieces.induct) (auto simp: ctx_read_def intro!: look.along_intros along_queries along_query)

lemma along_sum_file: "along looks (sum_file p)"
  by (auto simp: sum_file_def ctx_read_def intro!: look.along_intros along_queries along_query along_hash_pieces)

lemma along_tends_digest: "along tends (digest_by kf p info)"
  by (auto simp: digest_by_def Let_def intro!: td.along_intros along_tends_modify along_tends_queries along_looks_tends [OF along_sum_file])

lemma along_tends_check_sizes: "along tends (check_sizes dir fs)"
  by (induction fs)
    (auto intro!: td.along_intros along_tends_queries split: node.split sum.split)

lemma along_tends_check_digests: "along tends (check_digests_by kf dir fs)"
  by (induction dir fs rule: check_digests_by.induct)
    (auto intro!: td.along_intros along_tends_digest split: sum.split)

lemma along_tends_mismatch: "along tends (mismatch_by kf dir fs)"
  by (auto simp: mismatch_by_def intro!: td.along_intros along_tends_check_sizes along_tends_check_digests)

subsection \<open>Remembering what an extraction wrote\<close>

lemma remember_files_true:
  assumes "truthful_under d w"
    and "\<forall>f\<in>set fs. \<forall>g. stat_in (root w) (join dir (fr_name f)) = Inr (Reg g) \<longrightarrow> fr_digest f = sum_of (fdata g)"
  shows "wp (remember_files dir fs) (\<lambda>_ w'. truthful_under d w') w"
  using assms
proof (induction fs arbitrary: w)
  case Nil
  then show ?case by (simp add: wp_rules)
next
  case (Cons f fs)
  have tr: "truthful_under d (tock w)" using Cons.prems(1) by (simp add: truthful_under_def)
  have fs: "\<forall>f\<in>set fs. \<forall>g. stat_in (root w) (join dir (fr_name f)) = Inr (Reg g) \<longrightarrow> fr_digest f = sum_of (fdata g)"
    using Cons.prems(2) by simp
  have st: "truthful_under d ((tock w)\<lparr>memory := map_option (store_entry (join dir (fr_name f))
        \<lparr>ekey = key_of_file g, edigest = fr_digest f, eat = 0, ewritten = True\<rparr>) (memory w)\<rparr>)"
    if g: "stat_in (root w) (join dir (fr_name f)) = Inr (Reg g)" for g
  proof (cases "memory w")
    case None
    then show ?thesis by (simp add: truthful_no_memory)
  next
    case (Some c)
    have "entry_true (root (tock w)) (join dir (fr_name f)) (sracy c)
        \<lparr>ekey = key_of_file g, edigest = fr_digest f, eat = 0, ewritten = True\<rparr>"
      using Cons.prems(2) g by (simp add: entry_true_def)
    from truthful_store_entry [OF tr _ this] Some show ?thesis by simp
  qed
  show ?case
    apply (simp add: wp_rules wp_stat wp_modify)
    using Cons.IH [OF tr] Cons.IH [OF st] fs
    apply (auto simp: wp_rules wp_modify split: option.split sum.split elim!: key_of.elims)
    done
qed

lemma remember_true:
  assumes "truthful_under d w"
    and "\<forall>f\<in>set fs. \<forall>g. stat_in (root w) (join dir (fr_name f)) = Inr (Reg g) \<longrightarrow> fr_digest f = sum_of (fdata g)"
  shows "wp (remember dir fs) (\<lambda>_ w'. truthful_under d w') w"
  using assms remember_files_true by (auto simp: remember_by_def wp_rules)

subsection \<open>Checking a directory when nothing fails\<close>

lemma wp_open_file: "wp (open_file p) Q w = (case faults w (tick w) of
     Some ft \<Rightarrow> Q (Inl (Sys (ferr ft))) (tock w)
   | None \<Rightarrow> Q (case stat_in (root w) p of Inl e \<Rightarrow> Inl e | Inr Special \<Rightarrow> Inl (Sys ENXIO) | Inr _ \<Rightarrow> Inr ()) (tock w))"
  by (simp add: open_file_def wp_query split: option.split)

lemma read_in_reg: "stat_in r p = Inr (Reg g) \<Longrightarrow> read_in r p = Inr (fdata g)"
  by (simp add: read_in_def)

text \<open>What hashing a file may answer: its digest, and nothing else when no read fails and the context lives.\<close>

lemma ctx_done_tock: "ctx_done w \<Longrightarrow> ctx_done (tock w)"
  by (rule ctx_done_mono [OF same_env_tock])

lemma hash_pieces_spec:
  "wp (hash_pieces acc bs) (\<lambda>x w'. (\<forall>y. x = Inr y \<longrightarrow> y = sum_of (acc @ concat bs)) \<and>
     (faultless w \<longrightarrow> ctx_done w' \<or> x = Inr (sum_of (acc @ concat bs)))) w"
proof (induction acc bs arbitrary: w rule: hash_pieces.induct)
  case (1 acc)
  then show ?case by (auto simp: ctx_read_def wp_rules ctx_done_tock split: option.split)
next
  case (2 acc b bs)
  have IH: "wp (hash_pieces (acc @ b) bs) (\<lambda>x w'. (\<forall>y. x = Inr y \<longrightarrow> y = sum_of (acc @ concat (b # bs))) \<and>
     (faultless w \<longrightarrow> ctx_done w' \<or> x = Inr (sum_of (acc @ concat (b # bs))))) (tock (tock w))"
    using 2 [of "tock (tock w)"] by simp
  show ?case
    by (auto simp: ctx_read_def wp_rules IH split: option.split intro: wp_mono [OF IH])
qed

lemma sum_file_spec:
  assumes "stat_in (root w) p = Inr (Reg g)"
  shows "wp (sum_file p) (\<lambda>x w'. looks w w' \<and> (\<forall>y. x = Inr y \<longrightarrow> y = sum_of (fdata g)) \<and>
     (faultless w \<longrightarrow> ctx_done w' \<or> x = Inr (sum_of (fdata g)))) w"
proof -
  have "wp (sum_file p) (\<lambda>x w'. (\<forall>y. x = Inr y \<longrightarrow> y = sum_of (fdata g)) \<and>
     (faultless w \<longrightarrow> ctx_done w' \<or> x = Inr (sum_of (fdata g)))) w"
    using hash_pieces_spec [of "[]" "pieces (fdata g)" w] assms by (simp add: sum_file_def wp_rules read_in_reg concat_pieces)
  then show ?thesis by (simp only: wp_conj look.along_wp [OF along_sum_file] simp_thms)
qed

text \<open>A file of a record, as the check wants it.\<close>

definition size_intact :: "node \<Rightarrow> path \<Rightarrow> file_rec \<Rightarrow> node \<Rightarrow> bool" where
  "size_intact r dir f n \<longleftrightarrow> plain (fr_name f) \<and> stat_in r (join dir (fr_name f)) = Inr n \<and>
     (\<exists>g. n = Reg g \<and> file_size g = fr_size f)"

definition file_intact :: "node \<Rightarrow> path \<Rightarrow> file_rec \<Rightarrow> bool" where
  "file_intact r dir f \<longleftrightarrow> plain (fr_name f) \<and>
     (\<exists>g. stat_in r (join dir (fr_name f)) = Inr (Reg g) \<and> file_size g = fr_size f \<and> sum_of (fdata g) = fr_digest f)"

lemma check_sizes_faultless:
  "faultless w \<Longrightarrow> wp (check_sizes dir fs) (\<lambda>x w'. looks w w' \<and> (case x of
      Inl why \<Rightarrow> \<not> list_all (file_intact (root w) dir) fs
    | Inr infos \<Rightarrow> list_all2 (size_intact (root w) dir) fs infos)) w"
proof (induction fs arbitrary: w)
  case Nil
  then show ?case by (simp add: wp_rules look.step_refl)
next
  case (Cons f fs)
  have c: "faultless (tock w)" using Cons.prems by simp
  show ?case
  proof (cases "storable_name (fr_name f)")
    case False
    then show ?thesis
      by (simp add: wp_rules look.step_refl file_intact_def storable_iff_plain)
  next
    case True
    show ?thesis
    proof (cases "\<exists>g. stat_in (root w) (join dir (fr_name f)) = Inr (Reg g) \<and> file_size g = fr_size f")
      case False
      with True Cons.prems show ?thesis
        by (auto simp: wp_rules wp_stat file_intact_def storable_iff_plain split: sum.split node.split)
    next
      case ok: True
      then obtain g where g: "stat_in (root w) (join dir (fr_name f)) = Inr (Reg g)" "file_size g = fr_size f" by blast
      have "wp (check_sizes dir fs) (\<lambda>x w'. looks w w' \<and> (case x of
              Inl why \<Rightarrow> \<not> list_all (file_intact (root w) dir) fs
            | Inr infos \<Rightarrow> list_all2 (size_intact (root w) dir) fs infos)) (tock w)"
        by (rule wp_mono [OF Cons.IH [OF c]]) (auto intro: look.step_trans [OF looks_tock] split: sum.splits)
      then show ?thesis
        using True Cons.prems g
        by (simp add: wp_rules wp_stat storable_iff_plain)
         (erule wp_mono, auto simp: wp_rules size_intact_def file_intact_def split: sum.splits)
    qed
  qed
qed

subsection \<open>What a build's keys promise\<close>

text \<open>What the check needs of \<^verbatim>\<open>keyOf\<close>: a key it gives is the one that identifies the version of
  the file. A build may give none.\<close>

locale file_keys =
  fixes kf :: "node \<Rightarrow> sum_key option"
  assumes kf_key: "kf n = Some k \<Longrightarrow> key_of n = Some k"
begin

text \<open>A file that is read: its digest or an error, its digest when nothing fails, and the memory stays truthful.\<close>

lemma digest_read:
  assumes "stat_in (root w) p = Inr (Reg g)" "truthful_under d w"
    "(case memory w of None \<Rightarrow> None | Some c \<Rightarrow> remembered_by kf c p (Reg g)) = None"
  shows "wp (digest_by kf p (Reg g)) (\<lambda>x w'. (\<forall>y. x = Inr y \<longrightarrow> y = sum_of (fdata g)) \<and>
    (faultless w \<longrightarrow> ctx_done w' \<or> x = Inr (sum_of (fdata g))) \<and> truthful_under d w') w"
proof (cases "faults w (tick w)")
  case (Some ft)
  then have "\<not> faultless w" by (auto simp: faultless_def)
  moreover have "truthful_under d (tock w)" using assms(2) truthful_cong [of "tock w" w] by simp
  ultimately show ?thesis using Some assms(3) by (simp add: digest_by_def wp_rules wp_open_file Let_def)
next
  case None
  have keep: "truthful_under d w'" if "root w' = root w" "memory w' = memory w" for w'
    using assms(2) that truthful_cong by blast
  have count: "truthful_under d (w'\<lparr>memory := map_option (\<lambda>c. c\<lparr>shashed := Suc (shashed c)\<rparr>) (memory w)\<rparr>)"
    if "root w' = root w" for w'
    using assms(2) that by (cases "memory w") (auto simp: truthful_under_def)
  have store: "truthful_under d (w'\<lparr>memory := map_option (store_entry p
        \<lparr>ekey = key_of_file g, edigest = sum_of (fdata g), eat = a, ewritten = False\<rparr>)
        (map_option (\<lambda>c. c\<lparr>shashed := Suc (shashed c)\<rparr>) (memory w))\<rparr>)"
    if "root w' = root w" for w' a
    using assms(1,2) that by (cases "memory w") (auto simp: truthful_under_def store_entry_def entry_true_def)
  have k: "kf (Reg g) = None \<or> kf (Reg g) = Some (key_of_file g)"
    using kf_key by (cases "kf (Reg g)") fastforce+
  have "stat_in (root (tock w)) p = Inr (Reg g)" using assms(1) by simp
  note read = sum_file_spec [OF this]
  show ?thesis
    unfolding digest_by_def wp_bind wp_get assms(3) option.case Let_def wp_open_file None assms(1) sum.case node.case
  proof (rule wp_mono [OF read], goal_cases)
    case (1 x w2)
    then have w2: "root w2 = root w" "memory w2 = memory w" by (simp_all add: looks_def)
    show ?case
    proof (cases x)
      case (Inl e)
      then show ?thesis using 1 w2 keep by (auto simp: wp_rules wp_close ctx_done_tock split: option.split)
    next
      case (Inr y)
      with 1 have y: "y = sum_of (fdata g)" by simp
      from k show ?thesis
        unfolding Inr y by (elim disjE) (simp_all add: wp_rules wp_close wp_modify w2 count store split: option.split)
    qed
  qed
qed

lemma digest_faultless:
  assumes "faultless w" "stat_in (root w) p = Inr (Reg g)" "truthful_under d w" "strict_prefix d p"
  shows "wp (digest_by kf p (Reg g)) (\<lambda>x w'. (ctx_done w' \<or> x = Inr (sum_of (fdata g))) \<and> truthful_under d w' \<and> tends w w') w"
proof (cases "case memory w of None \<Rightarrow> None | Some c \<Rightarrow> remembered_by kf c p (Reg g)")
  case None
  have "wp (digest_by kf p (Reg g)) (\<lambda>x w'. (ctx_done w' \<or> x = Inr (sum_of (fdata g))) \<and> truthful_under d w') w"
    by (rule wp_mono [OF digest_read [OF assms(2,3) None]]) (use assms(1) in auto)
  then show ?thesis by (simp add: wp_conj td.along_wp [OF along_tends_digest] flip: conj_assoc)
next
  case (Some x)
  then obtain c e where c: "memory w = Some c" "sentries c p = Some e" "trusted (sracy c) e (key_of_file g)" "x = edigest e"
    by (auto simp: remembered_by_def dest!: kf_key split: option.splits if_splits)
  then have "x = sum_of (fdata g)"
    using truthful_underD [OF assms(3)] assms(2,4) by blast
  then show ?thesis using Some assms(3) by (simp add: digest_by_def wp_rules td.step_refl)
qed

lemma check_digests_faultless:
  "faultless w \<Longrightarrow> clean_path dir \<Longrightarrow> truthful_under dir w \<Longrightarrow> list_all2 (size_intact (root w) dir) fs infos \<Longrightarrow>
   wp (check_digests_by kf dir (zip fs infos)) (\<lambda>x w'. truthful_under dir w' \<and> tends w w' \<and>
      (ctx_done w' \<or> (x = None \<longleftrightarrow> list_all (file_intact (root w) dir) fs))) w"
proof (induction fs infos arbitrary: w rule: list_induct2')
  case 1
  then show ?case by (simp add: wp_rules td.step_refl)
next
  case (4 f fs n infos)
  then obtain g where n: "n = Reg g" "plain (fr_name f)" "stat_in (root w) (join dir (fr_name f)) = Inr (Reg g)"
    "file_size g = fr_size f" by (auto simp: size_intact_def)
  have p: "strict_prefix dir (join dir (fr_name f))" using 4(3) n(2) by (simp add: join_plain strict_prefix_def)
  show ?case
    unfolding zip_Cons_Cons check_digests_by.simps wp_bind n(1)
  proof (rule wp_mono [OF digest_faultless [OF 4(2) n(3) 4(4) p]], goal_cases)
    case (1 x w1)
    then have x: "ctx_done w1 \<or> x = Inr (sum_of (fdata g))" and t: "truthful_under dir w1" and td: "tends w w1" by auto
    have i: "file_intact (root w) dir f = (sum_of (fdata g) = fr_digest f)"
      using n by (auto simp: file_intact_def)
    have w1: "faultless w1" "root w1 = root w" using td 4(2) same_env_faultless by (auto simp: tends_def)
    have IH: "wp (check_digests_by kf dir (zip fs infos)) (\<lambda>x w'. truthful_under dir w' \<and> tends w1 w' \<and>
        (ctx_done w' \<or> (x = None \<longleftrightarrow> list_all (file_intact (root w1) dir) fs))) w1"
      by (rule 4(1)) (use 4(3,5) w1 t in auto)
    have rest: "wp (check_digests_by kf dir (zip fs infos)) (\<lambda>x w'. truthful_under dir w' \<and> tends w w' \<and>
        (ctx_done w' \<or> (x = None \<longleftrightarrow> list_all (file_intact (root w) dir) (f # fs)))) w1"
      if "ctx_done w1 \<or> sum_of (fdata g) = fr_digest f"
    proof (rule wp_mono [OF IH], goal_cases)
      case (1 y w2)
      then have t2: "tends w1 w2" by simp
      then have "ctx_done w1 \<Longrightarrow> ctx_done w2" using ctx_done_mono by (auto simp: tends_def)
      moreover have "tends w w2" using td t2 by (rule td.step_trans)
      ultimately show ?case using 1 that by (cases "ctx_done w2") (auto simp: w1(2) i)
    qed
    show ?case
    proof (cases x)
      case (Inl e)
      with x t td show ?thesis by (simp add: wp_rules)
    next
      case (Inr y)
      then show ?thesis using x t td i rest
        by (cases "y = fr_digest f") (auto simp: wp_rules)
    qed
  qed
qed auto

lemma mismatch_faultless:
  assumes "faultless w" "clean_path dir" "truthful_under dir w"
  shows "wp (mismatch_by kf dir fs) (\<lambda>x w'. truthful_under dir w' \<and> tends w w' \<and>
      (ctx_done w' \<or> (x = None \<longleftrightarrow> list_all (file_intact (root w) dir) fs))) w"
  unfolding mismatch_by_def wp_bind
proof (rule wp_mono [OF check_sizes_faultless [OF assms(1)]], goal_cases)
  case (1 x w1)
  then have l: "looks w w1" by simp
  then have "root w1 = root w" "memory w1 = memory w" "tends w w1" using l by (simp_all add: looks_def tends_def)
  then have w1: "faultless w1" "root w1 = root w" "truthful_under dir w1" "tends w w1"
    using same_env_faultless [of w w1] truthful_cong [of w1 w dir] assms by (simp_all add: tends_def)
  show ?case
  proof (cases x)
    case (Inl why)
    then show ?thesis using 1 w1 by (simp add: wp_rules)
  next
    case (Inr infos)
    with 1 w1 have "list_all2 (size_intact (root w1) dir) fs infos" by simp
    from check_digests_faultless [OF w1(1) assms(2) w1(3) this] show ?thesis
      unfolding Inr sum.case w1(2) by (rule wp_mono) (auto intro: td.step_trans [OF w1(4)])
  qed
qed

end

interpretation linux: file_keys key_of
  by unfold_locales

interpretation elsewhere: file_keys keyed_other
  by unfold_locales (simp add: keyed_other_def key_of_other_def)

end
