(* ===== verification/Extract.thy ===== *)
theory Extract
  imports Store Memory
begin

section \<open>What an extraction does\<close>

text \<open>
  The specification of an archive (\<open>wanted\<close>, \<open>acceptable\<close>) and the lemmas that carry it through
  \<open>store_extract\<close>: what each call does inside the temporary directory, the loop over the
  archive, the swap. Every lemma holds for every schedule of faults; the clauses under \<open>calm\<close>
  say what happens when nothing fails. The temporary directory is followed as one entry put into
  the tree the extraction found.
\<close>

subsection \<open>The archive\<close>

definition skipped :: "tar_entry \<Rightarrow> bool" where
  "skipped en \<longleftrightarrow> te_flag en = type_dir \<or> te_flag en = type_xglobal \<or>
     ((te_flag en = type_reg \<or> te_flag en = type_cont) \<and> base (te_name en) = sentinel_name)"

definition entry_ok :: "tar_entry \<Rightarrow> bool" where
  "entry_ok en \<longleftrightarrow> te_end en = Eof \<and>
     (skipped en \<or> (te_flag en = type_reg \<or> te_flag en = type_cont) \<and> plain (base (te_name en)))"

lemmas flag_defs = type_reg_def type_cont_def type_dir_def type_xglobal_def

lemma sentinel_name_not_slash [simp]: "sentinel_name \<noteq> [slash]"
  by (simp add: sentinel_name_def)

text \<open>The files an archive carries: base name and content.\<close>

definition wanted :: "tar_entry list \<Rightarrow> (string \<times> string) list" where
  "wanted ens = map (\<lambda>en. (base (te_name en), concat (te_chunks en))) (filter (\<lambda>en. \<not> skipped en) ens)"

definition acceptable :: "tar_entry list \<Rightarrow> err \<Rightarrow> bool" where
  "acceptable ens fin \<longleftrightarrow> list_all entry_ok ens \<and> fin = Eof \<and> distinct (map fst (wanted ens))"

definition file_of :: "string \<times> string \<Rightarrow> file_rec" where
  "file_of bd = \<lparr>fr_name = fst bd, fr_digest = sum_of (snd bd), fr_size = int (length (snd bd))\<rparr>"

text \<open>A directory's entries are exactly these regular files, in this order.\<close>

definition stored :: "(string \<times> string) list \<Rightarrow> (string \<times> node) list \<Rightarrow> bool" where
  "stored = list_all2 (\<lambda>(b, d) (c, m). c = b \<and> (\<exists>g. m = Reg g \<and> fdata g = d))"

lemma stored_simps [simp]:
  "stored [] es = (es = [])"
  "stored ((b, d) # fs) es = (\<exists>g es'. es = (b, Reg g) # es' \<and> fdata g = d \<and> stored fs es')"
  by (auto simp: stored_def list_all2_Cons1)

lemma stored_snoc: "stored fs es \<Longrightarrow> fdata g = d \<Longrightarrow> stored (fs @ [(b, d)]) (es @ [(b, Reg g)])"
  by (simp add: stored_def list_all2_appendI)

lemma stored_fst: "stored fs es \<Longrightarrow> map fst es = map fst fs"
  unfolding stored_def by (induction rule: list_all2_induct) auto

lemma stored_names: "stored fs es \<Longrightarrow> fst ` set es = fst ` set fs"
  using stored_fst by (metis list.set_map)

lemma stored_regular: "stored fs es \<Longrightarrow> (f, u) \<in> set es \<Longrightarrow> is_regular u"
  unfolding stored_def by (induction rule: list_all2_induct) auto

lemma stored_lookup:
  "stored fs es \<Longrightarrow> map_of fs b = Some d \<Longrightarrow> \<exists>g. map_of es b = Some (Reg g) \<and> fdata g = d"
  unfolding stored_def by (induction rule: list_all2_induct) (auto split: if_splits)

lemma wanted_simps [simp]:
  "wanted [] = []"
  "wanted (en # ens) = (if skipped en then wanted ens else (base (te_name en), concat (te_chunks en)) # wanted ens)"
  by (simp_all add: wanted_def)

lemma not_skipped_plain: "entry_ok en \<Longrightarrow> \<not> skipped en \<Longrightarrow> plain (base (te_name en))"
  by (simp add: entry_ok_def)

lemma wanted_names:
  "list_all entry_ok ens \<Longrightarrow> (b, d) \<in> set (wanted ens) \<Longrightarrow> plain b \<and> b \<noteq> sentinel_name"
  by (induction ens) (auto simp: entry_ok_def skipped_def split: if_splits)

subsection \<open>Calls inside the temporary directory\<close>

lemma new_data [simp]: "fdata (new_file w d) = d" "fdata (set_data w d f) = d"
  by (simp_all add: new_file_def set_data_def)

lemma map_of_Some_name: "map_of es b = Some m \<Longrightarrow> b \<in> fst ` set es"
  by (metis map_of_eq_None_iff option.distinct(1))

lemma wp_quietI: "along quiet m \<Longrightarrow> wp m Q w \<Longrightarrow> wp m (\<lambda>x w'. quiet w w' \<and> Q x w') w"
  by (simp add: along_iff_wp wp_conj)

lemma create_in:
  assumes "root w = put (cp @ [t]) (Some (Dir i es)) r0" "dir_at r0 cp" "clean_path cp" "plain t" "plain b"
  shows "wp (create_excl (join (cp @ [t]) b)) (\<lambda>x w'. quiet w w' \<and> (case x of
      Inl e \<Rightarrow> root w' = root w \<and> (calm w \<longrightarrow> b \<in> fst ` set es)
    | Inr _ \<Rightarrow> b \<notin> fst ` set es \<and>
        (\<exists>g. root w' = put (cp @ [t]) (Some (Dir i (es @ [(b, Reg g)]))) r0 \<and> fdata g = []))) w"
  (is "wp ?m (\<lambda>x w'. quiet w w' \<and> ?Q x w') w")
proof -
  have "wp ?m ?Q w"
    using assms by (auto simp: create_excl_def wp_mutate path_simps put_grandchild
        map_of_eq_None_iff AList_update_fresh intro!: exI dest: map_of_Some_name split: option.split)
  then show ?thesis by (rule wp_quietI [OF along_quiet_changes(2)])
qed

lemma append_in:
  assumes "root w = put (cp @ [t]) (Some (Dir i (es @ [(b, Reg g)]))) r0" "dir_at r0 cp"
    "b \<notin> fst ` set es"
  shows "\<exists>g'. root (append_to (cp @ [t, b]) d w) = put (cp @ [t]) (Some (Dir i (es @ [(b, Reg g')]))) r0
      \<and> fdata g' = fdata g @ d"
proof -
  have l: "map_of (es @ [(b, Reg g)]) b = Some (Reg g)"
    using assms(3) by (simp add: map_add_def map_of_eq_None_iff [THEN iffD2])
  show ?thesis
    using assms l
    by (intro exI [of _ "set_data w (fdata g @ d) g"]) (simp add: append_to_def path_simps put_grandchild update_last)
qed

lemma write_out_in:
  assumes "root w = put (cp @ [t]) (Some (Dir i (es @ [(b, Reg g)]))) r0" "dir_at r0 cp"
    "b \<notin> fst ` set es"
  shows "wp (write_out (cp @ [t, b]) d) (\<lambda>x w'. quiet w w' \<and>
      (\<exists>g'. root w' = put (cp @ [t]) (Some (Dir i (es @ [(b, Reg g')]))) r0 \<and>
       (case x of Inl e \<Rightarrow> \<not> calm w | Inr _ \<Rightarrow> fdata g' = fdata g @ d))) w"
  (is "wp ?m (\<lambda>x w'. quiet w w' \<and> ?Q x w') w")
proof -
  note a = append_in [where w = "tock w", OF _ assms(2,3), of t i g]
  have "wp ?m ?Q w"
    using a [of d] a assms(1) by (fastforce simp: write_out_def wp_mutate split: option.split)
  then show ?thesis by (rule wp_quietI [OF along_quiet_changes(3)])
qed

lemma copy_body_in:
  assumes "root w = put (cp @ [t]) (Some (Dir i (es @ [(b, Reg g)]))) r0" "dir_at r0 cp"
    "b \<notin> fst ` set es" "fdata g = acc"
  shows "wp (copy_body (cp @ [t, b]) acc cs fin) (\<lambda>x w'. quiet w w' \<and>
      (\<exists>g'. root w' = put (cp @ [t]) (Some (Dir i (es @ [(b, Reg g')]))) r0 \<and>
       (case x of Inl e \<Rightarrow> calm w \<longrightarrow> fin \<noteq> Eof
        | Inr d \<Rightarrow> fin = Eof \<and> d = acc @ concat cs \<and> fdata g' = d))) w"
  using assms
proof (induction cs arbitrary: acc w g)
  case Nil
  then show ?case by (auto simp: wp_rules qt.step_refl intro!: exI)
next
  case (Cons c cs)
  show ?case
  proof (cases "ctx_done (tock w)")
    case True
    then show ?thesis using Cons.prems by (auto simp: wp_rules intro!: exI)
  next
    case False
    have w: "wp (write_out (cp @ [t, b]) c) (\<lambda>x w'. quiet (tock w) w' \<and>
      (\<exists>g'. root w' = put (cp @ [t]) (Some (Dir i (es @ [(b, Reg g')]))) r0 \<and>
       (case x of Inl e \<Rightarrow> \<not> calm (tock w) | Inr _ \<Rightarrow> fdata g' = fdata g @ c))) (tock w)"
      using Cons.prems by (intro write_out_in) auto
    show ?thesis
      apply (simp add: wp_rules False)
      apply (rule wp_mono [OF w])
      subgoal for x w'
        apply (cases x)
        apply (auto simp: wp_rules intro: qt.step_trans [OF quiet_tock] dest: quiet_calm)[1]
        apply clarsimp
        apply (rule wp_mono [OF Cons.IH])
        using Cons.prems(2-4)
        apply (auto simp: quiet_calm dest: qt.step_trans [OF quiet_tock] intro: qt.step_trans split: sum.splits)
        done
      done
  qed
qed

lemma extract_file_in:
  assumes "root w = put (cp @ [t]) (Some (Dir i es)) r0" "dir_at r0 cp" "clean_path cp" "plain t" "plain b"
  shows "wp (extract_file (cp @ [t]) b en) (\<lambda>x w'. quiet w w' \<and>
      (\<exists>es'. root w' = put (cp @ [t]) (Some (Dir i es')) r0 \<and>
       (case x of Inl e \<Rightarrow> calm w \<longrightarrow> te_end en \<noteq> Eof \<or> b \<in> fst ` set es
        | Inr f \<Rightarrow> te_end en = Eof \<and> b \<notin> fst ` set es \<and> f = file_of (b, concat (te_chunks en)) \<and>
            (\<exists>g. es' = es @ [(b, Reg g)] \<and> fdata g = concat (te_chunks en))))) w"
  unfolding extract_file_def wp_bind
proof (rule wp_mono [OF create_in [OF assms]], goal_cases)
  case (1 x w1)
  show ?case
  proof (cases x)
    case (Inl e)
    then show ?thesis using 1 assms by (auto simp: wp_rules)
  next
    case (Inr u)
    with 1 obtain g where b: "b \<notin> fst ` set es" and q: "quiet w w1" and g: "fdata g = []"
      and r: "root w1 = put (cp @ [t]) (Some (Dir i (es @ [(b, Reg g)]))) r0" by auto
    show ?thesis
      unfolding Inr sum.case join_in [OF assms(3-5)] wp_bind
    proof (rule wp_mono [OF copy_body_in [OF r assms(2) b g]], goal_cases)
      case (1 y w2)
      then show ?case
        using q b by (auto simp: wp_close wp_rules quiet_calm file_of_def
            intro: qt.step_trans qt.step_trans [OF qt.step_trans [OF q] quiet_tock]
            split: option.splits sum.splits)
    qed
  qed
qed

lemma extract_entry_in:
  assumes "root w = put (cp @ [t]) (Some (Dir i es)) r0" "dir_at r0 cp" "clean_path cp" "plain t"
  shows "wp (extract_entry (cp @ [t]) en) (\<lambda>x w'. quiet w w' \<and>
      (\<exists>es'. root w' = put (cp @ [t]) (Some (Dir i es')) r0 \<and>
       (case x of Inl e \<Rightarrow> calm w \<longrightarrow> \<not> entry_ok en \<or> \<not> skipped en \<and> base (te_name en) \<in> fst ` set es
        | Inr None \<Rightarrow> es' = es \<and> skipped en
        | Inr (Some f) \<Rightarrow> entry_ok en \<and> \<not> skipped en \<and> base (te_name en) \<notin> fst ` set es \<and>
            f = file_of (base (te_name en), concat (te_chunks en)) \<and>
            (\<exists>g. es' = es @ [(base (te_name en), Reg g)] \<and> fdata g = concat (te_chunks en))))) w"
  (is "wp _ ?Q w")
proof -
  let ?b = "base (te_name en)"
  consider (skip) "skipped en" | (kind) "\<not> skipped en" "te_flag en \<noteq> type_reg" "te_flag en \<noteq> type_cont"
    | (bad) "\<not> skipped en" "te_flag en = type_reg \<or> te_flag en = type_cont" "\<not> plain ?b"
    | (good) "\<not> skipped en" "te_flag en = type_reg \<or> te_flag en = type_cont" "plain ?b"
    by blast
  then show ?thesis
  proof cases
    case skip
    then show ?thesis using assms(1) plain_sentinel_name
      by (auto simp: extract_entry_def skipped_def wp_rules qt.step_refl Let_def plain_def flag_defs)
  next
    case kind
    then show ?thesis using assms(1)
      by (auto simp: extract_entry_def skipped_def wp_rules qt.step_refl entry_ok_def)
  next
    case bad
    then show ?thesis using assms(1) base_cases [of "te_name en"]
      by (auto simp: extract_entry_def skipped_def wp_rules qt.step_refl entry_ok_def Let_def flag_defs)
  next
    case good
    then have e: "extract_entry (cp @ [t]) en = do {
          r \<leftarrow> extract_file (cp @ [t]) ?b en;
          State_Monad.return (case r of Inl e \<Rightarrow> Inl e | Inr f \<Rightarrow> Inr (Some f)) }"
      by (auto simp: extract_entry_def skipped_def plain_def Let_def flag_defs)
    show ?thesis
      unfolding e wp_bind
    proof (rule wp_mono [OF extract_file_in [OF assms good(3)]], goal_cases)
      case (1 x w')
      then show ?case using good by (auto simp: wp_rules entry_ok_def split: sum.splits)
    qed
  qed
qed

subsection \<open>The loop over the archive\<close>

text \<open>What the rest of an archive must be for the loop to go through, when the names \<open>ns\<close> are
  taken.\<close>

definition fits :: "string set \<Rightarrow> tar_entry list \<Rightarrow> err \<Rightarrow> bool" where
  "fits ns ens fin \<longleftrightarrow> acceptable ens fin \<and> fst ` set (wanted ens) \<inter> ns = {}"

lemma fits_simps:
  "fits ns [] fin = (fin = Eof)"
  "fits ns (en # ens) fin = (entry_ok en \<and>
     (if skipped en then fits ns ens fin
      else base (te_name en) \<notin> ns \<and> fits (insert (base (te_name en)) ns) ens fin))"
  by (auto simp: fits_def acceptable_def)

lemma extract_entries_nil:
  assumes "root w = put (cp @ [t]) (Some (Dir i es)) r0"
  shows "wp (extract_entries (cp @ [t]) files [] fin) (\<lambda>x w'. quiet w w' \<and> root w' = root w \<and>
      (case x of Inl e \<Rightarrow> calm w \<longrightarrow> fin \<noteq> Eof | Inr fs \<Rightarrow> fin = Eof \<and> fs = files)) w"
  using assms by (auto simp: wp_rules intro: qt.step_trans [OF quiet_tock quiet_tock] split: option.split)

lemma extract_entries_in:
  assumes "root w = put (cp @ [t]) (Some (Dir i es)) r0" "dir_at r0 cp" "clean_path cp" "plain t"
  shows "wp (extract_entries (cp @ [t]) files ens fin) (\<lambda>x w'. quiet w w' \<and>
      (\<exists>es'. root w' = put (cp @ [t]) (Some (Dir i es')) r0 \<and>
       (case x of Inl e \<Rightarrow> calm w \<longrightarrow> \<not> fits (fst ` set es) ens fin
        | Inr fs \<Rightarrow> fits (fst ` set es) ens fin \<and> fs = files @ map file_of (wanted ens) \<and>
            (\<exists>new. es' = es @ new \<and> stored (wanted ens) new)))) w"
  using assms(1)
proof (induction ens arbitrary: w es files)
  case Nil
  show ?case
    by (rule wp_mono [OF extract_entries_nil [OF Nil]])
      (use Nil in \<open>auto simp: fits_simps split: sum.splits\<close>)
next
  case (Cons en ens)
  show ?case
  proof (cases "ctx_done (tock w) \<or> ctx_done (tock (tock w))")
    case True
    then show ?thesis using Cons.prems
      by (auto simp: wp_rules intro: qt.step_trans [OF quiet_tock quiet_tock])
  next
    case False
    let ?w = "tock (tock w)"
    have q0: "quiet w ?w" by (rule qt.step_trans [OF quiet_tock quiet_tock])
    have r: "root ?w = put (cp @ [t]) (Some (Dir i es)) r0" using Cons.prems by simp
    have e: "wp (extract_entries (cp @ [t]) files (en # ens) fin) Q w =
        wp (extract_entry (cp @ [t]) en) (\<lambda>r. wp (case r of
             Inl e \<Rightarrow> State_Monad.return (Inl e)
           | Inr None \<Rightarrow> if te_end en = Eof then extract_entries (cp @ [t]) files ens fin
                         else extract_entries (cp @ [t]) files [] (te_end en)
           | Inr (Some f) \<Rightarrow> extract_entries (cp @ [t]) (files @ [f]) ens fin) Q) ?w" for Q
      using False by (simp only: extract_entries.simps wp_rules) simp
    show ?thesis
      unfolding e
    proof (rule wp_mono [OF extract_entry_in [OF r assms(2-4)]], goal_cases)
      case (1 x w1)
      have q: "quiet w w1" using 1 q0 by (blast intro: qt.step_trans)
      consider (err) e where "x = Inl e" | (skip) "x = Inr None" | (ok) f where "x = Inr (Some f)"
        by (metis sum.exhaust_sel option.exhaust_sel)
      then show ?case
      proof cases
        case err
        then show ?thesis using 1 q by (auto simp: wp_rules fits_simps)
      next
        case skip
        with 1 have r1: "root w1 = put (cp @ [t]) (Some (Dir i es)) r0" and s: "skipped en" by auto
        show ?thesis
        proof (cases "te_end en = Eof")
          case True
          with s have ok: "entry_ok en" by (simp add: entry_ok_def)
          show ?thesis
            unfolding skip using s ok q True
            by (auto simp: fits_simps quiet_calm intro!: wp_mono [OF Cons.IH [OF r1]] intro: qt.step_trans
                split: sum.splits)
        next
          case False
          then have "\<not> entry_ok en" by (simp add: entry_ok_def)
          with False q r1 show ?thesis
            unfolding skip
            by (auto simp del: extract_entries.simps simp: fits_simps intro!: wp_mono [OF extract_entries_nil [OF r1]] intro: qt.step_trans split: sum.splits)
        qed
      next
        case ok
        with 1 obtain g where g: "root w1 = put (cp @ [t]) (Some (Dir i (es @ [(base (te_name en), Reg g)]))) r0"
          "entry_ok en" "\<not> skipped en" "base (te_name en) \<notin> fst ` set es"
          "f = file_of (base (te_name en), concat (te_chunks en))" "fdata g = concat (te_chunks en)" by auto
        note IH = Cons.IH [OF g(1), of "files @ [f]"]
        have cal: "calm w1 = calm w" using q by (rule quiet_calm)
        show ?thesis
          unfolding ok sum.case option.case
        proof (rule wp_mono [OF IH], goal_cases)
          case (1 y w2)
          then obtain es' where es': "root w2 = put (cp @ [t]) (Some (Dir i es')) r0" "quiet w1 w2"
            and y: "case y of Inl e \<Rightarrow> calm w1 \<longrightarrow> \<not> fits (fst ` set (es @ [(base (te_name en), Reg g)])) ens fin
              | Inr fs \<Rightarrow> fits (fst ` set (es @ [(base (te_name en), Reg g)])) ens fin
                  \<and> fs = (files @ [f]) @ map file_of (wanted ens)
                  \<and> (\<exists>new. es' = (es @ [(base (te_name en), Reg g)]) @ new \<and> stored (wanted ens) new)"
            by blast
          from q es'(2) have "quiet w w2" by (rule qt.step_trans)
          moreover from y g cal have "case y of Inl e \<Rightarrow> calm w \<longrightarrow> \<not> fits (fst ` set es) (en # ens) fin
              | Inr fs \<Rightarrow> fits (fst ` set es) (en # ens) fin \<and> fs = files @ map file_of (wanted (en # ens))
                  \<and> (\<exists>new. es' = es @ new \<and> stored (wanted (en # ens)) new)"
            by (cases y) (auto simp: fits_simps)
          ultimately show ?case using es'(1) by blast
        qed
      qed
    qed
  qed
qed

subsection \<open>The swap\<close>

lemma along_looks_replaceable: "along looks (replaceable p owner)"
  by (auto simp: replaceable_def Let_def intro!: look.along_intros along_queries)

text \<open>What a removal may leave of an entry: all of it, nothing, or a part.\<close>

definition leaves :: "node option \<Rightarrow> node option \<Rightarrow> bool" where
  "leaves v v' \<longleftrightarrow> v' = v \<or> v' = None \<or> (\<exists>n keeps. v = Some n \<and> v' = Some (partly_removed n keeps))"

lemma leaves_refl [simp]: "leaves v v" and leaves_None [simp]: "leaves v None"
  by (simp_all add: leaves_def)

lemma upd_id: "map_of es c = v \<Longrightarrow> upd c v es = es"
  by (cases v) (simp_all add: update_triv)

lemma with_entries_upd_id:
  "dir_at r p \<Longrightarrow> v = map_of es c \<Longrightarrow> with_entries r p (upd c v es) = with_entries r p es"
  by (simp add: upd_id)

lemma remove_all_in:
  assumes "root w = with_entries r0 cp rs" "dir_at r0 cp" "clean_path cp" "plain c"
  shows "wp (remove_all (cp @ [c])) (\<lambda>x w'. quiet w w' \<and>
      (\<exists>v. root w' = with_entries r0 cp (upd c v rs) \<and> leaves (map_of rs c) v \<and>
       (case x of Inl e \<Rightarrow> \<not> calm w | Inr _ \<Rightarrow> v = None))) w"
  (is "wp ?m (\<lambda>x w'. quiet w w' \<and> ?Q x w') w")
proof -
  have "wp ?m ?Q w"
  proof (cases "faults w (tick w)")
    case None
    with assms show ?thesis
      by (auto simp: remove_all_def wp_mutate path_simps intro!: exI [of _ None])
  next
    case (Some ft)
    have nc: "\<not> calm w" using Some by (auto simp: calm_def)
    show ?thesis
    proof (cases "map_of rs c")
      case None
      with Some assms nc show ?thesis
        by (auto simp: remove_all_def wp_mutate path_simps upd_id intro!: exI [of _ None])
    next
      case (Some n)
      with \<open>faults w (tick w) = Some ft\<close> assms nc show ?thesis
        by (auto simp: remove_all_def wp_mutate path_simps leaves_def
            intro!: exI [of _ "Some (partly_removed n (fsurvives ft))"])
    qed
  qed
  then show ?thesis by (rule wp_quietI [OF along_quiet_changes(7)])
qed

lemma rename_in:
  assumes "root w = with_entries r0 cp rs" "dir_at r0 cp" "clean_path cp" "plain t" "plain c" "t \<noteq> c"
    "map_of rs t = Some n" "map_of rs c = None" "\<forall>l. n \<noteq> Link l"
  shows "wp (rename (cp @ [t]) (cp @ [c])) (\<lambda>x w'. quiet w w' \<and> (case x of
      Inl e \<Rightarrow> root w' = root w \<and> \<not> calm w
    | Inr _ \<Rightarrow> root w' = with_entries r0 cp (upd c (Some n) (upd t None rs)))) w"
  (is "wp ?m (\<lambda>x w'. quiet w w' \<and> ?Q x w') w")
proof -
  have "wp ?m ?Q w"
    using assms by (auto simp: rename_def wp_mutate path_simps split: option.split)
  then show ?thesis by (rule wp_quietI [OF along_quiet_changes(5)])
qed

lemma write_sentinel_in:
  assumes "root w = put (cp @ [t]) (Some (Dir i es)) r0" "dir_at r0 cp" "clean_path cp" "plain t"
    "plain b" "b \<notin> fst ` set es"
  shows "wp (write_file (join (cp @ [t]) b) d) (\<lambda>x w'. quiet w w' \<and>
      (\<exists>es'. root w' = put (cp @ [t]) (Some (Dir i es')) r0 \<and>
       (case x of Inl e \<Rightarrow> \<not> calm w | Inr _ \<Rightarrow> \<exists>g. es' = es @ [(b, Reg g)] \<and> fdata g = d))) w"
  (is "wp ?m (\<lambda>x w'. quiet w w' \<and> ?Q x w') w")
proof -
  have m: "map_of es b = None" using assms(6) by (simp add: map_of_eq_None_iff)
  have o: "overwrite (join (cp @ [t]) b) d w' = Inr ((put_root (cp @ [t, b]) (Some (Reg (new_file w' d))) w')
        \<lparr>next_ino := Suc (next_ino w')\<rparr>)" if "root w' = root w" for d w'
    using assms m that by (simp add: overwrite_def path_simps)
  have "wp ?m ?Q w"
    using assms(1,2,6) by (auto simp: write_file_def wp_mutate o put_grandchild AList_update_fresh split: option.split)
  then show ?thesis by (rule wp_quietI [OF along_quiet_changes(4)])
qed

text \<open>Who may replace what: \<open>direct\<close> excludes links, whose target would decide.\<close>

definition direct :: "node option \<Rightarrow> bool" where
  "direct v = (case v of
     Some (Link l) \<Rightarrow> False
   | Some (Dir k fs) \<Rightarrow> (\<forall>l. map_of fs sentinel_name \<noteq> Some (Link l))
   | _ \<Rightarrow> True)"

definition may_replace :: "node option \<Rightarrow> string \<Rightarrow> bool" where
  "may_replace v owner = (case v of
     None \<Rightarrow> True
   | Some (Dir k fs) \<Rightarrow> owner = owner_agent \<or> map_of fs sentinel_name \<noteq> None
   | Some _ \<Rightarrow> owner = owner_agent)"

lemma stat_sentinel_at:
  assumes "dir_at r cp" "clean_path cp" "plain name" "direct (map_of (entries_at r cp) name)"
  shows "stat_in r (cp @ [name, sentinel_name]) = (case map_of (entries_at r cp) name of
      None \<Rightarrow> Inl (Sys ENOENT)
    | Some (Dir k fs) \<Rightarrow> (case map_of fs sentinel_name of None \<Rightarrow> Inl (Sys ENOENT) | Some n \<Rightarrow> Inr n)
    | Some _ \<Rightarrow> Inl (Sys ENOTDIR))"
  using assms node_at_below [OF assms(1-3) plain_sentinel_name, of _ _ True]
    resolve_below_absent [OF assms(1-3), of True sentinel_name]
    resolve_below_file [OF assms(1-3), of _ True sentinel_name]
  by (auto simp: stat_in_def lift_errno_def direct_def node_at_def lookup_entries split: option.splits node.splits)

lemma replaceable_in:
  assumes "dir_at (root w) cp" "clean_path cp" "plain name" "direct (map_of (entries_at (root w) cp) name)"
    "honest w"
  shows "wp (replaceable (cp @ [name]) owner) (\<lambda>x w'.
      (x = None \<longrightarrow> may_replace (map_of (entries_at (root w) cp) name) owner) \<and>
      (calm w \<longrightarrow> may_replace (map_of (entries_at (root w) cp) name) owner \<longrightarrow> x = None)) w"
proof -
  have s: "lstat_in (root w) (cp @ [name]) =
      (case map_of (entries_at (root w) cp) name of None \<Rightarrow> Inl (Sys ENOENT) | Some n \<Rightarrow> Inr n)"
    using assms by (simp add: lstat_in_def lift_errno_def node_at_entry lookup_entries split: option.split)
  have h: "ferr ft \<noteq> ENOENT" "ferr ft \<noteq> ENOTDIR" "ferr ft \<noteq> ELOOP" if "faults w t = Some ft" for t ft
    using honestD [OF assms(5) that] machine_errno_not by auto
  show ?thesis
  proof (cases "faults w (tick w)")
    case (Some ft)
    then show ?thesis
      using h [OF Some] by (auto simp: replaceable_def wp_rules wp_lstat calm_def)
  next
    case None
    note lstat_now = None
    show ?thesis
    proof (cases "map_of (entries_at (root w) cp) name")
      case None
      then show ?thesis by (simp add: replaceable_def wp_rules wp_lstat lstat_now s may_replace_def)
    next
      case (Some n)
      show ?thesis
      proof (cases "faults w (Suc (tick w))")
        case (Some ft)
        then show ?thesis
          using h [OF Some] \<open>map_of (entries_at (root w) cp) name = Some n\<close>
          by (cases n) (auto simp: replaceable_def wp_rules wp_lstat wp_stat lstat_now s may_replace_def
              no_directory_def join_in assms(2,3) Let_def calm_def)
      next
        case None
        then show ?thesis
          using Some assms(4)
          by (cases n) (auto simp: replaceable_def wp_rules wp_lstat wp_stat lstat_now s may_replace_def
              no_directory_def join_in assms(2,3) Let_def stat_sentinel_at [OF assms(1-4)] direct_def
              split: option.split)
      qed
    qed
  qed
qed

text \<open>The tree while the temporary directory \<open>t\<close> is there, as entries of the cache path.\<close>

lemma temp_entries:
  "dir_at r cp \<Longrightarrow> map_of (entries_at r cp) t = None \<Longrightarrow>
   put (cp @ [t]) (Some (Dir i es)) r = with_entries r cp (entries_at r cp @ [(t, Dir i es)])"
  by (simp add: put_as_entries AList_update_fresh map_of_eq_None_iff)

lemma map_of_temp:
  "map_of rs t = None \<Longrightarrow> map_of (rs @ [(t, n)]) c = (if c = t then Some n else map_of rs c)"
  by (auto simp: map_add_def split: option.split)

lemma update_after_delete: "AList.update c n (AList.delete c es) = AList.delete c es @ [(c, n)]"
  by (rule AList_update_fresh) (auto simp: AList.delete_eq)

text \<open>The files of a directory with the digests recorded for them.\<close>

definition files_in :: "file_rec list \<Rightarrow> (string \<times> node) list \<Rightarrow> bool" where
  "files_in fs es \<longleftrightarrow> (\<forall>f\<in>set fs. plain (fr_name f) \<and>
     (\<exists>g. map_of es (fr_name f) = Some (Reg g) \<and> fr_digest f = sum_of (fdata g)))"

lemma stat_in_dir:
  assumes "dir_at r cp" "clean_path cp" "plain name" "plain f" "map_of (entries_at r cp) name = Some (Dir i es)"
    "map_of es f = Some (Reg g)"
  shows "stat_in r (cp @ [name, f]) = Inr (Reg g)"
  using node_at_below [OF assms(1-5), of True] assms(6) by (simp add: stat_in_def lift_errno_def)

lemma publish_swap:
  assumes r: "root w = with_entries r0 cp (rs @ [(t, Dir i es)])"
    and d: "dir_at r0 cp" "clean_path cp" "plain t" "plain name" "t \<noteq> name" "map_of rs t = None"
    and fs: "files_in files es"
  shows "wp (do {
       y \<leftarrow> remove_all (cp @ [name]);
       case y of
         Inl e \<Rightarrow> State_Monad.return (Some (Wrap ErrExtract (Some e) ''clearing the previous directory''))
       | Inr _ \<Rightarrow> do {
           forget (cp @ [name]);
           z \<leftarrow> rename (cp @ [t]) (cp @ [name]);
           case z of
             Inl e \<Rightarrow> State_Monad.return (Some (Wrap ErrExtract (Some e) ''swapping the directory into place''))
           | Inr _ \<Rightarrow> do { remember (cp @ [name]) files; State_Monad.return None } } })
     (\<lambda>x w'. same_env w w' \<and> locks w' = locks w \<and> (case x of
         None \<Rightarrow> root w' = with_entries r0 cp (AList.delete name rs @ [(name, Dir i es)]) \<and>
           truthful_under (cp @ [name]) w'
       | Some e \<Rightarrow> \<not> calm w \<and> (\<exists>v. leaves (map_of rs name) v \<and>
           root w' = with_entries r0 cp (upd name v (rs @ [(t, Dir i es)]))))) w"
  unfolding wp_bind
proof (rule wp_mono [OF remove_all_in [OF r d(1,2,4)]], goal_cases)
  case (1 y w1)
  note l = map_of_temp [OF d(6), of "Dir i es"]
  obtain v where v: "root w1 = with_entries r0 cp (upd name v (rs @ [(t, Dir i es)]))" "leaves (map_of rs name) v"
    "case y of Inl e \<Rightarrow> \<not> calm w | Inr _ \<Rightarrow> v = None" and q: "same_env w w1" "locks w1 = locks w"
    using 1 d(5) l by (auto simp: quiet_def)
  show ?case
  proof (cases y)
    case (Inl e)
    then show ?thesis using v q by (auto simp: wp_rules)
  next
    case (Inr u)
    let ?rs = "AList.delete name (rs @ [(t, Dir i es)])"
    have r1: "root w1 = with_entries r0 cp ?rs" using v(1,3) Inr by simp
    have m: "map_of ?rs t = Some (Dir i es)" "map_of ?rs name = None"
      using d(5) l by simp_all
    have fin: "upd name (Some (Dir i es)) (upd t None ?rs) = AList.delete name rs @ [(name, Dir i es)]"
      using d(5,6) by (simp add: delete_append update_after_delete)
    have forgets: "wp (forget (cp @ [name])) (\<lambda>_ w2. tends w1 w2 \<and> memory w2 = map_option (forget_under (cp @ [name])) (memory w1)) w1"
      by (simp add: forget_def wp_modify tends_def env.step_refl)
    show ?thesis
      unfolding Inr sum.case wp_bind
    proof (rule wp_mono [OF forgets], goal_cases)
      case (1 _ w2)
      then have tr2: "\<And>c p. memory w2 = Some c \<Longrightarrow> strict_prefix (cp @ [name]) p \<Longrightarrow> sentries c p = None" and r2: "root w2 = with_entries r0 cp ?rs" and q2: "same_env w w2" "locks w2 = locks w"
        using r1 q by (auto simp: tends_def forget_under_def intro: env.step_trans)
      show ?case
      proof (rule wp_mono [OF rename_in [OF r2 d(1-4) d(5) m]], goal_cases)
        case 1 then show ?case by simp
      next
        case (2 z w3)
        then have q3: "same_env w w3" "locks w3 = locks w"
          using q2 by (auto simp: quiet_def intro: env.step_trans)
        show ?case
        proof (cases z)
          case (Inl e)
          then show ?thesis using 2 q3 r2 d(6) l same_env_calm [OF q2(1)]
            by (auto simp: wp_rules intro!: exI [of _ None])
        next
          case (Inr u)
          then have r3: "root w3 = with_entries r0 cp (AList.delete name rs @ [(name, Dir i es)])"
            using 2 fin by simp
          have "memory w3 = memory w2" using 2 by (simp add: quiet_def)
          with tr2 have tr3: "truthful_under (cp @ [name]) w3" by (auto simp: truthful_under_def)
          have e3: "map_of (entries_at (root w3) cp) name = Some (Dir i es)"
            using r3 d(1) by (simp add: entries_with_entries map_add_def)
          have d3: "dir_at (root w3) cp" using r3 d(1) by (simp add: dir_at_with_entries)
          have sums: "\<forall>f\<in>set files. \<forall>g. stat_in (root w3) (join (cp @ [name]) (fr_name f)) = Inr (Reg g)
              \<longrightarrow> fr_digest f = sum_of (fdata g)"
            using fs d(2,4) stat_in_dir [OF d3 d(2,4) _ e3] by (fastforce simp: files_in_def join_in)
          have "wp (remember (cp @ [name]) files) (\<lambda>_ w4. truthful_under (cp @ [name]) w4 \<and> tends w3 w4) w3"
            by (simp add: wp_conj td.along_wp [OF along_tends_remember] remember_true [OF tr3 sums])
          then show ?thesis
            unfolding Inr sum.case wp_bind
            by (rule wp_mono) (use q3 r3 in \<open>auto simp: wp_rules tends_def intro: env.step_trans\<close>)
        qed
      qed
    qed
  qed
qed

lemma publish_in:
  assumes r: "root w = put (cp @ [t]) (Some (Dir i es)) r0"
    and d: "dir_at r0 cp" "clean_path cp" "plain t" "plain name" "t \<noteq> name" "map_of (entries_at r0 cp) t = None"
    and s: "sentinel_name \<notin> fst ` set es" and h: "honest w" and fs: "files_in files es"
  shows "wp (publish cp name rec (cp @ [t]) files) (\<lambda>x w'. same_env w w' \<and> locks w' = locks w \<and> (case x of
      None \<Rightarrow> (\<exists>g. fdata g = marshal (sentinel_for rec files) \<and>
          root w' = with_entries r0 cp (AList.delete name (entries_at r0 cp) @ [(name, Dir i (es @ [(sentinel_name, Reg g)]))])) \<and>
        truthful_under (cp @ [name]) w' \<and>
        (direct (map_of (entries_at r0 cp) name) \<longrightarrow> may_replace (map_of (entries_at r0 cp) name) (rec_owner rec))
    | Some e \<Rightarrow> (\<exists>v es'. leaves (map_of (entries_at r0 cp) name) v \<and> (calm w \<longrightarrow> v = map_of (entries_at r0 cp) name) \<and>
          (direct (map_of (entries_at r0 cp) name) \<longrightarrow>
            v = map_of (entries_at r0 cp) name \<or> may_replace (map_of (entries_at r0 cp) name) (rec_owner rec)) \<and>
          root w' = with_entries r0 cp (upd name v (entries_at r0 cp @ [(t, Dir i es')]))) \<and>
        (calm w \<and> direct (map_of (entries_at r0 cp) name) \<longrightarrow>
          \<not> may_replace (map_of (entries_at r0 cp) name) (rec_owner rec)))) w"
  (is "wp _ (\<lambda>x w'. same_env w w' \<and> locks w' = locks w \<and> ?Q x w') w")
  unfolding publish_def wp_bind
proof (rule wp_mono [OF write_sentinel_in [OF r d(1-3) plain_sentinel_name s]], goal_cases)
  case (1 x w1)
  let ?rs = "entries_at r0 cp"
  obtain es1 where r1: "root w1 = with_entries r0 cp (?rs @ [(t, Dir i es1)])"
    and x: "case x of Inl e \<Rightarrow> \<not> calm w | Inr _ \<Rightarrow> \<exists>g. es1 = es @ [(sentinel_name, Reg g)] \<and> fdata g = marshal (sentinel_for rec files)"
    using 1 temp_entries [OF d(1,6)] by auto
  have q: "same_env w w1" "locks w1 = locks w" using 1 by (auto simp: quiet_def)
  note l = map_of_temp [OF d(6), of "Dir i es1" name]
  have old: "upd name (map_of ?rs name) (?rs @ [(t, Dir i es1)]) = ?rs @ [(t, Dir i es1)]"
    using d(5) l by (intro upd_id) auto
  show ?case
  proof (cases x)
    case (Inl e)
    have "\<exists>v es'. leaves (map_of ?rs name) v \<and> (calm w \<longrightarrow> v = map_of ?rs name) \<and> (direct (map_of ?rs name) \<longrightarrow>
            v = map_of ?rs name \<or> may_replace (map_of ?rs name) (rec_owner rec))
        \<and> root w1 = with_entries r0 cp (upd name v (?rs @ [(t, Dir i es')]))"
      using r1 old by (metis leaves_refl)
    then show ?thesis using Inl x q by (simp add: wp_rules)
  next
    case (Inr u)
    with x obtain g where g: "es1 = es @ [(sentinel_name, Reg g)]" "fdata g = marshal (sentinel_for rec files)" by auto
    have e1: "entries_at (root w1) cp = ?rs @ [(t, Dir i es1)]"
      using r1 d(1) by (simp add: entries_with_entries)
    have fs1: "files_in files es1" using fs g(1) by (fastforce simp: files_in_def)
    have d1: "dir_at (root w1) cp" using r1 d(1) by (simp add: dir_at_with_entries)
    have m1: "map_of (entries_at (root w1) cp) name = map_of ?rs name" using e1 l d(5) by simp
    have dir: "store_dir cp name = cp @ [name]" using d by (simp add: store_dir_def join_plain)
    have repl: "wp (replaceable (cp @ [name]) (rec_owner rec)) (\<lambda>y w2. looks w1 w2 \<and>
        (direct (map_of ?rs name) \<longrightarrow> (y = None \<longrightarrow> may_replace (map_of ?rs name) (rec_owner rec)) \<and>
          (calm w \<longrightarrow> may_replace (map_of ?rs name) (rec_owner rec) \<longrightarrow> y = None))) w1"
    proof (cases "direct (map_of ?rs name)")
      case True
      have "honest w1" using h q(1) same_env_honest by blast
      from replaceable_in [OF d1 d(2,4) _ this] True m1 same_env_calm [OF q(1)] show ?thesis
        by (simp add: wp_conj look.along_wp [OF along_looks_replaceable])
    next
      case False
      then show ?thesis by (simp add: look.along_wp [OF along_looks_replaceable])
    qed
    show ?thesis
      unfolding Inr sum.case dir Let_def wp_bind
    proof (rule wp_mono [OF repl], goal_cases)
      case (1 y w2)
      then have r2: "root w2 = with_entries r0 cp (?rs @ [(t, Dir i es1)])" and q2: "same_env w w2" "locks w2 = locks w"
        using r1 q by (auto simp: looks_def intro: env.step_trans)
      show ?case
      proof (cases y)
        case (Some e)
        have "\<exists>v es'. leaves (map_of ?rs name) v \<and> (calm w \<longrightarrow> v = map_of ?rs name) \<and> (direct (map_of ?rs name) \<longrightarrow>
              v = map_of ?rs name \<or> may_replace (map_of ?rs name) (rec_owner rec))
          \<and> root w2 = with_entries r0 cp (upd name v (?rs @ [(t, Dir i es')]))"
          using r2 old by (metis leaves_refl)
        then show ?thesis using Some 1 q2 by (simp add: wp_rules)
      next
        case None
        note y = this
        show ?thesis
          unfolding None option.case
        proof (rule wp_mono [OF publish_swap [OF r2 d(1-6) fs1]], goal_cases)
          case (1 z w3)
          have m: "direct (map_of ?rs name) \<longrightarrow> may_replace (map_of ?rs name) (rec_owner rec)"
            using y \<open>looks w1 w2 \<and> _\<close> by simp
          have q3: "same_env w w3" "locks w3 = locks w" using 1 q2 by (auto intro: env.step_trans)
          show ?case
          proof (cases z)
            case None
            then show ?thesis using 1 q3 g m by auto
          next
            case (Some e)
            then show ?thesis using 1 q3 m same_env_calm [OF q2(1)] by auto
          qed
        qed
      qed
    qed
  qed
qed

subsection \<open>The temporary directory\<close>

definition temp_name :: "string \<Rightarrow> nat \<Rightarrow> string" where
  "temp_name name k = temp_prefix name @ digits k"

lemma slash_not_digit: "slash \<notin> set (digits k)"
  using digits_are_digits [of slash k] by (auto simp: is_digit_def)

lemma plain_temp: "plain name \<Longrightarrow> plain (temp_name name k)"
  by (auto simp: plain_def temp_name_def temp_prefix_def slash_not_digit)

lemma temp_name_ne: "temp_name name k \<noteq> name"
proof
  assume "temp_name name k = name"
  then have "length (temp_name name k) = length name" by simp
  then show False by (simp add: temp_name_def temp_prefix_def)
qed

lemma mkdir_in:
  assumes "dir_at (root w) cp" "clean_path cp" "plain n"
  shows "wp (mkdir (join cp n)) (\<lambda>x w'. quiet w w' \<and> (case x of
      Inl e \<Rightarrow> root w' = root w \<and> (calm w \<longrightarrow> map_of (entries_at (root w) cp) n \<noteq> None)
    | Inr _ \<Rightarrow> map_of (entries_at (root w) cp) n = None \<and> (\<exists>i. root w' = put (cp @ [n]) (Some (Dir i [])) (root w)))) w"
  (is "wp ?m (\<lambda>x w'. quiet w w' \<and> ?Q x w') w")
proof -
  have l: "lookup (root w) (cp @ [n]) = map_of (entries_at (root w) cp) n"
    using assms(1) by (simp add: lookup_entries split: option.split)
  have "wp ?m ?Q w"
    using assms by (auto simp: mkdir_def wp_mutate path_simps l split: option.split)
  then show ?thesis by (rule wp_quietI [OF along_quiet_changes(1)])
qed

definition fresh_draws :: "'m world \<Rightarrow> path \<Rightarrow> string \<Rightarrow> bool" where
  "fresh_draws w cp name \<longleftrightarrow> (\<forall>t. map_of (entries_at (root w) cp) (temp_name name (rnd w t)) = None)"

lemma mkdir_temp_in:
  assumes "dir_at (root w) cp" "clean_path cp" "plain name"
  shows "wp (mkdir_temp_from n cp (temp_prefix name)) (\<lambda>x w'. quiet w w' \<and> (case x of
      Inl e \<Rightarrow> root w' = root w \<and> (calm w \<longrightarrow> \<not> fresh_draws w cp name)
    | Inr n \<Rightarrow> (\<exists>k. n = temp_name name k) \<and> map_of (entries_at (root w) cp) n = None \<and>
        (\<exists>i. root w' = put (cp @ [n]) (Some (Dir i [])) (root w)))) w"
  using assms(1)
proof (induction n arbitrary: w)
  case 0
  show ?case
    apply (subst mkdir_temp_from.simps)
    apply (simp add: wp_rules Let_def flip: temp_name_def)
    apply (rule wp_mono [OF mkdir_in [OF 0 assms(2) plain_temp [OF assms(3)]]])
    apply (auto simp: wp_rules wp_stat fresh_draws_def intro: qt.step_trans [OF _ quiet_tock] split: sum.splits option.splits)
    done
next
  case (Suc n)
  show ?case
    apply (subst mkdir_temp_from.simps)
    apply (simp add: wp_rules Let_def flip: temp_name_def)
    apply (rule wp_mono [OF mkdir_in [OF Suc.prems assms(2) plain_temp [OF assms(3)]]])
    subgoal for x w'
      apply (cases x)
      subgoal for e
        apply (cases "is_exist e")
        subgoal
          apply clarsimp
          apply (rule wp_mono [OF Suc.IH])
          using Suc.prems
          apply (auto simp: fresh_draws_def quiet_def same_env_def split: sum.splits)
          done
        subgoal
          apply (auto simp: wp_rules wp_stat fresh_draws_def intro: qt.step_trans [OF _ quiet_tock] split: sum.splits option.splits)
          done
        done
      subgoal by (auto simp: wp_rules)
      done
    done
qed

lemma is_not_exist_agg_with [simp]: "is_not_exist (agg_with e es) = (is_not_exist e \<or> list_ex is_not_exist (List.map_filter id es))"
  by (simp add: agg_with_def)

lemma stat_temp:
  "dir_at r cp \<Longrightarrow> clean_path cp \<Longrightarrow> plain t \<Longrightarrow>
   stat_in (put (cp @ [t]) (Some (Dir i es)) r) (cp @ [t]) = Inr (Dir i es)"
  by (simp add: stat_in_def lift_errno_def node_at_def resolve_dir dir_at_put_dir lookup_put_same)

lemma lock_temporary_in:
  assumes "root w = put (cp @ [t]) (Some (Dir i es)) r0" "dir_at r0 cp" "clean_path cp" "plain t" "honest w"
  shows "wp (lock_temporary (cp @ [t])) (\<lambda>x w'. same_env w w' \<and> root w' = root w \<and> (case x of
      Inl e \<Rightarrow> \<not> calm w \<and> \<not> is_not_exist e \<and> locks w' \<subseteq> locks w
    | Inr j \<Rightarrow> j = i \<and> locks w' = insert i (locks w))) w"
proof -
  have h: "ferr ft \<noteq> ENOENT" if "faults w t = Some ft" for t ft
    using honestD [OF assms(5) that] machine_errno_not by auto
  show ?thesis
    using stat_temp [OF assms(2-4), of i es] assms(1) h
    by (auto simp: lock_temporary_def open_inode_def flock_def close_locked_def wp_rules wp_stat wp_close calm_def
        same_env_def unlock_def List.map_filter_simps
        split: option.split)
qed

lemma create_temporary_in:
  assumes "dir_at (root w) cp" "clean_path cp" "plain name" "honest w" "before_lock st = None"
  shows "wp (create_temporary_from (Suc n) lost st cp name) (\<lambda>x w'. same_env w w' \<and> (case x of
      Inl e \<Rightarrow> (calm w \<longrightarrow> \<not> fresh_draws w cp name \<and> root w' = root w) \<and> locks w' \<subseteq> locks w \<and>
        (\<exists>k. map_of (entries_at (root w) cp) (temp_name name k) = None \<and>
          (\<exists>v. root w' = put (cp @ [temp_name name k]) v (root w))
         \<or> root w' = root w)
    | Inr (m, i) \<Rightarrow> (\<exists>k. m = temp_name name k) \<and> map_of (entries_at (root w) cp) m = None \<and>
        root w' = put (cp @ [m]) (Some (Dir i [])) (root w) \<and> locks w' = insert i (locks w))) w"
proof -
  have ns: "slash \<notin> set (temp_prefix name)" using assms(3) by (simp add: temp_prefix_def plain_def)
  show ?thesis
    unfolding create_temporary_from.simps mkdir_temp_def if_not_P [OF ns] wp_bind
  proof (rule wp_mono [OF mkdir_temp_in [OF assms(1-3)]], goal_cases)
    case (1 x w1)
    then have q: "same_env w w1" "locks w1 = locks w" by (auto simp: quiet_def)
    show ?case
    proof (cases x)
      case (Inl e)
      then show ?thesis using 1 q by (auto simp: wp_rules)
    next
      case (Inr m)
      with 1 obtain k i where m: "m = temp_name name k" "map_of (entries_at (root w) cp) m = None"
        and r: "root w1 = put (cp @ [m]) (Some (Dir i [])) (root w)" by auto
      have pm: "plain m" using m plain_temp assms(3) by simp
      have h1: "honest w1" using assms(4) q same_env_honest by blast
      show ?thesis
        unfolding Inr sum.case run_hook_def assms(5) option.case wp_bind wp_return join_plain [OF assms(2) pm]
      proof (rule wp_mono [OF lock_temporary_in [OF r assms(1,2) pm h1]], goal_cases)
        case (1 y w2)
        then have q2: "same_env w w2" using q by (auto intro: env.step_trans)
        show ?case
        proof (cases y)
          case (Inr j)
          then show ?thesis using 1 q q2 m r by (auto simp: wp_rules)
        next
          case (Inl e)
          have r2: "root w2 = with_entries (root w) cp (entries_at (root w) cp @ [(m, Dir i [])])"
            using 1 r temp_entries [OF assms(1) m(2)] by simp
          have ne: "\<not> is_not_exist e" using 1 Inl by simp
          show ?thesis
            unfolding Inl sum.case if_not_P [OF ne] wp_bind
          proof (rule wp_mono [OF remove_all_in [OF r2 assms(1,2) pm]], goal_cases)
            case (1 z w3)
            then obtain v where "root w3 = with_entries (root w) cp (upd m v (entries_at (root w) cp @ [(m, Dir i [])]))" by auto
            then have "\<exists>v. root w3 = put (cp @ [m]) v (root w)"
              using r2 by (metis assms(1) m(2) map_of_eq_None_iff put_put put_with_entries r snoc_eq_iff_butlast temp_entries)
            then show ?case
              using 1 \<open>same_env w1 w2 \<and> _\<close> Inl q q2 m same_env_calm [OF q(1)]
              by (auto simp: wp_rules quiet_def intro: env.step_trans)
          qed
        qed
      qed
    qed
  qed
qed

subsection \<open>The whole extraction\<close>

definition whole :: "tar_entry list \<Rightarrow> err \<Rightarrow> bool" where
  "whole ens fin \<longleftrightarrow> acceptable ens fin \<and> wanted ens \<noteq> []"

text \<open>The entries of a published directory.\<close>

definition published :: "cache_record \<Rightarrow> tar_entry list \<Rightarrow> (string \<times> node) list \<Rightarrow> bool" where
  "published rec ens = stored (wanted ens @ [(sentinel_name, marshal (sentinel_for rec (map file_of (wanted ens))))])"

lemma published_regular: "published rec ens es \<Longrightarrow> map_of es f = Some u \<Longrightarrow> is_regular u"
  unfolding published_def by (metis map_of_SomeD stored_regular)

lemma acceptable_names: "acceptable ens fin \<Longrightarrow> sentinel_name \<notin> fst ` set (wanted ens)"
  using wanted_names by (fastforce simp: acceptable_def)

lemma files_in_stored:
  assumes "fs = map file_of (wanted ens)" "stored (wanted ens) es" "acceptable ens fin"
  shows "files_in fs es"
proof -
  have "plain b \<and> (\<exists>g. map_of es b = Some (Reg g) \<and> sum_of d = sum_of (fdata g))" if "(b, d) \<in> set (wanted ens)" for b d
  proof -
    have "map_of (wanted ens) b = Some d" using that assms(3) by (simp add: acceptable_def)
    with stored_lookup [OF assms(2)] wanted_names [of ens b d] that assms(3) show ?thesis
      by (fastforce simp: acceptable_def)
  qed
  then show ?thesis by (auto simp: assms(1) files_in_def file_of_def)
qed

lemma fill_temporary_in:
  assumes r: "root w = put (cp @ [t]) (Some (Dir i [])) r0"
    and d: "dir_at r0 cp" "clean_path cp" "plain t" "plain name" "t \<noteq> name" "map_of (entries_at r0 cp) t = None"
    and h: "honest w"
  shows "wp (fill_temporary cp name rec (cp @ [t]) ens fin) (\<lambda>x w'. same_env w w' \<and> locks w' = locks w \<and> (case x of
      None \<Rightarrow> whole ens fin \<and> (direct (map_of (entries_at r0 cp) name) \<longrightarrow> may_replace (map_of (entries_at r0 cp) name) (rec_owner rec)) \<and>
        (\<exists>es'. published rec ens es' \<and> root w' = with_entries r0 cp (AList.delete name (entries_at r0 cp) @ [(name, Dir i es')])) \<and>
        truthful_under (cp @ [name]) w'
    | Some e \<Rightarrow> (\<exists>v es'. leaves (map_of (entries_at r0 cp) name) v \<and> (calm w \<longrightarrow> v = map_of (entries_at r0 cp) name) \<and>
          (direct (map_of (entries_at r0 cp) name) \<longrightarrow>
            v = map_of (entries_at r0 cp) name \<or> may_replace (map_of (entries_at r0 cp) name) (rec_owner rec)) \<and>
          root w' = with_entries r0 cp (upd name v (entries_at r0 cp @ [(t, Dir i es')]))) \<and>
        (calm w \<and> direct (map_of (entries_at r0 cp) name) \<longrightarrow>
          \<not> (whole ens fin \<and> may_replace (map_of (entries_at r0 cp) name) (rec_owner rec))))) w"
  unfolding fill_temporary_def wp_bind
proof (rule wp_mono [OF extract_entries_in [OF r d(1-3)]], goal_cases)
  case (1 x w1)
  let ?rs = "entries_at r0 cp"
  have q: "same_env w w1" "locks w1 = locks w" using 1 by (auto simp: quiet_def)
  from 1 obtain es1 where r1: "root w1 = put (cp @ [t]) (Some (Dir i es1)) r0"
    and x: "case x of Inl e \<Rightarrow> calm w \<longrightarrow> \<not> fits (fst ` set ([] :: (string \<times> node) list)) ens fin
        | Inr fs \<Rightarrow> fits (fst ` set ([] :: (string \<times> node) list)) ens fin \<and> fs = [] @ map file_of (wanted ens) \<and>
            (\<exists>new. es1 = [] @ new \<and> stored (wanted ens) new)"
    by blast
  have f: "fits {} ens fin = acceptable ens fin" by (simp add: fits_def)
  have unpublished: "\<exists>v es'. leaves (map_of ?rs name) v \<and> (calm w \<longrightarrow> v = map_of ?rs name) \<and> (direct (map_of ?rs name) \<longrightarrow>
          v = map_of ?rs name \<or> may_replace (map_of ?rs name) (rec_owner rec))
      \<and> root w1 = with_entries r0 cp (upd name v (?rs @ [(t, Dir i es')]))"
    using r1 temp_entries [OF d(1,6)] map_of_temp [OF d(6), of _ name] d(5) upd_id
    by (metis leaves_refl)
  show ?case
  proof (cases x)
    case (Inl e)
    then show ?thesis using x q unpublished by (simp add: wp_rules f whole_def)
  next
    case (Inr fs)
    with x f have a: "acceptable ens fin" and fs: "fs = map file_of (wanted ens)" and st: "stored (wanted ens) es1" by auto
    show ?thesis
    proof (cases "fs = []")
      case True
      then show ?thesis using Inr fs q unpublished by (simp add: wp_rules whole_def)
    next
      case False
      then have ne: "wanted ens \<noteq> []" using fs by simp
      have s: "sentinel_name \<notin> fst ` set es1" using acceptable_names [OF a] stored_names [OF st] by simp
      have h1: "honest w1" using h q same_env_honest by blast
      have fi: "files_in fs es1" using fs st a by (rule files_in_stored)
      show ?thesis
        unfolding Inr sum.case if_not_P [OF False]
      proof (rule wp_mono [OF publish_in [OF r1 d s h1 fi]], goal_cases)
        case (1 y w2)
        then have q2: "same_env w w2" "locks w2 = locks w" using q by (auto intro: env.step_trans)
        show ?case
        proof (cases y)
          case None
          with 1 obtain g where g: "fdata g = marshal (sentinel_for rec fs)"
            and r2: "root w2 = with_entries r0 cp (AList.delete name ?rs @ [(name, Dir i (es1 @ [(sentinel_name, Reg g)]))])"
            by auto
          from stored_snoc [OF st g] have "published rec ens (es1 @ [(sentinel_name, Reg g)])"
            by (simp add: published_def fs)
          with None 1 a ne q2 r2 show ?thesis by (auto simp: whole_def)
        next
          case (Some e)
          then show ?thesis using 1 q2 same_env_calm [OF q(1)] by auto
        qed
      qed
    qed
  qed
qed

lemma upd_append:
  assumes "map_of rs t = None" "t \<noteq> name" "leaves (map_of rs name) v"
  shows "upd name v (rs @ [(t, X)]) = upd name v rs @ [(t, X)]"
proof (cases v)
  case None
  then show ?thesis using assms(2) by (simp add: delete_append)
next
  case (Some n)
  with assms(3) have "name \<in> fst ` set rs" by (auto simp: leaves_def dest: map_of_Some_name sym)
  then have "AList.update name n (rs @ [(t, X)]) = AList.update name n rs @ [(t, X)]"
    by (induction rs) auto
  with Some show ?thesis by simp
qed

lemma upd_temp:
  assumes "map_of rs t = None" "t \<noteq> name" "leaves (map_of rs name) v"
  shows "upd t u (upd name v (rs @ [(t, X)])) = upd name v (upd t u rs)"
proof -
  have n: "map_of (upd name v rs) t = None" using assms(1,2) by simp
  then have "t \<notin> fst ` set (upd name v rs)" by (rule map_of_eq_None_iff [THEN iffD1])
  then show ?thesis
    using assms n by (cases u) (simp_all add: upd_append update_last delete_fresh_last AList_update_fresh map_of_eq_None_iff)
qed

text \<open>The tree a failed extraction leaves: what is left of the old directory, and perhaps the
  temporary one.\<close>

definition left_behind :: "path \<Rightarrow> string \<Rightarrow> node \<Rightarrow> node option \<Rightarrow> (string \<times> node) list \<Rightarrow> node" where
  "left_behind cp name r v T = with_entries r cp (upd name v T)"

definition temp_left :: "path \<Rightarrow> string \<Rightarrow> node \<Rightarrow> (string \<times> node) list \<Rightarrow> bool" where
  "temp_left cp name r T \<longleftrightarrow> T = entries_at r cp \<or>
     (\<exists>k u. map_of (entries_at r cp) (temp_name name k) = None \<and> T = upd (temp_name name k) u (entries_at r cp))"

lemma extract_in:
  assumes d: "dir_at (root w) cp" "clean_path cp" "plain name" and h: "honest w" and hook: "before_lock st = None"
  shows "wp (store_extract st cp name rec ens fin) (\<lambda>x w'. same_env w w' \<and> locks w' \<subseteq> locks w \<and> (case x of
      None \<Rightarrow> whole ens fin \<and>
        (direct (map_of (entries_at (root w) cp) name) \<longrightarrow> may_replace (map_of (entries_at (root w) cp) name) (rec_owner rec)) \<and>
        (\<exists>i es'. published rec ens es' \<and>
          root w' = with_entries (root w) cp (AList.delete name (entries_at (root w) cp) @ [(name, Dir i es')])) \<and>
        truthful_under (cp @ [name]) w'
    | Some e \<Rightarrow> (\<exists>v T. leaves (map_of (entries_at (root w) cp) name) v \<and> temp_left cp name (root w) T \<and>
          root w' = left_behind cp name (root w) v T \<and>
          (direct (map_of (entries_at (root w) cp) name) \<longrightarrow>
            v = map_of (entries_at (root w) cp) name \<or> may_replace (map_of (entries_at (root w) cp) name) (rec_owner rec)) \<and>
          (calm w \<longrightarrow> root w' = root w)) \<and>
        (calm w \<and> direct (map_of (entries_at (root w) cp) name) \<and> fresh_draws w cp name \<longrightarrow>
          \<not> (whole ens fin \<and> may_replace (map_of (entries_at (root w) cp) name) (rec_owner rec))))) w"
  unfolding store_extract_def wp_bind create_temporary_def temporary_tries_def numeral_3_eq_3
proof (rule wp_mono [OF create_temporary_in [OF d h hook]], goal_cases)
  case (1 x w1)
  let ?rs = "entries_at (root w) cp"
  have q: "same_env w w1" using 1 by simp
  have same: "root w = left_behind cp name (root w) (map_of ?rs name) ?rs"
    using d(1) by (simp add: left_behind_def upd_id)
  show ?case
  proof (cases x)
    case (Inl e)
    have "\<exists>T. temp_left cp name (root w) T \<and> root w1 = left_behind cp name (root w) (map_of ?rs name) T"
    proof (cases "root w1 = root w")
      case True
      then show ?thesis using same by (auto simp: temp_left_def)
    next
      case False
      with 1 Inl obtain k v where k: "map_of ?rs (temp_name name k) = None"
        and r: "root w1 = put (cp @ [temp_name name k]) v (root w)" by auto
      have "root w1 = left_behind cp name (root w) (map_of ?rs name) (upd (temp_name name k) v ?rs)"
        using r d(1) temp_name_ne [of name k] by (simp add: left_behind_def put_as_entries upd_id)
      with k show ?thesis by (auto simp: temp_left_def)
    qed
    then have "\<exists>v T. leaves (map_of ?rs name) v \<and> temp_left cp name (root w) T \<and>
          root w1 = left_behind cp name (root w) v T \<and> v = map_of ?rs name"
      using leaves_refl by blast
    moreover have "locks w1 \<subseteq> locks w" "calm w \<longrightarrow> \<not> fresh_draws w cp name \<and> root w1 = root w"
      using 1 by (simp_all add: Inl)
    ultimately show ?thesis using q unfolding Inl by (simp add: wp_rules) blast
  next
    case (Inr p)
    with 1 obtain k i where p: "p = (temp_name name k, i)" and m: "map_of ?rs (temp_name name k) = None"
      and r: "root w1 = put (cp @ [temp_name name k]) (Some (Dir i [])) (root w)" and l: "locks w1 = insert i (locks w)"
      by (cases p) auto
    let ?t = "temp_name name k"
    have pt: "plain ?t" using d(3) by (rule plain_temp)
    have h1: "honest w1" using h q same_env_honest by blast
    show ?thesis
      unfolding Inr sum.case p prod.case wp_bind join_plain [OF d(2) pt]
    proof (rule wp_mono [OF fill_temporary_in [OF r d(1,2) pt d(3) temp_name_ne m h1]], goal_cases)
      case (1 y w2)
      then have q2: "same_env w w2" using q by (auto intro: env.step_trans)
      have l2: "locks w2 = insert i (locks w)" using 1 l by auto
      have c: "calm w1 = calm w" "calm w2 = calm w" using q q2 same_env_calm by blast+
      have cl: "wp (close_locked i) (\<lambda>_ w3. same_env w w3 \<and> locks w3 \<subseteq> locks w \<and> root w3 = root w2 \<and> memory w3 = memory w2) w2"
        using q2 l2 by (auto simp: close_locked_def wp_mutate env.step_trans [OF q2 same_env_tock] split: option.split)
      show ?case
      proof (rule wp_mono [OF cl], goal_cases)
        case (1 z w3)
        have c3: "calm w3 = calm w" using 1 same_env_calm by blast
        show ?case
        proof (cases y)
          case None
          then show ?thesis using 1 \<open>same_env w1 w2 \<and> _\<close> truthful_cong [of w3 w2] by (auto simp: wp_rules)
        next
          case (Some e)
          with \<open>same_env w1 w2 \<and> _\<close> c obtain v es' where v: "leaves (map_of ?rs name) v"
            "calm w \<longrightarrow> v = map_of ?rs name"
            "direct (map_of ?rs name) \<longrightarrow> v = map_of ?rs name \<or> may_replace (map_of ?rs name) (rec_owner rec)"
            and r2: "root w2 = with_entries (root w) cp (upd name v (?rs @ [(?t, Dir i es')]))"
            and nw: "calm w \<and> direct (map_of ?rs name) \<longrightarrow> \<not> (whole ens fin \<and> may_replace (map_of ?rs name) (rec_owner rec))"
            by auto
          have r3: "root w3 = with_entries (root w) cp (upd name v (?rs @ [(?t, Dir i es')]))" using r2 1 by simp
          show ?thesis
            unfolding Some option.case wp_bind
          proof (rule wp_mono [OF remove_all_in [OF r3 d(1,2) pt]], goal_cases)
            case (1 zz w4)
            then obtain u where u: "root w4 = with_entries (root w) cp (upd ?t u (upd name v (?rs @ [(?t, Dir i es')])))"
              "case zz of Inl e \<Rightarrow> \<not> calm w3 | Inr _ \<Rightarrow> u = None" by blast
            have uc: "calm w \<longrightarrow> u = None" using u(2) c3 by (cases zz) auto
            have r4: "root w4 = left_behind cp name (root w) v (upd ?t u ?rs)"
              using u(1) upd_temp [OF m temp_name_ne v(1)] by (simp add: left_behind_def)
            have "calm w \<longrightarrow> root w4 = root w"
              using r4 uc v(2) m same by (simp add: left_behind_def)
            moreover have "temp_left cp name (root w) (upd ?t u ?rs)" using m by (auto simp: temp_left_def)
            moreover have "same_env w w4" "locks w4 \<subseteq> locks w"
              using 1 \<open>same_env w w3 \<and> _\<close> by (auto simp: quiet_def intro: env.step_trans)
            ultimately show ?case using r4 v nw by (auto simp: wp_rules)
          qed
        qed
      qed
    qed
  qed
qed

text \<open>A tree that holds a published directory.\<close>

definition holds_image :: "node \<Rightarrow> path \<Rightarrow> string \<Rightarrow> cache_record \<Rightarrow> tar_entry list \<Rightarrow> bool" where
  "holds_image r cp name rec ens \<longleftrightarrow> dir_at r cp \<and>
     (\<exists>i es. map_of (entries_at r cp) name = Some (Dir i es) \<and> published rec ens es)"

subsection \<open>Properties of Extract\<close>

text \<open>The old entry under the resource's name, and the one there after.\<close>

lemma lookup_entry: "dir_at r cp \<Longrightarrow> lookup r (cp @ [c]) = map_of (entries_at r cp) c"
  by (simp add: lookup_entries split: option.split)

lemma map_of_delete_last: "map_of (AList.delete c es @ [(c, n)]) = (map_of es)(c \<mapsto> n)"
  by (rule ext) (auto simp: map_add_def split: option.split)

text \<open>A cache path with the given entries, at \<^verbatim>\<open>/cache\<close>, for the examples: no fault,
  no cancellation, a clock that advances with every call.\<close>

definition cache_world :: "(string \<times> node) list \<Rightarrow> sums option \<Rightarrow> sworld" where
  "cache_world es m = \<lparr>root = Dir 1 [(''cache'', Dir 2 es)], locks = {}, next_ino = 100, fsdev = 1, tick = 0,
     faults = (\<lambda>_. None), clock = int, granularity = 1, rnd = (\<lambda>t. t), cancel = None, memory = m\<rparr>"

definition tar_file :: "string \<Rightarrow> string \<Rightarrow> tar_entry" where
  "tar_file n d = \<lparr>te_name = n, te_flag = type_reg, te_chunks = [d], te_end = Eof\<rparr>"

definition agent_record :: cache_record where
  "agent_record = \<lparr>rec_digest = ''sha256:1'', rec_owner = owner_agent, rec_source = ''registry/image:1'', rec_layers = [], rec_content = []\<rparr>"

lemma cache_world_simps [simp]:
  "dir_at (root (cache_world es m)) [''cache'']" "calm (cache_world es m)" "honest (cache_world es m)"
  "faultless (cache_world es m)" "entries_at (root (cache_world es m)) [''cache''] = es"
  "memory (cache_world es m) = m" "locks (cache_world es m) = {}" "clean_path [''cache'']" "before_lock no_hook = None"
  by (simp_all add: cache_world_def dir_at_def calm_def honest_def faultless_def entries_at_def plain_def no_hook_def)

lemma lookup_cache_world [simp]: "lookup (root (cache_world es m)) [''cache'', c] = map_of es c"
  using lookup_entry [of "root (cache_world es m)" "[''cache'']" c] by simp

lemma whole_sample: "whole [tar_file ''images/a.tar'' ''abc''] Eof"
  by (simp add: whole_def acceptable_def entry_ok_def skipped_def tar_file_def flag_defs sentinel_name_def plain_def
      base_def strip_slashes_def Let_def wanted_def)

text \<open>A sample extraction into an empty cache path succeeds.\<close>

lemma sample_extract:
  assumes "whole ens fin"
  shows "\<exists>w'. run_state (store_extract no_hook [''cache''] ''boot'' agent_record ens fin) (cache_world [] m) = (None, w')"
proof -
  let ?m = "store_extract no_hook [''cache''] ''boot'' agent_record ens fin"
  obtain x w' where run: "run_state ?m (cache_world [] m) = (x, w')" by (cases "run_state ?m (cache_world [] m)")
  have "x = None"
    using wpD [OF extract_in run] assms
    by (cases x) (auto simp: plain_def direct_def may_replace_def fresh_draws_def)
  with run show ?thesis by blast
qed

text \<open>What a failed extraction may have done to a tree: the entry of the resource and one new temporary
  directory apart, nothing; and to the entry, nothing or a removal.\<close>

definition spared :: "path \<Rightarrow> string \<Rightarrow> string \<Rightarrow> node \<Rightarrow> node \<Rightarrow> bool" where
  "spared cp name owner r r' \<longleftrightarrow>
     (\<exists>k. elsewhere cp {name, temp_name name k} r r' \<and>
        (lookup r (cp @ [temp_name name k]) = None \<or> elsewhere cp {name} r r'))
     \<and> leaves (lookup r (cp @ [name])) (lookup r' (cp @ [name]))
     \<and> (direct (lookup r (cp @ [name])) \<longrightarrow> \<not> may_replace (lookup r (cp @ [name])) owner
         \<longrightarrow> lookup r' (cp @ [name]) = lookup r (cp @ [name]))"

lemma spared_refl [simp]: "spared cp name owner r r"
  by (simp add: spared_def)

lemma spared_left_behind:
  assumes "dir_at r cp" and v: "leaves (map_of (entries_at r cp) name) v" "temp_left cp name r T"
    and m: "direct (map_of (entries_at r cp) name) \<longrightarrow> v = map_of (entries_at r cp) name \<or> may_replace (map_of (entries_at r cp) name) owner"
  shows "spared cp name owner r (left_behind cp name r v T)"
proof -
  let ?rs = "entries_at r cp" and ?r' = "with_entries r cp (upd name v T)"
  have l: "lookup r (cp @ [name]) = map_of ?rs name" "lookup ?r' (cp @ [name]) = v"
    using assms(1) by (simp_all add: lookup_entry dir_at_with_entries entries_with_entries)
  have "\<exists>k. elsewhere cp {name, temp_name name k} r ?r' \<and>
            (lookup r (cp @ [temp_name name k]) = None \<or> elsewhere cp {name} r ?r')"
  proof (cases "T = ?rs")
    case True
    have "elsewhere cp N r ?r'" if "name \<in> N" for N
      unfolding True using that by (intro elsewhere_with_entries [OF assms(1)]) auto
    then show ?thesis by blast
  next
    case False
    with v(2) obtain k u where k: "map_of ?rs (temp_name name k) = None" "T = upd (temp_name name k) u ?rs"
      by (auto simp: temp_left_def)
    have "elsewhere cp {name, temp_name name k} r ?r'"
      unfolding k(2) by (rule elsewhere_with_entries [OF assms(1)]) auto
    with k(1) assms(1) show ?thesis by (auto simp: lookup_entry)
  qed
  with v m l show ?thesis by (auto simp: spared_def left_behind_def)
qed

lemma extract_spec:
  assumes d: "dir_at (root w) cp" "clean_path cp" "plain name" and h: "honest w" and hook: "before_lock st = None"
  shows "wp (store_extract st cp name rec ens fin) (\<lambda>x w'. same_env w w' \<and> locks w' \<subseteq> locks w \<and> (case x of
      None \<Rightarrow> whole ens fin \<and> holds_image (root w') cp name rec ens \<and> elsewhere cp {name} (root w) (root w')
    | Some e \<Rightarrow> spared cp name (rec_owner rec) (root w) (root w') \<and> (calm w \<longrightarrow> root w' = root w) \<and>
        (calm w \<and> direct (lookup (root w) (cp @ [name])) \<and> fresh_draws w cp name \<longrightarrow>
          \<not> (whole ens fin \<and> may_replace (lookup (root w) (cp @ [name])) (rec_owner rec))))) w"
proof (rule wp_mono [OF extract_in [OF assms]], goal_cases)
  case (1 x w')
  have "holds_image (root w') cp name rec ens \<and> elsewhere cp {name} (root w) (root w')"
    if "published rec ens es"
      "root w' = with_entries (root w) cp (AList.delete name (entries_at (root w) cp) @ [(name, Dir i es)])" for i es
    unfolding that(2) using d(1) that(1)
    by (auto simp: holds_image_def entries_with_entries dir_at_with_entries map_of_delete_last
        intro!: elsewhere_with_entries simp del: map_of_append split: if_splits)
  note ok = this
  show ?case
  proof (cases x)
    case None
    with 1 ok show ?thesis by auto
  next
    case (Some e)
    with 1 have "spared cp name (rec_owner rec) (root w) (root w')"
      using spared_left_behind [OF d(1), of name _ _ "rec_owner rec"] by force
    with 1 Some d(1) show ?thesis by (auto simp: lookup_entry)
  qed
qed

text \<open>C3: When an extraction succeeds, whatever failed on the way, the archive was whole and
  acceptable, the resource's directory holds exactly its files and the sentinel, nothing else of
  the tree changed, and no lock is left.\<close>

theorem extract_success:
  assumes "dir_at (root w) cp" "clean_path cp" "plain name" "honest w" "before_lock st = None"
    and run: "run_state (store_extract st cp name rec ens fin) w = (None, w')"
  shows "whole ens fin \<and> holds_image (root w') cp name rec ens
    \<and> elsewhere cp {name} (root w) (root w') \<and> locks w' \<subseteq> locks w"
  using wpD [OF extract_spec [OF assms(1-5)] run] by auto

theorem extract_success_witness:
  "\<exists>w'. run_state (store_extract no_hook [''cache''] ''boot'' agent_record [tar_file ''images/a.tar'' ''abc''] Eof)
       (cache_world [] None) = (None, w')
     \<and> holds_image (root w') [''cache''] ''boot'' agent_record [tar_file ''images/a.tar'' ''abc'']"
proof -
  obtain w' where run: "run_state (store_extract no_hook [''cache''] ''boot'' agent_record
      [tar_file ''images/a.tar'' ''abc''] Eof) (cache_world [] None) = (None, w')"
    using sample_extract [OF whole_sample] by blast
  from extract_success [OF _ _ _ _ _ run] show ?thesis using run by (auto simp: plain_def)
qed

text \<open>C4: When an extraction fails, at whatever call and with whatever partial effect, only the
  resource's entry and one new temporary directory may differ; the entry is what it was, a part of
  it, or gone, never a half-written new one; and it is untouched when the owner may not replace
  it.\<close>

theorem extract_failure:
  assumes "dir_at (root w) cp" "clean_path cp" "plain name" "honest w" "before_lock st = None"
    and run: "run_state (store_extract st cp name rec ens fin) w = (Some e, w')"
  shows "(\<exists>k. elsewhere cp {name, temp_name name k} (root w) (root w') \<and>
            (lookup (root w) (cp @ [temp_name name k]) = None \<or> elsewhere cp {name} (root w) (root w')))
    \<and> leaves (lookup (root w) (cp @ [name])) (lookup (root w') (cp @ [name]))
    \<and> (direct (lookup (root w) (cp @ [name])) \<longrightarrow> \<not> may_replace (lookup (root w) (cp @ [name])) (rec_owner rec)
        \<longrightarrow> lookup (root w') (cp @ [name]) = lookup (root w) (cp @ [name]))
    \<and> locks w' \<subseteq> locks w"
  using wpD [OF extract_spec [OF assms(1-5)] run] by (simp add: spared_def)

text \<open>An empty archive is refused.\<close>

lemma sample_refused:
  "\<exists>e w'. run_state (store_extract no_hook [''cache''] ''boot'' agent_record [] Eof) (cache_world [] None) = (Some e, w')"
proof -
  let ?m = "store_extract no_hook [''cache''] ''boot'' agent_record [] Eof"
  obtain x w' where run: "run_state ?m (cache_world [] None) = (x, w')" by (cases "run_state ?m (cache_world [] None)")
  have "x \<noteq> None"
    using wpD [OF extract_in run] by (cases x) (auto simp: plain_def whole_def)
  with run show ?thesis by auto
qed

theorem extract_failure_witness:
  "\<exists>e w'. run_state (store_extract no_hook [''cache''] ''boot'' agent_record [] Eof) (cache_world [] None) = (Some e, w')
     \<and> leaves (lookup (root (cache_world [] None)) [''cache'', ''boot'']) (lookup (root w') [''cache'', ''boot''])"
proof -
  obtain e w' where run: "run_state (store_extract no_hook [''cache''] ''boot'' agent_record [] Eof) (cache_world [] None) = (Some e, w')"
    using sample_refused by blast
  have "leaves (lookup (root (cache_world [] None)) ([''cache''] @ [''boot''])) (lookup (root w') ([''cache''] @ [''boot'']))"
    using extract_failure [OF _ _ _ _ _ run] by (auto simp: plain_def)
  with run show ?thesis by auto
qed

text \<open>C5: When nothing fails, an extraction succeeds exactly for a whole, acceptable and non-empty
  archive whose owner may replace what is there; else it leaves the tree as it was.\<close>

theorem extract_decides:
  assumes "dir_at (root w) cp" "clean_path cp" "plain name" "calm w" "before_lock st = None"
    and "direct (lookup (root w) (cp @ [name]))" "fresh_draws w cp name"
    and run: "run_state (store_extract st cp name rec ens fin) w = (x, w')"
  shows "(x = None \<longleftrightarrow> whole ens fin \<and> may_replace (lookup (root w) (cp @ [name])) (rec_owner rec))
    \<and> (x \<noteq> None \<longrightarrow> root w' = root w)"
  using wpD [OF extract_spec [OF assms(1-3) calm_honest [OF assms(4)] assms(5)] run]
    wpD [OF extract_in [OF assms(1-3) calm_honest [OF assms(4)] assms(5)] run] assms(1,4,6,7)
  by (cases x) (auto simp: lookup_entry)

theorem extract_decides_witness:
  "fst (run_state (store_extract no_hook [''cache''] ''boot'' agent_record [tar_file ''images/a.tar'' ''abc''] Eof)
     (cache_world [] None)) = None"
proof -
  let ?m = "store_extract no_hook [''cache''] ''boot'' agent_record [tar_file ''images/a.tar'' ''abc''] Eof"
  obtain x w' where run: "run_state ?m (cache_world [] None) = (x, w')" by (cases "run_state ?m (cache_world [] None)")
  from extract_decides [OF _ _ _ _ _ _ _ run] whole_sample show ?thesis
    by (simp add: run plain_def direct_def may_replace_def fresh_draws_def)
qed

end
