(* ===== verification/StateSpec.thy ===== *)
theory StateSpec
  imports Extract
begin

section \<open>What State reports\<close>

text \<open>
  The reference definition of a resource's state, on the tree alone, and the proof that
  \<open>state_of\<close>, with its memory of digests, computes it. Then the round trip: what an extraction
  publishes, \<open>state_of\<close> finds complete and \<open>read_record\<close> reads back.
\<close>

subsection \<open>The reference\<close>

definition present :: "node \<Rightarrow> path \<Rightarrow> bool" where
  "present r p = (case stat_in r p of Inl e \<Rightarrow> False | Inr n \<Rightarrow> True)"

definition sentinel_state :: "bool \<Rightarrow> node \<Rightarrow> path \<Rightarrow> sentinel \<Rightarrow> cache_state" where
  "sentinel_state checks r dir sn =
     (if checks \<and> rec_content (sn_record sn) \<noteq> []
      then (if list_all (file_intact r dir) (rec_content (sn_record sn)) then Complete else Incomplete)
      else (if list_all (\<lambda>f. present r (join dir f)) (list_of (sn_files sn)) then Complete else Incomplete))"

definition expected_state :: "bool \<Rightarrow> node \<Rightarrow> path \<Rightarrow> string \<Rightarrow> cache_state \<times> err option" where
  "expected_state checks r cp name = (case read_in r (join (store_dir cp name) sentinel_name) of
     Inl e \<Rightarrow>
       if is_not_exist e then (case stat_in r (store_dir cp name) of
           Inl se \<Rightarrow> if is_not_exist se then (Absent, None) else (Absent, Some (Wrap ErrState (Some se) []))
         | Inr _ \<Rightarrow> (Incomplete, None))
       else if no_directory e then (Incomplete, None)
       else (Absent, Some (Wrap ErrState (Some e) []))
   | Inr t \<Rightarrow> (case unmarshal t of
       None \<Rightarrow> (Incomplete, None)
     | Some sn \<Rightarrow> (sentinel_state checks r (store_dir cp name) sn, None)))"

lemma along_tends_check_names: "along tends (check_names dir fs)"
  by (induction fs) (auto intro!: td.along_intros along_tends_queries)

lemma along_tends_state_of: "along tends (state_of cp name)"
  by (auto simp: state_of_def state_of_sentinel_def Let_def
      intro!: td.along_intros along_tends_queries along_tends_mismatch along_tends_check_names)

lemma check_names_faultless:
  "faultless w \<Longrightarrow> wp (check_names dir fs) (\<lambda>x w'. looks w w' \<and>
     x = (if list_all (\<lambda>f. present (root w) (join dir f)) fs then Complete else Incomplete)) w"
proof (induction fs arbitrary: w)
  case Nil
  then show ?case by (simp add: wp_rules look.step_refl)
next
  case (Cons f fs)
  have f: "faultless (tock w)" using Cons.prems by simp
  show ?case
    using Cons.prems
    by (auto simp: wp_rules wp_stat present_def split: sum.split
        intro!: wp_mono [OF Cons.IH [OF f]] intro: look.step_trans [OF looks_tock])
qed

lemma state_of_sentinel_faultless:
  assumes "faultless w" "clean_path dir" "truthful_under dir w"
  shows "wp (state_of_sentinel dir sn) (\<lambda>x w'. tends w w' \<and> truthful_under dir w' \<and>
     (x = (sentinel_state (memory w \<noteq> None) (root w) dir sn, None)
      \<or> ctx_done w' \<and> x = (Absent, Some (Wrap ErrState (Some Canceled) [])))) w"
proof (cases "memory w \<noteq> None \<and> rec_content (sn_record sn) \<noteq> []")
  case True
  have "wp (mismatch dir (rec_content (sn_record sn))) (\<lambda>m. wp ctx_err (\<lambda>c. wp (State_Monad.return (case c of
         Some e \<Rightarrow> (Absent, Some (Wrap ErrState (Some e) []))
       | None \<Rightarrow> (if m \<noteq> None then Incomplete else Complete, None))) (\<lambda>x w'. tends w w' \<and> truthful_under dir w' \<and>
     (x = (sentinel_state (memory w \<noteq> None) (root w) dir sn, None)
      \<or> ctx_done w' \<and> x = (Absent, Some (Wrap ErrState (Some Canceled) []))))))  w"
  proof (rule wp_mono [OF linux.mismatch_faultless [OF assms]], goal_cases)
    case (1 m w1)
    then have t: "tends w (tock w1)" "truthful_under dir (tock w1)" "ctx_done w1 \<Longrightarrow> ctx_done (tock w1)"
      using truthful_cong [of "tock w1" w1 dir] ctx_done_mono [OF same_env_tock, of w1]
      by (auto simp: tends_def intro: env.step_trans [OF _ same_env_tock])
    show ?case
    proof (cases "ctx_done (tock w1)")
      case True
      then show ?thesis using t by (simp add: wp_rules)
    next
      case False
      with 1 t(3) have "(m = None) = list_all (file_intact (root w) dir) (rec_content (sn_record sn))" by blast
      then show ?thesis using False t True by (auto simp: wp_rules sentinel_state_def)
    qed
  qed
  then show ?thesis using True by (simp add: state_of_sentinel_def wp_rules wp_bind_eq)
next
  case False
  have "wp (check_names dir (list_of (sn_files sn))) (\<lambda>x w'. looks w w' \<and>
     (x, None) = (sentinel_state (memory w \<noteq> None) (root w) dir sn, None :: err option)) w"
    by (rule wp_mono [OF check_names_faultless [OF assms(1)]]) (use False in \<open>auto simp: sentinel_state_def\<close>)
  then have "wp (check_names dir (list_of (sn_files sn))) (\<lambda>s. wp (State_Monad.return (s, None)) (\<lambda>x w'. tends w w' \<and> truthful_under dir w' \<and>
     (x = (sentinel_state (memory w \<noteq> None) (root w) dir sn, None)
      \<or> ctx_done w' \<and> x = (Absent, Some (Wrap ErrState (Some Canceled) []))))) w"
    by (rule wp_mono) (auto simp: wp_rules looks_tends intro: looks_truthful [OF _ assms(3)])
  then show ?thesis
    using False by (simp add: state_of_sentinel_def wp_rules wp_bind_eq if_not_P)
qed

lemma state_of_faultless:
  assumes "faultless w" "clean_path cp" "truthful_under (store_dir cp name) w"
  shows "wp (state_of cp name) (\<lambda>x w'. tends w w' \<and> truthful_under (store_dir cp name) w' \<and>
     (x = expected_state (memory w \<noteq> None) (root w) cp name
      \<or> ctx_done w' \<and> x = (Absent, Some (Wrap ErrState (Some Canceled) [])))) w"
proof -
  let ?dir = "store_dir cp name"
  have c: "clean_path ?dir" using assms(2) by (simp add: store_dir_def clean_path_join)
  have t: "tends w (tock w)" "truthful_under ?dir (tock w)" "tends w (tock (tock w))" "truthful_under ?dir (tock (tock w))"
    using truthful_cong [of "tock w" w ?dir] truthful_cong [of "tock (tock w)" w ?dir] assms(3)
    by (auto simp: tends_def intro: env.step_trans [OF same_env_tock same_env_tock])
  have f: "faultless (tock w)" using assms(1) by simp
  show ?thesis
  proof (cases "\<exists>d sn. read_in (root w) (join ?dir sentinel_name) = Inr d \<and> unmarshal d = Some sn")
    case True
    then obtain d sn where d: "read_in (root w) (join ?dir sentinel_name) = Inr d" "unmarshal d = Some sn" by blast
    have "wp (state_of_sentinel ?dir sn) (\<lambda>x w'. tends w w' \<and> truthful_under ?dir w' \<and>
     (x = expected_state (memory w \<noteq> None) (root w) cp name
      \<or> ctx_done w' \<and> x = (Absent, Some (Wrap ErrState (Some Canceled) [])))) (tock w)"
      by (rule wp_mono [OF state_of_sentinel_faultless [OF f c t(2), of sn]])
        (use d in \<open>auto simp: expected_state_def intro: td.step_trans [OF t(1)]\<close>)
    then show ?thesis using assms(1) d by (simp add: state_of_def wp_rules wp_read_file)
  next
    case False
    then show ?thesis
      using assms(1) t f
      by (auto simp: state_of_def wp_rules wp_read_file wp_stat expected_state_def split: sum.split option.split)
  qed
qed

subsection \<open>What an extraction publishes is complete\<close>

definition ascii :: "string \<Rightarrow> bool" where
  "ascii s = list_all (\<lambda>c. byte c < 128) s"

lemma ascii_valid: "ascii s \<Longrightarrow> valid_utf8 s"
  by (induction s) (simp_all add: ascii_def valid_utf8.simps(2) rune_size_ascii del: rune_size.simps)

lemma byte_hex_digit: "n < 16 \<Longrightarrow> byte (hex_digit n) < 128"
  by (auto simp: hex_digit_def byte_def of_char_of take_bit_eq_mod)

lemma nibble_less: "unat (x AND 15 :: u32) < 16"
proof -
  have "x AND 15 = take_bit 4 x" by (simp add: take_bit_eq_mask mask_eq_exp_minus_1)
  then show ?thesis using take_bit_nat_less_exp [of 4 "unat x"] by (simp add: unsigned_take_bit_eq)
qed

lemma ascii_sum_of: "ascii (sum_of d)"
proof -
  have "ascii (hex32 w)" for w
    by (simp add: ascii_def hex32_def byte_hex_digit nibble_less)
  then have "ascii (concat (map hex32 ws))" for ws
    by (induction ws) (auto simp: ascii_def)
  then show ?thesis
    by (simp add: sum_of_def digest_prefix_def sha256_def Let_def ascii_def byte_def)
qed

lemma sanitize_sum_of [simp]: "sanitize (sum_of d) = sum_of d"
  by (simp add: sanitize_valid ascii_valid ascii_sum_of)

definition names_valid :: "tar_entry list \<Rightarrow> bool" where
  "names_valid ens = list_all (\<lambda>(b, d). valid_utf8 b) (wanted ens)"

definition sizes_small :: "tar_entry list \<Rightarrow> bool" where
  "sizes_small ens = list_all (\<lambda>(b, d). int (length d) < 2 ^ 63) (wanted ens)"

lemma sizes_ok_image: "sizes_small ens \<Longrightarrow> sizes_ok (sentinel_for rec (map file_of (wanted ens)))"
  by (auto simp: sizes_small_def sizes_ok_def sentinel_for_def int64_def file_of_def list_all_iff)

lemma image_sentinel:
  "sizes_small ens \<Longrightarrow> unmarshal (marshal (sentinel_for rec (map file_of (wanted ens))))
     = Some (sanitize_sentinel (sentinel_for rec (map file_of (wanted ens))))"
  by (rule unmarshal_marshal [OF sizes_ok_image])

lemma sanitize_file_of: "sanitize_file (file_of (b, d)) = file_of (sanitize b, d)"
  by (simp add: sanitize_file_def file_of_def)

text \<open>The entries of a published directory, by name.\<close>

lemma published_file:
  assumes "published rec ens es" "acceptable ens fin" "(b, d) \<in> set (wanted ens)"
  shows "\<exists>g. map_of es b = Some (Reg g) \<and> fdata g = d"
proof -
  have "map_of (wanted ens) b = Some d" using assms(2,3) by (simp add: acceptable_def)
  then have "map_of (wanted ens @ [(sentinel_name, m)]) b = Some d" for m
    using acceptable_names [OF assms(2)] assms(3) by (auto simp: map_add_def image_iff split: option.split)
  then show ?thesis using stored_lookup assms(1) unfolding published_def by metis
qed

lemma published_sentinel:
  assumes "published rec ens es" "acceptable ens fin"
  shows "\<exists>g. map_of es sentinel_name = Some (Reg g) \<and> fdata g = marshal (sentinel_for rec (map file_of (wanted ens)))"
proof -
  have "map_of (wanted ens) sentinel_name = None"
    using acceptable_names [OF assms(2)] by (simp add: map_of_eq_None_iff)
  then have "map_of (wanted ens @ [(sentinel_name, m)]) sentinel_name = Some m" for m
    by (simp add: map_add_def)
  then show ?thesis using stored_lookup assms(1) unfolding published_def by metis
qed

lemma published_only: "published rec ens es \<Longrightarrow> map_of es c \<noteq> None \<Longrightarrow> c = sentinel_name \<or> c \<in> fst ` set (wanted ens)"
proof -
  assume p: "published rec ens es" and c: "map_of es c \<noteq> None"
  have "fst ` set es = insert sentinel_name (fst ` set (wanted ens))"
    using stored_names [OF p [unfolded published_def]] by simp
  with c show ?thesis by (auto simp: map_of_eq_None_iff)
qed

lemma holds_image_stat:
  assumes "holds_image r cp name rec ens" "acceptable ens fin" "clean_path cp" "plain name" "(b, d) \<in> set (wanted ens)"
  shows "\<exists>g. stat_in r (join (store_dir cp name) b) = Inr (Reg g) \<and> fdata g = d"
proof -
  have b: "plain b" using wanted_names [of ens b d] assms(2,5) by (simp add: acceptable_def)
  obtain i es where d: "dir_at r cp" "map_of (entries_at r cp) name = Some (Dir i es)" "published rec ens es"
    using assms(1) by (auto simp: holds_image_def)
  obtain g where g: "map_of es b = Some (Reg g)" "fdata g = d"
    using published_file [OF d(3) assms(2,5)] by blast
  then show ?thesis
    using stat_in_dir [OF d(1) assms(3,4) b d(2) g(1)] assms(3,4) b
    by (simp add: store_dir_def join_plain join_in)
qed

lemma holds_image_read:
  assumes "holds_image r cp name rec ens" "acceptable ens fin" "clean_path cp" "plain name"
  shows "read_in r (join (store_dir cp name) sentinel_name) = Inr (marshal (sentinel_for rec (map file_of (wanted ens))))"
proof -
  obtain i es where d: "dir_at r cp" "map_of (entries_at r cp) name = Some (Dir i es)" "published rec ens es"
    using assms(1) by (auto simp: holds_image_def)
  obtain g where g: "map_of es sentinel_name = Some (Reg g)" "fdata g = marshal (sentinel_for rec (map file_of (wanted ens)))"
    using published_sentinel [OF d(3) assms(2)] by blast
  show ?thesis
    using stat_in_dir [OF d(1) assms(3,4) plain_sentinel_name d(2) g(1)] assms(3,4) g(2)
    by (simp add: store_dir_def join_plain join_in read_in_def)
qed

lemma image_complete:
  assumes h: "holds_image r cp name rec ens" and a: "acceptable ens fin" "clean_path cp" "plain name"
    and v: "names_valid ens" "sizes_small ens"
  shows "expected_state checks r cp name = (Complete, None)"
proof -
  let ?dir = "store_dir cp name"
  have f: "file_intact r ?dir (file_of (b, d))" if "(b, d) \<in> set (wanted ens)" for b d
    using holds_image_stat [OF h a that] wanted_names [of ens b d] a(1) that
    by (auto simp: file_intact_def file_of_def acceptable_def file_size_def)
  have p: "present r (join ?dir b)" if "(b, d) \<in> set (wanted ens)" for b d
    using holds_image_stat [OF h a that] by (auto simp: present_def)
  have s: "sanitize b = b" if "(b, d) \<in> set (wanted ens)" for b d
    using v(1) that by (auto simp: names_valid_def list_all_iff sanitize_valid)
  have "list_all (file_intact r ?dir) (map sanitize_file (map file_of (wanted ens)))"
    using f s by (auto simp: list_all_iff sanitize_file_of)
  moreover have "list_all (\<lambda>b. present r (join ?dir b)) (map sanitize (map fr_name (map file_of (wanted ens))))"
    using p s by (auto simp: list_all_iff file_of_def)
  ultimately have "sentinel_state checks r ?dir (sanitize_sentinel (sentinel_for rec (map file_of (wanted ens)))) = Complete"
    by (simp add: sentinel_state_def sanitize_sentinel_def sentinel_for_def list_of_def Let_def)
  then show ?thesis
    using holds_image_read [OF h a] image_sentinel [OF v(2)] by (simp add: expected_state_def)
qed

lemma image_incomplete:
  assumes h: "holds_image r cp name rec ens" and a: "acceptable ens fin" "clean_path cp" "plain name"
    and v: "sizes_small ens" "(b, d) \<in> set (wanted ens)" "sanitize b \<notin> fst ` set (wanted ens)" "sanitize b \<noteq> sentinel_name"
  shows "expected_state True r cp name = (Incomplete, None)"
proof -
  let ?dir = "store_dir cp name"
  obtain i es where d: "dir_at r cp" "map_of (entries_at r cp) name = Some (Dir i es)" "published rec ens es"
    using h by (auto simp: holds_image_def)
  have "map_of es (sanitize b) = None" using published_only [OF d(3)] v(3,4) by blast
  then have "\<not> file_intact r ?dir (file_of (sanitize b, d))"
    using node_at_below [OF d(1) a(2,3) _ d(2), of "sanitize b" True] a(2,3)
    by (auto simp: file_intact_def file_of_def store_dir_def join_plain join_in stat_in_def lift_errno_def)
  then have "\<not> list_all (file_intact r ?dir) (map sanitize_file (map file_of (wanted ens)))"
    using v(2) by (force simp: list_all_iff sanitize_file_of)
  moreover have "wanted ens \<noteq> []" using v(2) by auto
  ultimately have "sentinel_state True r ?dir (sanitize_sentinel (sentinel_for rec (map file_of (wanted ens)))) = Incomplete"
    by (simp add: sentinel_state_def sanitize_sentinel_def sentinel_for_def Let_def)
  then show ?thesis
    using holds_image_read [OF h a] image_sentinel [OF v(1)] by (simp add: expected_state_def)
qed

definition record_valid :: "cache_record \<Rightarrow> bool" where
  "record_valid r \<longleftrightarrow> valid_utf8 (rec_digest r) \<and> valid_utf8 (rec_owner r) \<and> valid_utf8 (rec_source r)
     \<and> list_all valid_utf8 (rec_layers r)"

lemma image_record:
  assumes "names_valid ens" "record_valid rec"
  shows "sn_record (sanitize_sentinel (sentinel_for rec (map file_of (wanted ens)))) = rec\<lparr>rec_content := map file_of (wanted ens)\<rparr>"
proof -
  have "map sanitize_file (map file_of (wanted ens)) = map file_of (wanted ens)"
    using assms(1) by (auto simp: names_valid_def list_all_iff sanitize_file_of sanitize_valid)
  moreover have "map sanitize (rec_layers rec) = rec_layers rec"
    using assms(2) by (intro map_idI) (auto simp: record_valid_def list_all_iff sanitize_valid)
  ultimately show ?thesis
    using assms(2) by (simp add: sanitize_sentinel_def sentinel_for_def Let_def record_valid_def sanitize_valid)
qed

lemma wp_fst: "(fst (run_state m w) = x) = wp m (\<lambda>y _. y = x) w"
  by (simp add: wp_run)

text \<open>A store keeps its kind: with a memory, or without.\<close>

definition same_kind :: "sworld \<Rightarrow> sworld \<Rightarrow> bool" where
  "same_kind w w' \<longleftrightarrow> (memory w' = None) = (memory w = None)"

interpretation kd: preorder_steps same_kind
  by unfold_locales (auto simp: same_kind_def)

lemma along_kind_quiet: "along quiet m \<Longrightarrow> along same_kind m"
  by (simp add: along_def quiet_def same_kind_def)

lemmas along_kind_calls = along_quiet_queries [THEN along_kind_quiet] along_quiet_changes [THEN along_kind_quiet]
  along_quiet_mkdir_temp [THEN along_kind_quiet]

lemma along_kind_locks:
  "along same_kind (flock i)" "along same_kind (close_locked i)"
  by (auto simp: along_iff_wp flock_def close_locked_def wp_mutate same_kind_def split: option.split)

lemma along_kind_modify: "along same_kind (modify_sums g)"
  by (auto simp: along_iff_wp wp_modify same_kind_def)

lemma along_kind_remember: "along same_kind (remember_by kf dir fs)"
proof -
  have "along same_kind (remember_files_by kf dir fs)"
    by (induction fs) (auto intro!: kd.along_intros along_kind_modify along_kind_calls)
  then show ?thesis by (auto simp: remember_by_def intro!: kd.along_intros)
qed

lemma along_kind_copy: "along same_kind (copy_body p acc cs fin)"
  by (induction cs arbitrary: acc) (auto intro!: kd.along_intros along_kind_calls)

lemma along_kind_entry: "along same_kind (extract_entry tmp en)"
  by (auto simp: extract_entry_def extract_file_def Let_def intro!: kd.along_intros along_kind_calls along_kind_copy)

lemma along_kind_entries: "along same_kind (extract_entries tmp files ens fin)"
proof (induction ens arbitrary: files)
  case Nil
  show ?case by (auto intro!: kd.along_intros along_kind_calls)
next
  case (Cons en ens)
  have nil: "along same_kind (extract_entries tmp files [] fin)" for files fin
    by (auto intro!: kd.along_intros along_kind_calls)
  show ?case
    unfolding extract_entries.simps(2)
    by (intro kd.along_intros along_kind_calls along_kind_entry nil Cons.IH)
qed

lemma along_kind_create: "before_lock st = None \<Longrightarrow> along same_kind (create_temporary_from n lost st cp name)"
  by (induction n arbitrary: lost)
    (auto simp: run_hook_def lock_temporary_def intro!: kd.along_intros along_kind_calls along_kind_locks)

lemma along_kind_extract: "before_lock st = None \<Longrightarrow> along same_kind (store_extract st cp name rec ens fin)"
  by (auto simp: store_extract_def create_temporary_def fill_temporary_def publish_def replaceable_def forget_def Let_def
      intro!: kd.along_intros along_kind_calls along_kind_locks along_kind_create along_kind_entries
        along_kind_modify along_kind_remember)

subsection \<open>Properties of State and ReadRecord\<close>

text \<open>C6: With no failing call, State is the reference definition on the tree: the memory of
  digests changes how much is read, not the answer. A cancelled context gives an error, never a
  directory wrongly called incomplete. The memory stays truthful.\<close>

theorem state_correct:
  assumes "faultless w" "clean_path cp" "truthful_under (store_dir cp name) w"
    and "run_state (state_of cp name) w = ((s, e), w')"
  shows "((s, e) = expected_state (memory w \<noteq> None) (root w) cp name
      \<or> ctx_done w' \<and> s = Absent \<and> e = Some (Wrap ErrState (Some Canceled) []))
    \<and> truthful_under (store_dir cp name) w'"
  using wpD [OF state_of_faultless [OF assms(1-3)] assms(4)] by auto

lemma state_sample: "run_state (state_of [''cache''] ''boot'') (cache_world [] None) = ((Absent, None), tock (tock (cache_world [] None)))"
proof -
  have "wp (state_of [''cache''] ''boot'') (\<lambda>x w'. x = (Absent, None) \<and> w' = tock (tock (cache_world [] None))) (cache_world [] None)"
    by (simp add: state_of_def wp_rules wp_read_file wp_stat store_dir_def join_plain plain_def read_in_def stat_in_def
        node_at_def resolve_def lift_errno_def walk.simps sentinel_name_def cache_world_def dir_at_def join_def clean_def)
  then show ?thesis by (simp add: wp_run prod_eq_iff)
qed

theorem state_correct_witness:
  "(Absent, None) = expected_state False (root (cache_world [] None)) [''cache''] ''boot''"
  using state_correct [OF _ _ _ state_sample] by (simp add: truthful_no_memory ctx_done_def cache_world_def faultless_def plain_def)

text \<open>Whatever fails, State leaves the tree and the locks alone, and an error comes with the
  state Absent and is an ErrState.\<close>

theorem state_reads_only:
  assumes "run_state (state_of cp name) w = ((s, e), w')"
  shows "root w' = root w \<and> locks w' = locks w \<and> (e \<noteq> None \<longrightarrow> s = Absent \<and> is_kind ErrState (the e))"
proof -
  have "tends w w'" using along_tends_state_of assms by (rule alongD)
  moreover have w: "wp (state_of cp name) (\<lambda>x w'. snd x \<noteq> None \<longrightarrow> fst x = Absent \<and> is_kind ErrState (the (snd x))) w"
    by (auto simp: state_of_def state_of_sentinel_def wp_rules wp_bind_eq wp_read_file wp_stat wp_run [of "mismatch _ _"]
        wp_run [of "check_names _ _"] split: option.split sum.split)
  ultimately show ?thesis using wpD [OF w assms] by (auto simp: tends_def)
qed

theorem state_reads_only_witness:
  "root (tock (tock (cache_world [] None))) = root (cache_world [] None)"
  using state_reads_only [OF state_sample] by blast

lemma extracted_state:
  assumes "dir_at (root w) cp" "clean_path cp" "plain name" "calm w" "before_lock st = None"
    and run: "run_state (store_extract st cp name rec ens fin) w = (None, w')"
  shows "acceptable ens fin" "holds_image (root w') cp name rec ens" "calm w'"
    "fst (run_state (state_of cp name) w') = expected_state (memory w \<noteq> None) (root w') cp name"
proof -
  note e = wpD [OF extract_in [OF assms(1-3) calm_honest [OF assms(4)] assms(5)] run]
  obtain i es where a: "acceptable ens fin" "published rec ens es" "same_env w w'"
    and r: "root w' = with_entries (root w) cp (AList.delete name (entries_at (root w) cp) @ [(name, Dir i es)])"
    and t: "truthful_under (cp @ [name]) w'"
    using e by (auto simp: whole_def)
  show "holds_image (root w') cp name rec ens"
    unfolding r holds_image_def using assms(1) a(2)
    by (simp add: entries_with_entries dir_at_with_entries map_of_delete_last del: map_of_append)
  have d: "store_dir cp name = cp @ [name]" using assms(2,3) by (simp add: store_dir_def join_plain)
  show c: "calm w'" using a(3) assms(4) same_env_calm by blast
  have m: "(memory w' = None) = (memory w = None)"
    using alongD [OF along_kind_extract [OF assms(5)] run] by (simp add: same_kind_def)
  obtain x w2 where s: "run_state (state_of cp name) w' = (x, w2)" by (cases "run_state (state_of cp name) w'")
  have "tends w' w2" using along_tends_state_of s by (rule alongD)
  then have "\<not> ctx_done w2" using c same_env_calm calm_not_done by (metis tends_def)
  then have "x = expected_state (memory w' \<noteq> None) (root w') cp name"
    using wpD [OF state_of_faultless [OF calm_faultless [OF c] assms(2), of name] s] t d by simp
  then show "fst (run_state (state_of cp name) w') = expected_state (memory w \<noteq> None) (root w') cp name"
    using s m by simp
  show "acceptable ens fin" by (rule a(1))
qed

lemma extract_reads_back:
  assumes "dir_at (root w) cp" "clean_path cp" "plain name" "calm w" "before_lock st = None"
    and v: "names_valid ens" "sizes_small ens"
    and run: "run_state (store_extract st cp name rec ens fin) w = (None, w')"
  shows "fst (run_state (state_of cp name) w') = (Complete, None)
    \<and> (record_valid rec \<longrightarrow>
        fst (run_state (read_record cp name) w') = Inr (rec\<lparr>rec_content := map file_of (wanted ens)\<rparr>))"
proof -
  note x = extracted_state [OF assms(1-5) run]
  have "fst (run_state (read_record cp name) w') = Inr (rec\<lparr>rec_content := map file_of (wanted ens)\<rparr>)"
    if "record_valid rec"
    unfolding wp_fst
    using x(3) holds_image_read [OF x(2,1) assms(2,3)] image_sentinel [OF v(2)] image_record [OF v(1) that]
    by (simp add: read_record_def read_sentinel_def wp_rules wp_read_file)
  with x image_complete [OF x(2,1) assms(2,3) v] show ?thesis by simp
qed

text \<open>C7: Round trip. After an extraction that met no failure, State finds the resource complete,
  by names and by content, and the record reads back with the files and their digests, provided
  the names and the record are valid UTF-8.\<close>

theorem extract_then_state:
  assumes "dir_at (root w) cp" "clean_path cp" "plain name" "calm w" "before_lock st = None"
    and v: "names_valid ens" "sizes_small ens"
    and run: "run_state (store_extract st cp name rec ens fin) w = (None, w')"
  shows "fst (run_state (state_of cp name) w') = (Complete, None)
    \<and> (record_valid rec \<longrightarrow>
        fst (run_state (read_record cp name) w') = Inr (rec\<lparr>rec_content := map file_of (wanted ens)\<rparr>))"
  by (rule extract_reads_back [OF assms])

lemma sample_valid: "names_valid [tar_file ''images/a.tar'' ''abc'']" "sizes_small [tar_file ''images/a.tar'' ''abc'']"
  by (simp_all add: names_valid_def sizes_small_def wanted_def skipped_def tar_file_def flag_defs sentinel_name_def
      base_def strip_slashes_def Let_def ascii_valid ascii_def byte_def)

theorem extract_then_state_witness:
  "\<exists>w'. run_state (store_extract no_hook [''cache''] ''boot'' agent_record [tar_file ''images/a.tar'' ''abc''] Eof)
       (cache_world [] (Some new_sums)) = (None, w')
     \<and> fst (run_state (state_of [''cache''] ''boot'') w') = (Complete, None)"
proof -
  obtain w' where run: "run_state (store_extract no_hook [''cache''] ''boot'' agent_record
      [tar_file ''images/a.tar'' ''abc''] Eof) (cache_world [] (Some new_sums)) = (None, w')"
    using sample_extract [OF whole_sample] by blast
  from extract_then_state [OF _ _ _ _ _ sample_valid run] show ?thesis using run by (simp add: plain_def)
qed

text \<open>C8: A file name that is not valid UTF-8 is extracted as it is, but the sentinel records it
  with the replacement character, so State finds the directory incomplete although the extraction
  succeeded: every pass extracts it again.\<close>

theorem invalid_name_incomplete:
  assumes "dir_at (root w) cp" "clean_path cp" "plain name" "calm w" "before_lock st = None" "memory w \<noteq> None"
    and v: "sizes_small ens" "(b, d) \<in> set (wanted ens)" "sanitize b \<notin> insert sentinel_name (fst ` set (wanted ens))"
    and run: "run_state (store_extract st cp name rec ens fin) w = (None, w')"
  shows "\<not> valid_utf8 b \<and> fst (run_state (state_of cp name) w') = (Incomplete, None)"
proof -
  note x = extracted_state [OF assms(1-5) run]
  have "\<not> valid_utf8 b" using v(2,3) sanitize_valid by force
  with x image_incomplete [OF x(2,1) assms(2,3) v(1,2)] v(3) assms(6) show ?thesis by simp
qed

lemma whole_invalid: "whole [tar_file [CHR 0xFF] ''abc''] Eof"
  "wanted [tar_file [CHR 0xFF] ''abc''] = [([CHR 0xFF], ''abc'')]" "sanitize [CHR 0xFF] = replacement"
  by (simp_all add: whole_def acceptable_def entry_ok_def skipped_def tar_file_def flag_defs sentinel_name_def plain_def
      base_def strip_slashes_def Let_def wanted_def sanitize.simps(2) rune_need_def byte_def)

theorem invalid_name_incomplete_witness:
  "\<exists>w'. run_state (store_extract no_hook [''cache''] ''boot'' agent_record [tar_file [CHR 0xFF] ''abc''] Eof)
       (cache_world [] (Some new_sums)) = (None, w')
     \<and> fst (run_state (state_of [''cache''] ''boot'') w') = (Incomplete, None)"
proof -
  obtain w' where run: "run_state (store_extract no_hook [''cache''] ''boot'' agent_record
      [tar_file [CHR 0xFF] ''abc''] Eof) (cache_world [] (Some new_sums)) = (None, w')"
    using sample_extract [OF whole_invalid(1)] by blast
  from invalid_name_incomplete [OF _ _ _ _ _ _ _ _ _ run, of "[CHR 0xFF]" "''abc''"] show ?thesis
    using run by (simp add: plain_def sizes_small_def whole_invalid replacement_def sentinel_name_def del: wanted_simps)
qed

end
