(* ===== verification/Collect.thy ===== *)
theory Collect
  imports StateSpec
begin

section \<open>Garbage collection and sweeping\<close>

text \<open>
  Which entries of the cache path a collection keeps (\<open>survives\<close>, the list of DESIGN.md under
  Cache layout), and the proofs that \<open>gc\<close> removes exactly the others when nothing fails, and
  never touches a surviving entry whatever fails. \<open>sweep_temporaries\<close> likewise.
\<close>

subsection \<open>The specification\<close>

text \<open>Whether a directory is seeded; \<open>None\<close> when its sentinel cannot be read.\<close>

definition dir_seeded :: "(string \<times> node) list \<Rightarrow> bool option" where
  "dir_seeded fs = (case map_of fs sentinel_name of
     None \<Rightarrow> Some False
   | Some (Reg g) \<Rightarrow> (case unmarshal (fdata g) of
       None \<Rightarrow> Some False
     | Some sn \<Rightarrow> Some (rec_owner (sn_record sn) \<noteq> owner_agent))
   | Some _ \<Rightarrow> None)"

definition named :: "(string \<Rightarrow> bool) \<Rightarrow> string \<Rightarrow> node \<Rightarrow> bool" where
  "named keep n v \<longleftrightarrow> keep n \<or> is_regular v \<or> n = lost_found"

definition survives :: "nat set \<Rightarrow> (string \<Rightarrow> bool) \<Rightarrow> string \<Rightarrow> node \<Rightarrow> bool" where
  "survives lk keep n v \<longleftrightarrow> named keep n v \<or> (case v of
     Dir i fs \<Rightarrow> if is_temporary n then i \<in> lk else dir_seeded fs \<noteq> Some False
   | _ \<Rightarrow> False)"

definition unreadable :: "(string \<Rightarrow> bool) \<Rightarrow> string \<Rightarrow> node \<Rightarrow> bool" where
  "unreadable keep n v \<longleftrightarrow> \<not> named keep n v \<and> (case v of
     Dir i fs \<Rightarrow> \<not> is_temporary n \<and> dir_seeded fs = None
   | _ \<Rightarrow> False)"

text \<open>The sentinel of an entry is not a link: where a link leads is outside the entry. Nothing reads the
  sentinel of a temporary directory.\<close>

definition own_sentinel :: "string \<Rightarrow> node \<Rightarrow> bool" where
  "own_sentinel n v \<longleftrightarrow> is_temporary n \<or> (case v of Dir i fs \<Rightarrow> (\<forall>l. map_of fs sentinel_name \<noteq> Some (Link l)) | _ \<Rightarrow> True)"

subsection \<open>One entry\<close>

lemma entry_stat:
  assumes "root w = with_entries r0 cp rs" "dir_at r0 cp" "clean_path cp" "plain n" "map_of rs n = Some (Dir i fs)"
  shows "stat_in (root w) (join cp n) = Inr (Dir i fs)"
proof -
  have "dir_at (root w) cp" "map_of (entries_at (root w) cp) n = Some (Dir i fs)"
    using assms by (simp_all add: dir_at_with_entries entries_with_entries)
  then have "dir_at (root w) (cp @ [n])" "lookup (root w) (cp @ [n]) = Some (Dir i fs)"
    by (simp_all add: dir_at_entry lookup_entry)
  then show ?thesis using assms(3,4)
    by (simp add: join_plain stat_in_def lift_errno_def node_at_def resolve_dir)
qed

lemma remove_all_faultless:
  assumes "root w = with_entries r0 cp rs" "dir_at r0 cp" "clean_path cp" "plain c" "faultless w"
  shows "wp (remove_all (cp @ [c])) (\<lambda>x w'. x = Inr ()) w"
  using assms by (simp add: remove_all_def wp_mutate path_simps)

lemma remove_all_entry:
  assumes "root w = with_entries r0 cp rs" "dir_at r0 cp" "clean_path cp" "plain c"
  shows "wp (remove_all (cp @ [c])) (\<lambda>x w'. quiet w w' \<and>
      (\<exists>v. root w' = with_entries r0 cp (upd c v rs) \<and> leaves (map_of rs c) v \<and> (err_of x = None \<longrightarrow> v = None))
      \<and> (faultless w \<longrightarrow> err_of x = None)) w"
proof -
  have "wp (remove_all (cp @ [c])) (\<lambda>x w'. faultless w \<longrightarrow> x = Inr ()) w"
    using remove_all_faultless [OF assms] by (cases "faultless w") (simp_all add: wp_run)
  then have "wp (remove_all (cp @ [c])) (\<lambda>x w'. (quiet w w' \<and>
      (\<exists>v. root w' = with_entries r0 cp (upd c v rs) \<and> leaves (map_of rs c) v \<and>
       (case x of Inl e \<Rightarrow> \<not> calm w | Inr _ \<Rightarrow> v = None))) \<and> (faultless w \<longrightarrow> x = Inr ())) w"
    using remove_all_in [OF assms] by (simp only: wp_conj)
  then show ?thesis
    by (rule wp_mono) (auto simp: err_of_def split: sum.splits)
qed

lemma remove_temporary_in:
  assumes r: "root w = with_entries r0 cp rs" "dir_at r0 cp" "clean_path cp" "plain n" "map_of rs n = Some (Dir i fs)"
    and h: "honest w"
  shows "wp (remove_temporary (join cp n)) (\<lambda>(ok, e) w'. same_env w w' \<and> locks w' = locks w \<and>
      (\<exists>x. root w' = with_entries r0 cp (upd n x rs) \<and> leaves (Some (Dir i fs)) x \<and>
        (i \<in> locks w \<longrightarrow> x = Some (Dir i fs) \<and> \<not> ok) \<and> (ok \<and> e = None \<longrightarrow> x = None) \<and>
        (faultless w \<longrightarrow> e = None \<and> ok = (i \<notin> locks w)) \<and> (\<not> ok \<longrightarrow> x = Some (Dir i fs)))) w"
proof -
  have h': "ferr ft \<noteq> ENOENT" "ferr ft \<noteq> EWOULDBLOCK" if "faults w t = Some ft" for t ft
    using honestD [OF h that] machine_errno_not by auto
  have same: "with_entries r0 cp (upd n (Some (Dir i fs)) rs) = with_entries r0 cp rs" using r(5) by (simp add: update_triv)
  have t2: "same_env w (tock (tock w))" "same_env w (tock (tock (tock w)))"
    by (auto intro: env.step_trans [OF same_env_tock] env.step_trans [OF env.step_trans [OF same_env_tock same_env_tock]])
  note stat_now = entry_stat [OF r]
  show ?thesis
  proof (cases "faults w (tick w)")
    case (Some ft)
    then show ?thesis
      using h' [OF Some] r(1,5) same
      by (auto simp: remove_temporary_def open_inode_def wp_rules faultless_def intro!: exI [of _ "Some (Dir i fs)"])
  next
    case None
    note open_ok = None
    show ?thesis
    proof (cases "faults w (Suc (tick w)) \<noteq> None \<or> i \<in> locks w")
      case True
      then show ?thesis
        using open_ok stat_now r(1,5) same t2 h'
        by (auto simp: remove_temporary_def open_inode_def flock_nb_def wp_rules wp_close faultless_def
            split: option.split intro!: exI [of _ "Some (Dir i fs)"])
    next
      case False
      let ?w = "(tock (tock w))\<lparr>locks := insert i (locks w)\<rparr>"
      have rw: "root ?w = with_entries r0 cp rs" using r(1) by simp
      have "wp (remove_all (cp @ [n])) (\<lambda>x. wp (close_locked i) (\<lambda>_. wp (State_Monad.return (True, err_of x))
         (\<lambda>(ok, e) w'. same_env w w' \<and> locks w' = locks w \<and>
      (\<exists>x. root w' = with_entries r0 cp (upd n x rs) \<and> leaves (Some (Dir i fs)) x \<and>
        (i \<in> locks w \<longrightarrow> x = Some (Dir i fs) \<and> \<not> ok) \<and> (ok \<and> e = None \<longrightarrow> x = None) \<and>
        (faultless w \<longrightarrow> e = None \<and> ok = (i \<notin> locks w)) \<and> (\<not> ok \<longrightarrow> x = Some (Dir i fs)))))) ?w"
      proof (rule wp_mono [OF remove_all_entry [OF rw r(2-4)]], goal_cases)
        case (1 x w')
        then obtain v where v: "root w' = with_entries r0 cp (upd n v rs)" "leaves (Some (Dir i fs)) v"
          "err_of x = None \<longrightarrow> v = None" "faultless w \<longrightarrow> err_of x = None"
          using r(5) by (auto simp: faultless_def)
        have e: "same_env w w'" "locks w' = insert i (locks w)"
          using 1 env.step_trans [of w ?w w'] t2(1) by (auto simp: quiet_def)
        have "wp (close_locked i) (\<lambda>_ w2. same_env w w2 \<and> locks w2 = locks w \<and> root w2 = root w') w'"
          using e False by (auto simp: close_locked_def wp_mutate env.step_trans [OF e(1) same_env_tock] split: option.split)
        then show ?case
          by (rule wp_mono) (use v False in \<open>auto simp: wp_rules\<close>)
      qed
      then show ?thesis
        using False open_ok stat_now r(3,4)
        by (simp add: remove_temporary_def open_inode_def flock_nb_def wp_rules wp_bind_eq join_plain)
    qed
  qed
qed

lemma entry_seeded:
  assumes r: "root w = with_entries r0 cp rs" "dir_at r0 cp" "clean_path cp" "plain n" "map_of rs n = Some (Dir i fs)"
    and o: "own_sentinel n (Dir i fs)" "\<not> is_temporary n" and h: "honest w"
  shows "wp (seeded (join cp n)) (\<lambda>x w'. looks w w' \<and> (case x of
      Inl e \<Rightarrow> faultless w \<longrightarrow> dir_seeded fs = None
    | Inr b \<Rightarrow> dir_seeded fs = Some b)) w"
proof -
  have h': "ferr ft \<noteq> ENOENT" if "faults w t = Some ft" for t ft
    using honestD [OF h that] machine_errno_not by auto
  have "dir_at (root w) cp" "map_of (entries_at (root w) cp) n = Some (Dir i fs)"
    using r by (simp_all add: dir_at_with_entries entries_with_entries)
  then have st: "stat_in (root w) (join (join cp n) sentinel_name)
      = (case map_of fs sentinel_name of None \<Rightarrow> Inl (Sys ENOENT) | Some m \<Rightarrow> Inr m)"
    using node_at_below [OF _ r(3,4) plain_sentinel_name, of "root w" i fs True] o r(3,4)
    by (auto simp: own_sentinel_def join_plain join_in stat_in_def lift_errno_def split: option.split)
  show ?thesis
    using h' o by (auto simp: seeded_def wp_rules wp_read_file read_in_def st dir_seeded_def own_sentinel_def faultless_def
        split: option.splits node.splits)
qed

lemma gc_remove_in:
  assumes r: "root w = with_entries r0 cp rs" "dir_at r0 cp" "clean_path cp" "plain n"
  shows "wp (gc_remove (join cp n)) (\<lambda>(ok, e) w'. same_env w w' \<and> locks w' = locks w \<and>
      (\<exists>x. root w' = with_entries r0 cp (upd n x rs) \<and> leaves (map_of rs n) x \<and> (ok \<longrightarrow> x = None)) \<and>
      (faultless w \<longrightarrow> ok \<and> e = None)) w"
  unfolding gc_remove_def wp_bind
proof (rule wp_mono [OF td.along_wp [OF along_tends_forget]], goal_cases)
  case (1 _ w1)
  then have rw: "root w1 = with_entries r0 cp rs" and q: "same_env w w1" "locks w1 = locks w" "faultless w1 = faultless w"
    using r(1) by (auto simp: tends_def same_env_faultless)
  show ?case
    unfolding join_plain [OF r(3,4)]
  proof (rule wp_mono [OF remove_all_entry [OF rw r(2-4)]], goal_cases)
    case (1 x w2)
    then show ?case using q by (cases x) (auto simp: wp_rules quiet_def intro: env.step_trans)
  qed
qed

lemma gc_entry_in:
  assumes r: "root w = with_entries r0 cp rs" "dir_at r0 cp" "clean_path cp" "plain n" "map_of rs n = Some v"
    and o: "own_sentinel n v" and h: "honest w"
  shows "wp (gc_entry cp keep n v) (\<lambda>(ok, e) w'. same_env w w' \<and> locks w' = locks w \<and>
      (\<exists>x. root w' = with_entries r0 cp (upd n x rs) \<and> leaves (Some v) x \<and>
        (survives (locks w) keep n v \<longrightarrow> x = Some v) \<and> (ok \<longrightarrow> x = None)) \<and>
      (survives (locks w) keep n v \<longrightarrow> \<not> ok) \<and>
      (faultless w \<longrightarrow> ok = (\<not> survives (locks w) keep n v) \<and> (e \<noteq> None) = unreadable keep n v)) w"
proof -
  have same: "with_entries r0 cp rs = with_entries r0 cp (upd n (Some v) rs)" using r(5) by (simp add: update_triv)
  consider (named) "named keep n v" | (temp) i fs where "\<not> named keep n v" "v = Dir i fs" "is_temporary n"
    | (dir) i fs where "\<not> named keep n v" "v = Dir i fs" "\<not> is_temporary n" | (other) "\<not> named keep n v" "\<not> is_dir v"
    by (cases v) auto
  then show ?thesis
  proof cases
    case named
    then show ?thesis
      using r(1) same by (auto simp: gc_entry_def named_def wp_rules survives_def unreadable_def env.step_refl intro!: exI [of _ "Some v"])
  next
    case temp
    then have n: "gc_entry cp keep n v = do {
        (ok, err) \<leftarrow> remove_temporary (join cp n);
        State_Monad.return (case err of Some x \<Rightarrow> (False, Some (gc_error x [])) | None \<Rightarrow> (ok, None)) }"
      by (simp add: gc_entry_def named_def)
    show ?thesis
      unfolding n wp_bind
    proof (rule wp_mono [OF remove_temporary_in [OF r(1-4) r(5) [unfolded temp(2)] h]], goal_cases)
      case (1 x w')
      then show ?case using temp by (cases x) (auto simp: wp_rules survives_def unreadable_def split: option.split)
    qed
  next
    case dir
    have n: "gc_entry cp keep n v = do {
        s \<leftarrow> seeded (join cp n);
        case s of
          Inl x \<Rightarrow> State_Monad.return (False, Some (gc_error x ''reading the sentinel, so the directory is kept''))
        | Inr True \<Rightarrow> State_Monad.return (False, None)
        | Inr False \<Rightarrow> gc_remove (join cp n) }"
      using dir by (simp add: gc_entry_def named_def)
    show ?thesis
      unfolding n wp_bind
    proof (rule wp_mono [OF entry_seeded [OF r(1-4) r(5) [unfolded dir(2)] o [unfolded dir(2)] dir(3) h]], goal_cases)
      case (1 x w1)
      then have q: "same_env w w1" "locks w1 = locks w" "root w1 = with_entries r0 cp rs" "faultless w1 = faultless w"
        using r(1) by (auto simp: looks_def same_env_faultless)
      show ?case
      proof (cases x)
        case (Inl e)
        then show ?thesis using 1 q same dir
          by (auto simp: wp_rules survives_def unreadable_def intro!: exI [of _ "Some v"])
      next
        case (Inr b)
        show ?thesis
        proof (cases b)
          case True
          then show ?thesis using Inr 1 q same dir
            by (auto simp: wp_rules survives_def unreadable_def intro!: exI [of _ "Some v"])
        next
          case False
          then have s: "\<not> survives (locks w) keep n v" "\<not> unreadable keep n v"
            using Inr 1 dir by (auto simp: survives_def unreadable_def)
          have b: "b = False" using False by simp
          show ?thesis
            unfolding Inr b sum.case bool.case
            by (rule wp_mono [OF gc_remove_in [OF q(3) r(2-4)]])
              (use s q r(5) in \<open>auto intro: env.step_trans\<close>)
        qed
      qed
    qed
  next
    case other
    then have n: "gc_entry cp keep n v = gc_remove (join cp n)" by (simp add: gc_entry_def named_def)
    have s: "\<not> survives (locks w) keep n v" "\<not> unreadable keep n v"
      using other by (auto simp: survives_def unreadable_def split: node.splits)
    show ?thesis
      unfolding n by (rule wp_mono [OF gc_remove_in [OF r(1-4)]]) (use s r(5) in auto)
  qed
qed

subsection \<open>The whole directory\<close>

text \<open>The entries a collection leaves, when it took the entries \<open>es\<close> from \<open>rs\<close>.\<close>

definition gc_left :: "nat set \<Rightarrow> (string \<Rightarrow> bool) \<Rightarrow> (string \<times> node) list \<Rightarrow> (string \<times> node) list \<Rightarrow> (string \<times> node) list \<Rightarrow> bool" where
  "gc_left lk keep es rs rs' \<longleftrightarrow>
     (\<forall>n. n \<notin> fst ` set es \<longrightarrow> map_of rs' n = map_of rs n) \<and>
     (\<forall>(n, v) \<in> set es. leaves (Some v) (map_of rs' n) \<and> (survives lk keep n v \<longrightarrow> map_of rs' n = Some v))"

lemma gc_entries_in:
  assumes "root w = with_entries r0 cp rs" "dir_at r0 cp" "clean_path cp" "honest w" "distinct (map fst es)"
    "\<forall>(n, v) \<in> set es. map_of rs n = Some v \<and> plain n \<and> own_sentinel n v"
  shows "wp (gc_entries cp keep es) (\<lambda>(removed, errs) w'. same_env w w' \<and> locks w' = locks w \<and>
      (\<exists>rs'. root w' = with_entries r0 cp rs' \<and> gc_left (locks w) keep es rs rs' \<and>
        (\<forall>n \<in> set removed. map_of rs' n = None)) \<and>
      set removed \<subseteq> {n. \<exists>v. (n, v) \<in> set es \<and> \<not> survives (locks w) keep n v} \<and>
      (faultless w \<longrightarrow> removed = map fst (filter (\<lambda>(n, v). \<not> survives (locks w) keep n v) es)
        \<and> (errs \<noteq> []) = list_ex (\<lambda>(n, v). unreadable keep n v) es)) w"
  using assms
proof (induction es arbitrary: w rs)
  case Nil
  then show ?case by (auto simp: wp_rules env.step_refl gc_left_def)
next
  case (Cons a es)
  obtain n v where a: "a = (n, v)" by (cases a)
  have nv: "map_of rs n = Some v" "plain n" "own_sentinel n v" "n \<notin> fst ` set es" using Cons.prems(5,6) a by auto
  show ?case
    unfolding a gc_entries.simps wp_bind
  proof (rule wp_mono [OF gc_entry_in [OF Cons.prems(1-3) nv(2,1,3) Cons.prems(4)]], goal_cases)
    case (1 x w1)
    obtain ok e where x: "x = (ok, e)" by (cases x)
    with 1 obtain y where y: "root w1 = with_entries r0 cp (upd n y rs)" "leaves (Some v) y"
        "survives (locks w) keep n v \<longrightarrow> y = Some v \<and> \<not> ok" "ok \<longrightarrow> y = None"
      and q: "same_env w w1" "locks w1 = locks w"
      and f: "faultless w \<longrightarrow> ok = (\<not> survives (locks w) keep n v) \<and> (e \<noteq> None) = unreadable keep n v" by auto
    have h1: "honest w1" using Cons.prems(4) q same_env_honest by blast
    have es: "\<forall>(m, u) \<in> set es. map_of (upd n y rs) m = Some u \<and> plain m \<and> own_sentinel m u"
    proof clarify
      fix m u assume m: "(m, u) \<in> set es"
      then have "m \<noteq> n" using nv(4) by force
      with m Cons.prems(6) show "map_of (upd n y rs) m = Some u \<and> plain m \<and> own_sentinel m u" by auto
    qed
    have d: "distinct (map fst es)" using Cons.prems(5) by simp
    show ?case
      unfolding x prod.case wp_bind
    proof (rule wp_mono [OF Cons.IH [OF y(1) Cons.prems(2,3) h1 d es]], goal_cases)
      case (1 z w2)
      obtain removed errs where z: "z = (removed, errs)" by (cases z)
      have fl: "faultless w1 = faultless w" using q(1) by (rule same_env_faultless)
      have q2: "same_env w w2" "locks w2 = locks w" using 1 z q by (auto intro: env.step_trans)
      from 1 obtain rs' where rs': "root w2 = with_entries r0 cp rs'" "gc_left (locks w) keep es (upd n y rs) rs'"
          "\<forall>m \<in> set removed. map_of rs' m = None"
        and rm: "set removed \<subseteq> {m. \<exists>u. (m, u) \<in> set es \<and> \<not> survives (locks w) keep m u}"
        and f2: "faultless w \<longrightarrow> removed = map fst (filter (\<lambda>(n, v). \<not> survives (locks w) keep n v) es)
          \<and> (errs \<noteq> []) = list_ex (\<lambda>(n, v). unreadable keep n v) es"
        unfolding z prod.case q(2) fl by blast
      have "map_of rs' n = y" using rs'(2) nv(4) by (simp add: gc_left_def)
      moreover have "gc_left (locks w) keep ((n, v) # es) rs rs'"
        using rs'(2) y calculation by (auto simp: gc_left_def)
      ultimately have "\<exists>rs'. root w2 = with_entries r0 cp rs' \<and> gc_left (locks w) keep ((n, v) # es) rs rs' \<and>
          (\<forall>m \<in> set (if ok then n # removed else removed). map_of rs' m = None)"
        using rs' y(4) by auto
      then show ?case
        using q2 rm f f2 y(3) unfolding z by (auto simp: wp_rules split: option.split)
    qed
  qed
qed

lemma readdir_entries:
  assumes "dir_at r cp" "clean_path cp"
  shows "readdir_in r cp = Inr (map (\<lambda>n. (n, the (map_of (entries_at r cp) n))) (names (entries_at r cp)))"
  using assms by (auto simp: readdir_in_def stat_in_def lift_errno_def node_at_def resolve_dir dir_at_iff entries_at_def)

definition listing :: "(string \<times> node) list \<Rightarrow> (string \<times> node) list" where
  "listing es = map (\<lambda>n. (n, the (map_of es n))) (names es)"

lemma listing_facts:
  "distinct (map fst (listing es))" "(n, v) \<in> set (listing es) \<longleftrightarrow> map_of es n = Some v" "fst ` set (listing es) = fst ` set es"
proof -
  show "distinct (map fst (listing es))" by (simp add: listing_def comp_def)
  show "(n, v) \<in> set (listing es) \<longleftrightarrow> map_of es n = Some v"
  proof (cases "map_of es n")
    case None
    then have "n \<notin> fst ` set es" by (simp add: map_of_eq_None_iff)
    then show ?thesis using None by (auto simp: listing_def)
  next
    case (Some u)
    then have "n \<in> fst ` set es" by (rule map_of_Some_name)
    then show ?thesis using Some by (auto simp: listing_def image_iff)
  qed
  show "fst ` set (listing es) = fst ` set es" by (simp add: listing_def image_image)
qed

text \<open>A cache path whose entries have ordinary names and no sentinel that is a link.\<close>

definition orderly :: "node \<Rightarrow> path \<Rightarrow> bool" where
  "orderly r cp \<longleftrightarrow> dir_at r cp \<and> clean_path cp \<and>
     list_all (\<lambda>n. plain n \<and> own_sentinel n (the (map_of (entries_at r cp) n))) (map fst (entries_at r cp))"

lemma orderly_iff:
  "orderly r cp \<longleftrightarrow> dir_at r cp \<and> clean_path cp \<and> (\<forall>n v. map_of (entries_at r cp) n = Some v \<longrightarrow> plain n \<and> own_sentinel n v)"
proof -
  have "(n \<in> fst ` set es) = (\<exists>v. map_of es n = Some v)" for n and es :: "(string \<times> node) list"
    by (simp add: map_of_eq_None_iff flip: not_None_eq)
  then have "list_all P (map fst es) = (\<forall>n v. map_of es n = Some v \<longrightarrow> P n)" for P and es :: "(string \<times> node) list"
    unfolding list_all_iff set_map by blast
  then show ?thesis by (auto simp: orderly_def)
qed

lemma orderly_entry: "orderly r cp \<Longrightarrow> map_of (entries_at r cp) n = Some v \<Longrightarrow> plain n \<and> own_sentinel n v"
  by (simp add: orderly_iff)

lemma new_aggregate_errs [simp]:
  "new_aggregate [] = None" "(\<exists>y. new_aggregate (map Some es) = Some y) = (es \<noteq> [])"
  by (simp_all flip: not_None_eq)

lemma gc_in:
  assumes o: "orderly (root w) cp" and h: "honest w"
  shows "wp (gc cp keep) (\<lambda>(removed, e) w'. same_env w w' \<and> locks w' = locks w \<and>
      (\<exists>rs'. root w' = with_entries (root w) cp rs' \<and>
        gc_left (locks w) keep (listing (entries_at (root w) cp)) (entries_at (root w) cp) rs' \<and>
        (\<forall>n \<in> set removed. map_of rs' n = None)) \<and>
      (\<forall>n \<in> set removed. \<exists>v. map_of (entries_at (root w) cp) n = Some v \<and> \<not> survives (locks w) keep n v) \<and>
      (faultless w \<longrightarrow>
        removed = map fst (filter (\<lambda>(n, v). \<not> survives (locks w) keep n v) (listing (entries_at (root w) cp))) \<and>
        (e \<noteq> None) = list_ex (\<lambda>(n, v). unreadable keep n v) (listing (entries_at (root w) cp)))) w"
proof -
  let ?rs = "entries_at (root w) cp"
  have d: "dir_at (root w) cp" "clean_path cp" using o by (simp_all add: orderly_def)
  have r: "root (tock w) = with_entries (root w) cp ?rs" using d(1) by simp
  have h1: "honest (tock w)" using h by (simp add: honest_def)
  have l: "\<forall>(n, v) \<in> set (listing ?rs). map_of ?rs n = Some v \<and> plain n \<and> own_sentinel n v"
    using listing_facts(2) orderly_entry [OF o] by auto
  have "wp (gc_entries cp keep (listing ?rs)) (\<lambda>x. wp (case x of (removed, errs) \<Rightarrow>
        State_Monad.return (removed, new_aggregate (map Some errs))) (\<lambda>(removed, e) w'. same_env w w' \<and> locks w' = locks w \<and>
      (\<exists>rs'. root w' = with_entries (root w) cp rs' \<and> gc_left (locks w) keep (listing ?rs) ?rs rs' \<and>
        (\<forall>n \<in> set removed. map_of rs' n = None)) \<and>
      (\<forall>n \<in> set removed. \<exists>v. map_of ?rs n = Some v \<and> \<not> survives (locks w) keep n v) \<and>
      (faultless w \<longrightarrow> removed = map fst (filter (\<lambda>(n, v). \<not> survives (locks w) keep n v) (listing ?rs)) \<and>
        (e \<noteq> None) = list_ex (\<lambda>(n, v). unreadable keep n v) (listing ?rs)))) (tock w)"
  proof (rule wp_mono [OF gc_entries_in [OF r d h1 listing_facts(1) l]], goal_cases)
    case (1 x w')
    then have "same_env w w'" by (auto intro: env.step_trans [OF same_env_tock])
    then show ?case using 1 listing_facts(2)
      by (cases x) (auto simp: wp_rules subset_iff)
  qed
  moreover have "\<exists>rs'. root w = with_entries (root w) cp rs' \<and> gc_left (locks w) keep (listing ?rs) ?rs rs'"
    using d(1) listing_facts(2) by (intro exI [of _ ?rs]) (auto simp: gc_left_def)
  ultimately show ?thesis
    using h by (auto simp: gc_def wp_rules wp_read_dir wp_bind_eq readdir_entries [OF d] listing_def [symmetric]
        dest: honestD machine_errno_not split: option.split)
qed

subsection \<open>Properties of GC\<close>

lemma map_of_gc_left:
  assumes "gc_left lk keep (listing es) es rs'"
  shows "map_of es n = None \<Longrightarrow> map_of rs' n = None"
    "map_of es n = Some v \<Longrightarrow> leaves (Some v) (map_of rs' n)"
    "map_of es n = Some v \<Longrightarrow> survives lk keep n v \<Longrightarrow> map_of rs' n = Some v"
proof -
  assume "map_of es n = None"
  moreover from this have "n \<notin> fst ` set (listing es)" by (simp add: listing_facts(3) map_of_eq_None_iff)
  ultimately show "map_of rs' n = None" using assms by (simp add: gc_left_def)
next
  assume "map_of es n = Some v"
  then have "(n, v) \<in> set (listing es)" by (simp add: listing_facts(2))
  with assms have "case (n, v) of (n, v) \<Rightarrow> leaves (Some v) (map_of rs' n) \<and> (survives lk keep n v \<longrightarrow> map_of rs' n = Some v)"
    unfolding gc_left_def by blast
  then show "leaves (Some v) (map_of rs' n)" "survives lk keep n v \<Longrightarrow> map_of rs' n = Some v" by auto
qed

lemma gc_removes:
  assumes o: "orderly (root w) cp" and f: "faultless w" and run: "run_state (gc cp keep) w = ((removed, e), w')"
  shows "removed = filter (\<lambda>n. \<not> survives (locks w) keep n (the (lookup (root w) (cp @ [n])))) (names (entries_at (root w) cp))
    \<and> (\<forall>n. lookup (root w') (cp @ [n]) = (if n \<in> set removed then None else lookup (root w) (cp @ [n])))
    \<and> elsewhere cp (set removed) (root w) (root w') \<and> locks w' = locks w
    \<and> (e \<noteq> None \<longleftrightarrow> (\<exists>n v. lookup (root w) (cp @ [n]) = Some v \<and> unreadable keep n v))"
proof -
  let ?es = "entries_at (root w) cp"
  have d: "dir_at (root w) cp" using o by (simp add: orderly_def)
  have h: "honest w" using f by (simp add: faultless_def honest_def)
  obtain rs' where r: "root w' = with_entries (root w) cp rs'" and left: "gc_left (locks w) keep (listing ?es) ?es rs'"
    and gone: "\<forall>n \<in> set removed. map_of rs' n = None" and l: "locks w' = locks w"
    and rm: "removed = map fst (filter (\<lambda>(n, v). \<not> survives (locks w) keep n v) (listing ?es))"
    and e: "(e \<noteq> None) = list_ex (\<lambda>(n, v). unreadable keep n v) (listing ?es)"
    using wpD [OF gc_in [OF o h] run] f by auto
  have rm': "removed = filter (\<lambda>n. \<not> survives (locks w) keep n (the (lookup (root w) (cp @ [n])))) (names ?es)"
    unfolding rm listing_def lookup_entry [OF d] by (simp add: filter_map comp_def)
  have m: "map_of rs' n = (if n \<in> set removed then None else map_of ?es n)" for n
  proof (cases "map_of ?es n")
    case None
    then show ?thesis using map_of_gc_left(1) [OF left] by simp
  next
    case (Some v)
    then have "n \<in> set removed \<longleftrightarrow> \<not> survives (locks w) keep n v"
      using lookup_entry [OF d] map_of_Some_name [OF Some] by (simp add: rm')
    then show ?thesis using gone map_of_gc_left(3) [OF left Some] Some by simp
  qed
  have d': "dir_at (root w') cp" using d r by (simp add: dir_at_with_entries)
  have "\<forall>n. lookup (root w') (cp @ [n]) = (if n \<in> set removed then None else lookup (root w) (cp @ [n]))"
    using m r d d' by (simp add: lookup_entry entries_with_entries)
  moreover have "elsewhere cp (set removed) (root w) (root w')"
    unfolding r using d m by (intro elsewhere_with_entries) auto
  moreover have "(e \<noteq> None) = (\<exists>n v. lookup (root w) (cp @ [n]) = Some v \<and> unreadable keep n v)"
    unfolding e lookup_entry [OF d] by (simp add: list_ex_iff Bex_def split_paired_Ex listing_facts(2))
  ultimately show ?thesis using rm' l by blast
qed

text \<open>C17: With no failing call, a collection removes exactly the entries that do not survive, in
  order of their names, keeps the others and the locks as they are, and reports an error exactly
  when a sentinel cannot be read.\<close>

theorem gc_exact:
  assumes o: "orderly (root w) cp" and f: "faultless w" and run: "run_state (gc cp keep) w = ((removed, e), w')"
  shows "removed = filter (\<lambda>n. \<not> survives (locks w) keep n (the (lookup (root w) (cp @ [n])))) (names (entries_at (root w) cp))
    \<and> (\<forall>n. lookup (root w') (cp @ [n]) = (if n \<in> set removed then None else lookup (root w) (cp @ [n])))
    \<and> elsewhere cp (set removed) (root w) (root w') \<and> locks w' = locks w
    \<and> (e \<noteq> None \<longleftrightarrow> (\<exists>n v. lookup (root w) (cp @ [n]) = Some v \<and> unreadable keep n v))"
  by (rule gc_removes [OF assms])

text \<open>A cache path with a resource to keep, one the agent no longer keeps, a flat file and a link.\<close>

definition littered :: "(string \<times> node) list" where
  "littered = [(''kept'', Dir 3 []), (''stale'', Dir 4 []), (''flat.tar'', Reg \<lparr>fdata = ''x'', fdev = 1, fino = 5, fmtime = 0, fctime = 0\<rparr>),
     (''link'', Link ''/etc'')]"

lemma orderly_littered [simp]: "orderly (root (cache_world littered m)) [''cache'']"
  by (simp add: orderly_def littered_def plain_def own_sentinel_def)

theorem gc_exact_witness:
  "fst (fst (run_state (gc [''cache''] (\<lambda>n. n = ''kept'')) (cache_world littered None))) = [''link'', ''stale'']"
proof -
  let ?m = "gc [''cache''] (\<lambda>n. n = ''kept'')"
  obtain removed e w' where run: "run_state ?m (cache_world littered None) = ((removed, e), w')"
    by (metis prod.exhaust)
  have n: "names littered = [''flat.tar'', ''kept'', ''link'', ''stale'']"
    by (simp add: names_def littered_def)
  from gc_exact [OF _ _ run] have "removed = filter (\<lambda>n. \<not> survives {} (\<lambda>n. n = ''kept'') n (the (map_of littered n))) (names littered)"
    by simp
  also have "\<dots> = [''link'', ''stale'']"
    unfolding n by (simp add: littered_def survives_def named_def is_temporary_def dir_seeded_def lost_found_def)
  finally show ?thesis by (simp add: run)
qed

lemma gc_spares:
  assumes o: "orderly (root w) cp" and h: "honest w" and run: "run_state (gc cp keep) w = ((removed, e), w')"
  shows "elsewhere cp {n. \<exists>v. lookup (root w) (cp @ [n]) = Some v \<and> \<not> survives (locks w) keep n v} (root w) (root w')
    \<and> (\<forall>n \<in> set removed. lookup (root w') (cp @ [n]) = None) \<and> locks w' = locks w"
proof -
  let ?es = "entries_at (root w) cp"
  have d: "dir_at (root w) cp" using o by (simp add: orderly_def)
  obtain rs' where r: "root w' = with_entries (root w) cp rs'" and left: "gc_left (locks w) keep (listing ?es) ?es rs'"
    and gone: "\<forall>n \<in> set removed. map_of rs' n = None" and l: "locks w' = locks w"
    using wpD [OF gc_in [OF o h] run] by auto
  have "map_of rs' c = map_of ?es c" if "c \<notin> {n. \<exists>v. lookup (root w) (cp @ [n]) = Some v \<and> \<not> survives (locks w) keep n v}" for c
    using that map_of_gc_left(1,3) [OF left] by (cases "map_of ?es c") (auto simp: lookup_entry [OF d])
  then have "elsewhere cp {n. \<exists>v. lookup (root w) (cp @ [n]) = Some v \<and> \<not> survives (locks w) keep n v} (root w) (root w')"
    unfolding r by (intro elsewhere_with_entries [OF d]) blast
  moreover have "\<forall>n \<in> set removed. lookup (root w') (cp @ [n]) = None"
    using gone r d by (simp add: lookup_entry dir_at_with_entries entries_with_entries)
  ultimately show ?thesis using l by blast
qed

text \<open>Whatever fails, a collection never touches an entry that survives, nor anything inside it or
  outside the cache path: what a resource keeps, flat files, seeded directories, directories whose
  sentinel cannot be read, extractions in progress. What it reports as removed is gone.\<close>

theorem gc_safe:
  assumes o: "orderly (root w) cp" and h: "honest w" and run: "run_state (gc cp keep) w = ((removed, e), w')"
  shows "elsewhere cp {n. \<exists>v. lookup (root w) (cp @ [n]) = Some v \<and> \<not> survives (locks w) keep n v} (root w) (root w')
    \<and> (\<forall>n \<in> set removed. lookup (root w') (cp @ [n]) = None) \<and> locks w' = locks w"
  by (rule gc_spares [OF assms])

theorem gc_safe_witness:
  "lookup (root (snd (run_state (gc [''cache''] (\<lambda>n. n = ''kept'')) (cache_world littered None)))) [''cache'', ''kept'']
     = Some (Dir 3 [])"
proof -
  let ?m = "gc [''cache''] (\<lambda>n. n = ''kept'')"
  obtain removed e w' where run: "run_state ?m (cache_world littered None) = ((removed, e), w')"
    by (metis prod.exhaust)
  have "''kept'' \<notin> {n. \<exists>v. lookup (root (cache_world littered None)) ([''cache''] @ [n]) = Some v
      \<and> \<not> survives {} (\<lambda>n. n = ''kept'') n v}"
    by (simp add: survives_def named_def)
  with gc_safe [OF _ _ run] have "lookup (root w') ([''cache''] @ [''kept'']) = lookup (root (cache_world littered None)) ([''cache''] @ [''kept''])"
    by (simp add: elsewhere_def)
  moreover have "map_of littered ''kept'' = Some (Dir 3 [])" by (simp add: littered_def)
  ultimately show ?thesis by (simp add: run)
qed

subsection \<open>Sweeping\<close>

definition swept :: "nat set \<Rightarrow> string \<Rightarrow> string \<Rightarrow> node \<Rightarrow> bool" where
  "swept lk name n v \<longleftrightarrow> has_prefix n (temp_prefix name) \<and> (case v of Dir i fs \<Rightarrow> i \<notin> lk | _ \<Rightarrow> False)"

lemma sweep_entries_in:
  assumes "root w = with_entries r0 cp rs" "dir_at r0 cp" "clean_path cp" "honest w" "distinct (map fst es)"
    "\<forall>(n, v) \<in> set es. map_of rs n = Some v \<and> plain n"
  shows "wp (sweep_entries cp (temp_prefix name) es) (\<lambda>(removed, errs) w'. same_env w w' \<and> locks w' = locks w \<and>
      (\<exists>rs'. root w' = with_entries r0 cp rs' \<and> (\<forall>n \<in> set removed. map_of rs' n = None) \<and>
        (\<forall>n. (\<forall>v. (n, v) \<in> set es \<longrightarrow> \<not> swept (locks w) name n v) \<longrightarrow> map_of rs' n = map_of rs n)) \<and>
      (faultless w \<longrightarrow> removed = map fst (filter (\<lambda>(n, v). swept (locks w) name n v) es) \<and> errs = [])) w"
  using assms
proof (induction es arbitrary: w rs)
  case Nil
  then show ?case by (auto simp: wp_rules env.step_refl)
next
  case (Cons a es)
  obtain n v where a: "a = (n, v)" by (cases a)
  have nv: "map_of rs n = Some v" "plain n" "n \<notin> fst ` set es" using Cons.prems(5,6) a by auto
  have d: "distinct (map fst es)" using Cons.prems(5) by simp
  show ?case
  proof (cases "\<not> is_dir v \<or> \<not> has_prefix n (temp_prefix name)")
    case True
    then have ns: "\<not> swept (locks w) name n v" by (auto simp: swept_def split: node.split)
    have es: "\<forall>(m, u) \<in> set es. map_of rs m = Some u \<and> plain m" using Cons.prems(6) by simp
    show ?thesis
      unfolding a sweep_entries.simps if_P [OF True]
      by (rule wp_mono [OF Cons.IH [OF Cons.prems(1-4) d es]]) (use ns in auto)
  next
    case False
    then obtain i fs where v: "v = Dir i fs" by (cases v) auto
    show ?thesis
      unfolding a sweep_entries.simps if_not_P [OF False] wp_bind
    proof (rule wp_mono [OF remove_temporary_in [OF Cons.prems(1-3) nv(2) nv(1) [unfolded v] Cons.prems(4)]], goal_cases)
      case (1 x w1)
      obtain ok e where x: "x = (ok, e)" by (cases x)
      with 1 obtain y where y: "root w1 = with_entries r0 cp (upd n y rs)" "i \<in> locks w \<longrightarrow> y = Some v \<and> \<not> ok"
          "ok \<and> e = None \<longrightarrow> y = None" "\<not> ok \<longrightarrow> y = Some v"
        and q: "same_env w w1" "locks w1 = locks w" and f: "faultless w \<longrightarrow> e = None \<and> ok = (i \<notin> locks w)"
        using v by auto
      have h1: "honest w1" using Cons.prems(4) q same_env_honest by blast
      have es: "\<forall>(m, u) \<in> set es. map_of (upd n y rs) m = Some u \<and> plain m"
      proof clarify
        fix m u assume m: "(m, u) \<in> set es"
        then have "m \<noteq> n" using nv(3) by force
        with m Cons.prems(6) show "map_of (upd n y rs) m = Some u \<and> plain m" by auto
      qed
      have sw: "swept (locks w) name n v = (i \<notin> locks w)" using False v by (simp add: swept_def)
      have fl: "faultless w1 = faultless w" using q(1) by (rule same_env_faultless)
      show ?case
        unfolding x prod.case wp_bind
      proof (rule wp_mono [OF Cons.IH [OF y(1) Cons.prems(2,3) h1 d es]], goal_cases)
        case (1 z w2)
        obtain removed errs where z: "z = (removed, errs)" by (cases z)
        have q2: "same_env w w2" "locks w2 = locks w" using 1 z q by (auto intro: env.step_trans)
        from 1 obtain rs' where rs': "root w2 = with_entries r0 cp rs'" "\<forall>m \<in> set removed. map_of rs' m = None"
            "\<forall>m. (\<forall>u. (m, u) \<in> set es \<longrightarrow> \<not> swept (locks w) name m u) \<longrightarrow> map_of rs' m = map_of (upd n y rs) m"
          and f2: "faultless w \<longrightarrow> removed = map fst (filter (\<lambda>(n, v). swept (locks w) name n v) es) \<and> errs = []"
          unfolding z prod.case q(2) fl by blast
        have n: "map_of rs' n = y" using rs'(3) nv(3) by (force simp: image_iff)
        have "map_of rs' m = map_of rs m" if "\<forall>u. (m, u) \<in> set ((n, v) # es) \<longrightarrow> \<not> swept (locks w) name m u" for m
          using that rs'(3) n y(2) nv(1) sw by (cases "m = n") auto
        then have "\<exists>rs'. root w2 = with_entries r0 cp rs' \<and>
            (\<forall>m \<in> set (if ok \<and> e = None then n # removed else removed). map_of rs' m = None) \<and>
            (\<forall>m. (\<forall>u. (m, u) \<in> set ((n, v) # es) \<longrightarrow> \<not> swept (locks w) name m u) \<longrightarrow> map_of rs' m = map_of rs m)"
          using rs' n y(3) by (intro exI [of _ rs']) auto
        moreover have "(case e of Some x \<Rightarrow> (removed, gc_error x [] # errs) | None \<Rightarrow> (if ok then n # removed else removed, errs))
            = (if ok \<and> e = None then n # removed else removed, case e of Some x \<Rightarrow> gc_error x [] # errs | None \<Rightarrow> errs)"
          by (cases e) auto
        moreover have "faultless w \<longrightarrow> (if ok \<and> e = None then n # removed else removed)
            = map fst (filter (\<lambda>(n, v). swept (locks w) name n v) ((n, v) # es))
            \<and> (case e of Some x \<Rightarrow> gc_error x [] # errs | None \<Rightarrow> errs) = []"
          using f f2 sw by auto
        ultimately show ?case
          using q2 unfolding z prod.case wp_return by simp
      qed
    qed
  qed
qed

lemma sweep_in:
  assumes o: "orderly (root w) cp" and h: "honest w"
  shows "wp (sweep_temporaries cp name) (\<lambda>(removed, e) w'. elsewhere cp {n. \<exists>v. lookup (root w) (cp @ [n]) = Some v \<and> swept (locks w) name n v} (root w) (root w')
    \<and> (\<forall>n \<in> set removed. lookup (root w') (cp @ [n]) = None) \<and> locks w' = locks w \<and> same_env w w'
    \<and> (faultless w \<longrightarrow> e = None \<and>
        removed = filter (\<lambda>n. swept (locks w) name n (the (lookup (root w) (cp @ [n])))) (names (entries_at (root w) cp)))) w"
proof -
  let ?es = "entries_at (root w) cp"
  have d: "dir_at (root w) cp" "clean_path cp" using o by (simp_all add: orderly_def)
  have r: "root (tock w) = with_entries (root w) cp ?es" using d(1) by simp
  have h1: "honest (tock w)" using h by (simp add: honest_def)
  have l: "\<forall>(n, v) \<in> set (listing ?es). map_of ?es n = Some v \<and> plain n"
    using listing_facts(2) orderly_entry [OF o] by auto
  have f: "map fst (filter (\<lambda>(n, v). swept (locks w) name n v) (listing ?es))
      = filter (\<lambda>n. swept (locks w) name n (the (lookup (root w) (cp @ [n])))) (names ?es)"
    unfolding listing_def lookup_entry [OF d(1)] by (simp add: filter_map comp_def)
  let ?Q = "\<lambda>(removed, e) w'. elsewhere cp {n. \<exists>v. lookup (root w) (cp @ [n]) = Some v \<and> swept (locks w) name n v} (root w) (root w')
    \<and> (\<forall>n \<in> set removed. lookup (root w') (cp @ [n]) = None) \<and> locks w' = locks w \<and> same_env w w'
    \<and> (faultless w \<longrightarrow> e = None \<and>
        removed = filter (\<lambda>n. swept (locks w) name n (the (lookup (root w) (cp @ [n])))) (names ?es))"
  have "wp (sweep_entries cp (temp_prefix name) (listing ?es)) (\<lambda>x. wp (case x of (removed, errs) \<Rightarrow>
        State_Monad.return (removed, new_aggregate (map Some errs))) ?Q) (tock w)"
  proof (rule wp_mono [OF sweep_entries_in [OF r d h1 listing_facts(1) l]], goal_cases)
    case (1 x w')
    obtain removed errs where x: "x = (removed, errs)" by (cases x)
    from 1 obtain rs' where rs': "root w' = with_entries (root w) cp rs'" "\<forall>n \<in> set removed. map_of rs' n = None"
        "\<forall>n. (\<forall>v. (n, v) \<in> set (listing ?es) \<longrightarrow> \<not> swept (locks w) name n v) \<longrightarrow> map_of rs' n = map_of ?es n"
      and f2: "faultless w \<longrightarrow> removed = map fst (filter (\<lambda>(n, v). swept (locks w) name n v) (listing ?es)) \<and> errs = []"
      and lk: "locks w' = locks w" "same_env w w'"
      unfolding x prod.case by (auto intro: env.step_trans [OF same_env_tock])
    have "elsewhere cp {n. \<exists>v. lookup (root w) (cp @ [n]) = Some v \<and> swept (locks w) name n v} (root w) (root w')"
      unfolding rs'(1) lookup_entry [OF d(1)] using rs'(3) listing_facts(2) by (intro elsewhere_with_entries [OF d(1)]) auto
    moreover have "\<forall>n \<in> set removed. lookup (root w') (cp @ [n]) = None"
      using rs'(1,2) d(1) by (simp add: lookup_entry dir_at_with_entries entries_with_entries)
    ultimately show ?case using f2 lk f unfolding x by (auto simp: wp_rules)
  qed
  then show ?thesis
    using h by (auto simp: sweep_temporaries_def wp_rules wp_read_dir wp_bind_eq readdir_entries [OF d] listing_def [symmetric]
        faultless_def split: option.split)
qed

text \<open>C18: A sweep for a resource removes only unlocked temporary directories of its name, whatever fails;
  when nothing does, all of them, and it returns their names in order. They are told by the prefix of their names, as in the
  code: a leftover of a resource called \<^verbatim>\<open>boot.tmp-1\<close> counts as one of \<^verbatim>\<open>boot\<close>.\<close>

theorem sweep_spec:
  assumes "orderly (root w) cp" "honest w" "run_state (sweep_temporaries cp name) w = ((removed, e), w')"
  shows "elsewhere cp {n. \<exists>v. lookup (root w) (cp @ [n]) = Some v \<and> swept (locks w) name n v} (root w) (root w')
    \<and> (\<forall>n \<in> set removed. lookup (root w') (cp @ [n]) = None) \<and> locks w' = locks w
    \<and> (faultless w \<longrightarrow> e = None \<and>
        removed = filter (\<lambda>n. swept (locks w) name n (the (lookup (root w) (cp @ [n])))) (names (entries_at (root w) cp)))"
  using wpD [OF sweep_in [OF assms(1,2)] assms(3)] by simp

text \<open>A cache path with the leftovers of two runs, one still locked.\<close>

definition leftovers :: sworld where
  "leftovers = (cache_world [(''.boot.tmp-1'', Dir 3 []), (''.boot.tmp-2'', Dir 4 []), (''.other.tmp-1'', Dir 5 [])] None)\<lparr>locks := {4}\<rparr>"

theorem sweep_spec_witness:
  "fst (fst (run_state (sweep_temporaries [''cache''] ''boot'') leftovers)) = [''.boot.tmp-1'']"
proof -
  obtain removed e w' where run: "run_state (sweep_temporaries [''cache''] ''boot'') leftovers = ((removed, e), w')"
    by (metis prod.exhaust)
  have w: "orderly (root leftovers) [''cache'']" "honest leftovers" "faultless leftovers" "locks leftovers = {4}"
    "entries_at (root leftovers) [''cache''] = [(''.boot.tmp-1'', Dir 3 []), (''.boot.tmp-2'', Dir 4 []), (''.other.tmp-1'', Dir 5 [])]"
    by (simp_all add: leftovers_def orderly_def plain_def own_sentinel_def cache_world_def dir_at_def entries_at_def honest_def faultless_def)
  have l: "lookup (root leftovers) [''cache'', n] = map_of (entries_at (root leftovers) [''cache'']) n" for n
    by (simp add: leftovers_def)
  from sweep_spec [OF w(1,2) run] show ?thesis
    by (simp add: w l run swept_def temp_prefix_def names_def)
qed

end
