(* ===== verification/ReadBack.thy ===== *)
theory ReadBack
  imports Sentinel
begin

section \<open>A sentinel once read is kept as it is\<close>

text \<open>
  Marshalling replaces what is not UTF-8, so the round trip of \<open>Sentinel\<close> gives back a sanitized
  sentinel. What \<^verbatim>\<open>json.Unmarshal\<close> accepted needs no such care, whoever wrote the file: its
  strings are valid UTF-8 and its sizes fit an \<^verbatim>\<open>int64\<close>. So a sentinel that was read, changed in its
  owner and written back reads as the changed one.
\<close>

subsection \<open>Strings are valid\<close>

lemma rune_size_append: "rune_size s \<noteq> 0 \<Longrightarrow> rune_size (s @ t) = rune_size s"
  by (cases s) (auto simp: Let_def split: if_splits)

lemma valid_append: "valid_utf8 s \<Longrightarrow> valid_utf8 t \<Longrightarrow> valid_utf8 (s @ t)"
proof (induction s rule: valid_utf8.induct)
  case (2 c s)
  let ?n = "rune_size (c # s)"
  have n: "?n \<noteq> 0" and v: "valid_utf8 (drop (?n - 1) s)" using "2.prems"(1) by (auto simp: valid_utf8.simps(2) Let_def)
  have "rune_size (c # s @ t) = ?n" using rune_size_append [OF n, of t] by simp
  moreover have "?n - 1 \<le> length s" using rune_size_le [of "c # s"] by simp
  moreover have "valid_utf8 (drop (?n - 1) s @ t)" using "2.IH" v "2.prems"(2) by simp
  ultimately show ?case using n by (simp add: valid_utf8.simps(2) Let_def del: rune_size.simps)
qed simp

lemma valid_rune: "s \<noteq> [] \<Longrightarrow> rune_size s = length s \<Longrightarrow> valid_utf8 s"
  by (cases s) (auto simp: valid_utf8.simps(2) Let_def simp del: rune_size.simps)

lemma valid_first_rune: "rune_size s \<noteq> 0 \<Longrightarrow> valid_utf8 (take (rune_size s) s)"
  using rune_size_take [of s "[]"] rune_size_le [of s] by (intro valid_rune) auto

lemma valid_replacement: "valid_utf8 replacement"
  by (rule valid_rune) (simp_all add: replacement_def rune_need_def conts_ok_def cont_in_def byte_def)

lemma valid_ascii_char: "byte c < 128 \<Longrightarrow> valid_utf8 [c]"
  by (rule valid_rune) (simp_all add: rune_need_def conts_ok_def)

lemma byte_char_of: "n < 256 \<Longrightarrow> byte (char_of n) = n"
  by (simp add: byte_def)

lemma quotient_zero: "a \<le> x \<Longrightarrow> x div 64 = 0 \<Longrightarrow> a \<le> x mod 64" for x :: nat
  by (simp add: div_eq_0_iff)

lemma quotient_at: "x div 64 = q \<Longrightarrow> x < 64 * q + a \<Longrightarrow> x mod 64 < a" for x :: nat
  using mult_div_mod_eq [of 64 x] by linarith

lemma valid_utf8_of:
  assumes "u < 1114112" "\<not> (55296 \<le> u \<and> u < 57344)"
  shows "valid_utf8 (utf8 u)"
proof -
  have m: "128 + x mod 64 < 256" for x :: nat using mod_less_divisor [of 64 x] by linarith
  have c: "cont_in 128 191 (char_of (128 + x mod 64))" for x :: nat
    using mod_less_divisor [of 64 x] by (simp add: cont_in_def byte_char_of [OF m])
  consider "u < 128" | (two) "128 \<le> u" "u < 2048" | (three) "2048 \<le> u" "u < 65536" | (four) "65536 \<le> u" by linarith
  then show ?thesis
  proof cases
    case 1
    then show ?thesis by (simp add: utf8_def valid_ascii_char byte_char_of)
  next
    case two
    then have b: "192 + u div 64 < 256" "194 \<le> 192 + u div 64" "192 + u div 64 \<le> 223" by linarith+
    have "rune_size (utf8 u) = 2"
      using two b c [of u] by (simp add: utf8_def rune_need_def conts_ok_def byte_char_of)
    then show ?thesis using two by (intro valid_rune) (simp_all add: utf8_def)
  next
    case three
    let ?x = "u div 64"
    have d: "u div 4096 = ?x div 64" by (simp add: div_mult2_eq [of u 64 64, simplified])
    have b: "224 + ?x div 64 < 256" "224 + ?x div 64 \<le> 239" using three by linarith+
    have x: "32 \<le> ?x mod 64" if "?x div 64 = 0" using three by (intro quotient_zero [OF _ that]) linarith
    have y: "?x mod 64 < 32" if q: "?x div 64 = 13"
    proof (rule quotient_at [OF q])
      have "?x < 896" using q by linarith
      then have "u < 57344" by linarith
      then have "u < 55296" using assms(2) by linarith
      then show "?x < 64 * 13 + 32" by linarith
    qed
    have "cont_in (if 224 + ?x div 64 = 224 then 160 else 128) (if 224 + ?x div 64 = 237 then 159 else 191) (char_of (128 + ?x mod 64))"
      using x y mod_less_divisor [of 64 ?x] by (auto simp: cont_in_def byte_char_of [OF m])
    then have "rune_size (utf8 u) = 3"
      using three b c [of u] by (auto simp: utf8_def d rune_need_def conts_ok_def byte_char_of split: if_splits)
    then show ?thesis using three by (intro valid_rune) (simp_all add: utf8_def)
  next
    case four
    let ?x = "u div 4096"
    have d: "u div 262144 = ?x div 64" by (simp add: div_mult2_eq [of u 4096 64, simplified])
    have b: "240 + ?x div 64 < 256" "240 + ?x div 64 \<le> 244" using assms(1) by linarith+
    have x: "16 \<le> ?x mod 64" if "?x div 64 = 0" using four by (intro quotient_zero [OF _ that]) linarith
    have y: "?x mod 64 < 16" if q: "?x div 64 = 4" using assms(1) by (intro quotient_at [OF q]) linarith
    have "cont_in (if 240 + ?x div 64 = 240 then 144 else 128) (if 240 + ?x div 64 = 244 then 143 else 191) (char_of (128 + ?x mod 64))"
      using x y mod_less_divisor [of 64 ?x] by (auto simp: cont_in_def byte_char_of [OF m])
    then have "rune_size (utf8 u) = 4"
      using four b c [of u] c [of "u div 64"] by (auto simp: utf8_def d rune_need_def conts_ok_def byte_char_of split: if_splits)
    then show ?thesis using four by (intro valid_rune) (simp_all add: utf8_def)
  qed
qed

lemma hex_val_less: "hex_val c = Some n \<Longrightarrow> n < 16"
  by (auto simp: hex_val_def Let_def split: if_splits)

lemma hex4_less: "hex4 s = Some (u, t) \<Longrightarrow> u < 65536"
  by (induction s rule: hex4.induct) (auto dest!: hex_val_less split: option.splits)

lemma valid_unicode_escape: "unicode_escape s = Some (x, t) \<Longrightarrow> valid_utf8 x"
proof -
  have pair: "valid_utf8 (utf8 (9216 + ((u - 55296) * 1024 + l)))" if "u < 56320" "56320 \<le> l" "l < 57344" for u l
  proof (rule valid_utf8_of)
    have "u - 55296 \<le> 1023" using that by linarith
    then show "9216 + ((u - 55296) * 1024 + l) < 1114112" using that by linarith
  qed (use that in linarith)
  have one: "valid_utf8 (utf8 u)" if "hex4 s = Some (u, t)" "\<not> (55296 \<le> u \<and> u < 57344)" for u t
    using hex4_less [OF that(1)] that(2) by (intro valid_utf8_of) auto
  assume "unicode_escape s = Some (x, t)"
  then show ?thesis using one pair
    by (auto simp: unicode_escape_def valid_replacement split: option.splits if_splits list.splits)
qed

lemma unescape_ascii: "unescape c = Some e \<Longrightarrow> byte e < 128"
  by (auto simp: unescape_def byte_def split: if_splits)

lemma valid_parse_str: "parse_str k s = Some (x, r) \<Longrightarrow> valid_utf8 x"
proof (induction k arbitrary: s x r)
  case (Suc k)
  have more: "valid_utf8 x" if "(case parse_str k t of None \<Rightarrow> None | Some (y, r) \<Rightarrow> Some (p @ y, r)) = Some (x, r)" "valid_utf8 p" for p t
    using that Suc.IH by (auto simp: valid_append split: option.splits)
  show ?case
  proof (cases s)
    case (Cons c t)
    with Suc.prems more show ?thesis
      by (auto simp: parse_str.simps(3) Let_def valid_replacement valid_unicode_escape valid_ascii_char unescape_ascii valid_first_rune
          simp del: rune_size.simps take_Suc_Cons split: if_splits list.splits option.splits prod.splits)
  qed (use Suc.prems in simp)
qed simp

subsection \<open>Values and sentinels\<close>

fun valid_json :: "json \<Rightarrow> bool" where
  "valid_json (JStr s) \<longleftrightarrow> valid_utf8 s"
| "valid_json (JArr xs) \<longleftrightarrow> list_all valid_json xs"
| "valid_json (JObj ms) \<longleftrightarrow> list_all (\<lambda>(k, v). valid_json v) ms"
| "valid_json _ \<longleftrightarrow> True"

lemma valid_parse_val:
  "(parse_val k s = Some (v, r) \<longrightarrow> valid_json v) \<and> (parse_elems k s = Some (xs, r) \<longrightarrow> list_all valid_json xs) \<and>
   (parse_members k s = Some (ms, r) \<longrightarrow> list_all (\<lambda>(k, v). valid_json v) ms)"
proof (induction k arbitrary: s v r xs ms)
  case (Suc k)
  have a: "valid_json v" if "parse_atom s = Some (v, r)" for s
    using that by (auto simp: parse_atom_def split: if_splits option.splits)
  have ih: "valid_json v" if "parse_val k s = Some (v, r)" for s v r using Suc.IH that by blast
  have ihs: "list_all valid_json xs" if "parse_elems k s = Some (xs, r)" for s xs r using Suc.IH that by blast
  have ihm: "list_all (\<lambda>(k, v). valid_json v) ms" if "parse_members k s = Some (ms, r)" for s ms r using Suc.IH that by blast
  have 1: "valid_json v" if "parse_val (Suc k) s = Some (v, r)"
    using that by (auto dest: a valid_parse_str ihs ihm split: list.split_asm if_split_asm option.split_asm)
  have 2: "list_all valid_json xs" if "parse_elems (Suc k) s = Some (xs, r)"
    using that by (auto split: list.split_asm if_split_asm option.split_asm) (insert ih ihs, blast)+
  have 3: "list_all (\<lambda>(k, v). valid_json v) ms" if "parse_members (Suc k) s = Some (ms, r)"
    using that by (auto split: list.split_asm if_split_asm option.split_asm) (insert ih ihm, blast)+
  show ?case using 1 2 3 by blast
qed simp

lemma valid_parse_json: "parse_json s = Some v \<Longrightarrow> valid_json v"
  using valid_parse_val [of "Suc (length s)" s v] by (auto simp: parse_json_def simp del: parse_val.simps split: option.splits if_splits)

definition valid_file :: "file_rec \<Rightarrow> bool" where
  "valid_file f \<longleftrightarrow> valid_utf8 (fr_name f) \<and> valid_utf8 (fr_digest f) \<and> int64 (fr_size f)"

definition valid_sentinel :: "sentinel \<Rightarrow> bool" where
  "valid_sentinel sn \<longleftrightarrow> (let r = sn_record sn in
     valid_utf8 (rec_digest r) \<and> valid_utf8 (rec_owner r) \<and> valid_utf8 (rec_source r) \<and>
     list_all valid_utf8 (rec_layers r) \<and> list_all valid_file (rec_content r)) \<and> list_all valid_utf8 (list_of (sn_files sn))"

text \<open>Such a sentinel is its own sanitized one.\<close>

lemma valid_sentinel_sanitize:
  assumes "valid_sentinel sn"
  shows "sizes_ok sn" "sanitize_sentinel sn = sn"
proof -
  have f: "map sanitize_file (rec_content (sn_record sn)) = rec_content (sn_record sn)"
    using assms by (intro map_idI) (auto simp: valid_sentinel_def valid_file_def sanitize_file_def sanitize_valid list_all_iff Let_def)
  have s: "map sanitize xs = xs" if "list_all valid_utf8 xs" for xs
    using that by (intro map_idI) (auto simp: sanitize_valid list_all_iff)
  have "map_option (map sanitize) (sn_files sn) = sn_files sn"
    using assms s by (cases "sn_files sn") (auto simp: valid_sentinel_def list_of_def)
  with f s assms show "sanitize_sentinel sn = sn"
    by (simp add: sanitize_sentinel_def valid_sentinel_def sanitize_valid Let_def)
  show "sizes_ok sn" using assms by (auto simp: sizes_ok_def valid_sentinel_def valid_file_def list_all_iff Let_def)
qed

lemma fold_members_keep:
  assumes "\<And>k v a b. f k v a = Some b \<Longrightarrow> P v \<Longrightarrow> I a \<Longrightarrow> I b"
  shows "fold_members f ms a = Some b \<Longrightarrow> I a \<Longrightarrow> \<forall>(k, v) \<in> set ms. P v \<Longrightarrow> I b"
proof (induction ms arbitrary: a)
  case (Cons m ms)
  then show ?case by (cases m) (auto split: option.splits dest: assms)
qed simp

lemma collect_keep: "collect g xs = Some ys \<Longrightarrow> list_all P xs \<Longrightarrow> (\<And>x y. P x \<Longrightarrow> g x = Some y \<Longrightarrow> Q y) \<Longrightarrow> list_all Q ys"
  by (induction xs arbitrary: ys) (auto split: option.splits)

lemma valid_string: "set_string old v = Some s \<Longrightarrow> valid_json v \<Longrightarrow> valid_utf8 old \<Longrightarrow> valid_utf8 s"
  by (auto simp: set_string_def split: json.splits)

lemma valid_list:
  assumes "set_list g v = Some xs" "valid_json v" "\<And>x y. valid_json x \<Longrightarrow> g x = Some y \<Longrightarrow> Q y"
  shows "list_all Q (list_of xs)"
  using assms(1,2) collect_keep [of g _ _ valid_json Q] assms(3) by (auto simp: set_list_def list_of_def split: json.splits)

lemma int64_of_lit_range: "int64_of_lit n = Some i \<Longrightarrow> int64 i"
  by (auto simp: int64_of_lit_def int64_def Let_def split: if_splits)

lemma file_field_valid: "file_field k v f = Some f' \<Longrightarrow> valid_json v \<Longrightarrow> valid_file f \<Longrightarrow> valid_file f'"
  by (auto simp: file_field_def valid_file_def dest: valid_string int64_of_lit_range split: if_splits json.splits)

lemma json_file_valid: "valid_json v \<Longrightarrow> json_file v = Some f \<Longrightarrow> valid_file f"
proof -
  assume v: "valid_json v" "json_file v = Some f"
  have z: "valid_file zero_file" by (simp add: valid_file_def zero_file_def int64_def)
  have "valid_file f" if "fold_members file_field ms zero_file = Some f" "valid_json (JObj ms)" for ms
    using that(2) by (intro fold_members_keep [where I = valid_file and P = valid_json, OF file_field_valid that(1) z]) (auto simp: list_all_iff)
  with v z show ?thesis by (auto simp: json_file_def split: json.splits)
qed

lemma sentinel_field_valid:
  assumes "sentinel_field k v sn = Some sn'" and v: "valid_json v" and "valid_sentinel sn"
  shows "valid_sentinel sn'"
proof -
  have str: "valid_utf8 x" if "set_string old v = Some x" "valid_utf8 old" for old x using valid_string that v by blast
  have strs: "list_all valid_utf8 (list_of xs)" if "set_list (set_string []) v = Some xs" for xs
    using that v by (rule valid_list) (simp add: valid_string)
  have files: "list_all valid_file (list_of fs)" if "set_list json_file v = Some fs" for fs
    using that v by (rule valid_list) (rule json_file_valid)
  have on_digest: ?thesis if "k = ''digest''"
    using assms(1,3) by (auto simp: that sentinel_field_def valid_sentinel_def Let_def str)
  have on_owner: ?thesis if "k = ''owner''"
    using assms(1,3) by (auto simp: that sentinel_field_def valid_sentinel_def Let_def str)
  have on_source: ?thesis if "k = ''source''"
    using assms(1,3) by (auto simp: that sentinel_field_def valid_sentinel_def Let_def str)
  have on_layers: ?thesis if "k = ''layers''"
    using assms(1,3) by (auto simp: that sentinel_field_def valid_sentinel_def Let_def strs)
  have on_content: ?thesis if "k = ''content''"
    using assms(1,3) by (auto simp: that sentinel_field_def valid_sentinel_def Let_def files)
  have on_files: ?thesis if "k = ''files''"
    using assms(1,3) by (auto simp: that sentinel_field_def valid_sentinel_def Let_def strs)
  have "sn' = sn" if "k \<noteq> ''digest''" "k \<noteq> ''owner''" "k \<noteq> ''source''" "k \<noteq> ''layers''" "k \<noteq> ''content''" "k \<noteq> ''files''"
    using assms(1) by (simp add: that sentinel_field_def)
  with on_digest on_owner on_source on_layers on_content on_files assms(3) show ?thesis by blast
qed

lemma unmarshal_valid: "unmarshal d = Some sn \<Longrightarrow> valid_sentinel sn"
proof -
  assume u: "unmarshal d = Some sn"
  have z: "valid_sentinel zero_sentinel" by (simp add: valid_sentinel_def zero_sentinel_def zero_record_def list_of_def)
  have fold: "valid_sentinel sn" if "fold_members sentinel_field ms zero_sentinel = Some sn" "valid_json (JObj ms)" for ms
    using that(2) by (intro fold_members_keep [where I = valid_sentinel and P = valid_json, OF sentinel_field_valid that(1) z]) (auto simp: list_all_iff)
  consider "parse_json d = Some JNull" "sn = zero_sentinel"
    | ms where "parse_json d = Some (JObj ms)" "fold_members sentinel_field ms zero_sentinel = Some sn"
    using u by (auto simp: unmarshal_def split: option.split_asm json.split_asm)
  then show ?thesis
  proof cases
    case 1
    with z show ?thesis by simp
  next
    case (2 ms)
    from fold [OF 2(2) valid_parse_json [OF 2(1)]] show ?thesis .
  qed
qed

lemmas unmarshal_read = unmarshal_valid [THEN valid_sentinel_sanitize(1)] unmarshal_valid [THEN valid_sentinel_sanitize(2)]

text \<open>The agent takes a directory over by changing the owner.\<close>

lemma valid_owner: "valid_utf8 owner \<Longrightarrow> valid_sentinel sn \<Longrightarrow> valid_sentinel (sn\<lparr>sn_record := (sn_record sn)\<lparr>rec_owner := owner\<rparr>\<rparr>)"
  by (simp add: valid_sentinel_def Let_def)

end
