(* ===== verification/Adopt.thy ===== *)
theory Adopt
  imports Collect ReadBack
begin

section \<open>Adopting a seeded directory\<close>

text \<open>
  \<open>adopt\<close> rewrites the sentinel through a temporary file renamed over it. Whatever fails, and
  whenever the process dies, the sentinel is the old one or the whole new one, and nothing else
  but the entry named like its temporary file changes. Afterwards the directory is the agent's to collect.
\<close>

definition tmp_sentinel :: string where
  "tmp_sentinel = sentinel_name @ ''.tmp''"

lemma plain_tmp_sentinel [simp]: "plain tmp_sentinel" and tmp_sentinel_ne [simp]: "tmp_sentinel \<noteq> sentinel_name"
  and sentinel_ne_tmp [simp]: "sentinel_name \<noteq> tmp_sentinel"
  by (simp_all add: tmp_sentinel_def sentinel_name_def plain_def)

text \<open>The directory to adopt: a sentinel that is a file, and no link or directory in the way of the
  temporary one.\<close>

definition adoptable :: "node \<Rightarrow> path \<Rightarrow> regfile \<Rightarrow> bool" where
  "adoptable r dir g \<longleftrightarrow> dir_at r dir \<and> clean_path dir \<and> map_of (entries_at r dir) sentinel_name = Some (Reg g) \<and>
     (case map_of (entries_at r dir) tmp_sentinel of None \<Rightarrow> True | Some n \<Rightarrow> is_regular n)"

lemma write_tmp_in:
  assumes "root w = with_entries r0 dir fs" "dir_at r0 dir" "clean_path dir" "plain c"
    "case map_of fs c of None \<Rightarrow> True | Some n \<Rightarrow> is_regular n"
  shows "wp (write_file (dir @ [c]) d) (\<lambda>x w'. quiet w w' \<and> (\<exists>v. root w' = with_entries r0 dir (upd c v fs) \<and>
      (case x of Inl e \<Rightarrow> \<not> faultless w | Inr _ \<Rightarrow> \<exists>g. v = Some (Reg g) \<and> fdata g = d))) w"
  (is "wp ?m (\<lambda>x w'. quiet w w' \<and> ?Q x w') w")
proof -
  have res: "resolve (root w) True (dir @ [c]) = Inr (dir @ [c])"
    using assms resolve_nolink [of "root w" dir c True]
    by (auto simp: dir_at_with_entries lookup_with_entries split: option.splits elim!: is_regular.elims)
  have o: "\<exists>w2 g. overwrite (dir @ [c]) e w1 = Inr w2 \<and> root w2 = with_entries r0 dir (upd c (Some (Reg g)) fs) \<and> fdata g = e"
    if "root w1 = root w" for e and w1 :: "'a world"
    using assms res that
    by (auto simp: overwrite_def lookup_with_entries put_with_entries split: option.splits elim!: is_regular.elims) force+
  have same: "\<exists>v. root w = with_entries r0 dir (upd c v fs)"
    using assms(1) upd_id by metis
  have "wp ?m ?Q w"
  proof (cases "faults w (tick w)")
    case None
    obtain w2 g where "overwrite (dir @ [c]) d (tock w) = Inr w2" "fdata g = d"
      "root w2 = with_entries r0 dir (upd c (Some (Reg g)) fs)" using o [of "tock w" d] by auto
    then show ?thesis using None by (auto simp: write_file_def wp_mutate intro!: exI [of _ "Some (Reg g)"])
  next
    case (Some ft)
    have "\<not> faultless w" using Some by (auto simp: faultless_def)
    show ?thesis
    proof (cases "fwrote ft")
      case None
      then show ?thesis using \<open>\<not> faultless w\<close> Some same by (auto simp: write_file_def wp_mutate)
    next
      case (Some k)
      obtain w2 g where "overwrite (dir @ [c]) (take k d) (tock w) = Inr w2"
        "root w2 = with_entries r0 dir (upd c (Some (Reg g)) fs)" using o [of "tock w" "take k d"] by auto
      then show ?thesis using \<open>\<not> faultless w\<close> Some \<open>faults w (tick w) = Some ft\<close>
        by (auto simp: write_file_def wp_mutate intro!: exI [of _ "Some (Reg g)"])
    qed
  qed
  then show ?thesis by (rule wp_quietI [OF along_quiet_changes(4)])
qed

lemma rename_over:
  assumes "root w = with_entries r0 dir fs" "dir_at r0 dir" "clean_path dir" "plain t" "plain c" "t \<noteq> c"
    "map_of fs t = Some (Reg g)" "map_of fs c = Some (Reg g')"
  shows "wp (rename (dir @ [t]) (dir @ [c])) (\<lambda>x w'. quiet w w' \<and> (case x of
      Inl e \<Rightarrow> root w' = root w \<and> \<not> faultless w
    | Inr _ \<Rightarrow> root w' = with_entries r0 dir (upd c (Some (Reg g)) (upd t None fs)))) w"
  (is "wp ?m (\<lambda>x w'. quiet w w' \<and> ?Q x w') w")
proof -
  have "wp ?m ?Q w"
    using assms by (auto simp: rename_def wp_mutate path_simps faultless_def split: option.split)
  then show ?thesis by (rule wp_quietI [OF along_quiet_changes(5)])
qed

lemma remove_in:
  assumes "root w = with_entries r0 dir fs" "dir_at r0 dir" "clean_path dir" "plain c"
  shows "wp (remove (dir @ [c])) (\<lambda>x w'. quiet w w' \<and> (\<exists>v. root w' = with_entries r0 dir (upd c v fs))) w"
  (is "wp ?m (\<lambda>x w'. quiet w w' \<and> ?Q x w') w")
proof -
  have same: "\<exists>v. with_entries r0 dir fs = with_entries r0 dir (upd c v fs)" using upd_id by metis
  have gone: "\<exists>v. with_entries r0 dir (AList.delete c fs) = with_entries r0 dir (upd c v fs)"
    by (rule exI [of _ None]) simp
  have "wp ?m ?Q w"
    using assms gone same by (auto simp: remove_def wp_mutate path_simps simp del: upd_simps split: option.split node.split list.split)
  then show ?thesis by (rule wp_quietI [OF along_quiet_changes(6)])
qed

text \<open>The program once the sentinel is read, on the directory itself.\<close>

lemma adopt_write_in:
  assumes a: "adoptable (root w) dir g"
  shows "wp (do {
         x \<leftarrow> write_file (dir @ [tmp_sentinel]) d;
         case x of
           Inl e \<Rightarrow> State_Monad.return (Some (Wrap ErrAdopt (Some e) ''writing the new sentinel''))
         | Inr _ \<Rightarrow> do {
             y \<leftarrow> rename (dir @ [tmp_sentinel]) (dir @ [sentinel_name]);
             case y of
               Inl e \<Rightarrow> do {
                 z \<leftarrow> remove (dir @ [tmp_sentinel]);
                 State_Monad.return (new_aggregate
                   [Some (Wrap ErrAdopt (Some e) ''replacing the sentinel''), err_of z]) }
             | Inr _ \<Rightarrow> State_Monad.return None } })
     (\<lambda>x w'. quiet w w' \<and> (case x of
         None \<Rightarrow> \<exists>g'. fdata g' = d \<and>
           root w' = with_entries (root w) dir (upd sentinel_name (Some (Reg g')) (upd tmp_sentinel None (entries_at (root w) dir)))
       | Some e \<Rightarrow> \<not> faultless w \<and> is_kind ErrAdopt e \<and> (\<exists>v. root w' = with_entries (root w) dir (upd tmp_sentinel v (entries_at (root w) dir))))) w"
  unfolding wp_bind
proof -
  let ?fs = "entries_at (root w) dir"
  have d: "dir_at (root w) dir" "clean_path dir" "map_of ?fs sentinel_name = Some (Reg g)"
    "case map_of ?fs tmp_sentinel of None \<Rightarrow> True | Some n \<Rightarrow> is_regular n" using a by (auto simp: adoptable_def)
  have r: "root w = with_entries (root w) dir ?fs" using d(1) by simp
  show "wp (write_file (dir @ [tmp_sentinel]) d) (\<lambda>x. wp (case x of
           Inl e \<Rightarrow> State_Monad.return (Some (Wrap ErrAdopt (Some e) ''writing the new sentinel''))
         | Inr _ \<Rightarrow> do {
             y \<leftarrow> rename (dir @ [tmp_sentinel]) (dir @ [sentinel_name]);
             case y of
               Inl e \<Rightarrow> do {
                 z \<leftarrow> remove (dir @ [tmp_sentinel]);
                 State_Monad.return (new_aggregate
                   [Some (Wrap ErrAdopt (Some e) ''replacing the sentinel''), err_of z]) }
             | Inr _ \<Rightarrow> State_Monad.return None })
     (\<lambda>x w'. quiet w w' \<and> (case x of
         None \<Rightarrow> \<exists>g'. fdata g' = d \<and>
           root w' = with_entries (root w) dir (upd sentinel_name (Some (Reg g')) (upd tmp_sentinel None ?fs))
       | Some e \<Rightarrow> \<not> faultless w \<and> is_kind ErrAdopt e \<and> (\<exists>v. root w' = with_entries (root w) dir (upd tmp_sentinel v ?fs))))) w"
  proof (rule wp_mono [OF write_tmp_in [OF r d(1,2) plain_tmp_sentinel d(4)]], goal_cases)
    case (1 x w1)
    then obtain v where q: "quiet w w1" and r1: "root w1 = with_entries (root w) dir (upd tmp_sentinel v ?fs)"
      and x: "case x of Inl e \<Rightarrow> \<not> faultless w | Inr _ \<Rightarrow> \<exists>g. v = Some (Reg g) \<and> fdata g = d" by blast
    have fl: "faultless w1 = faultless w" using q by (simp add: quiet_def same_env_faultless)
    show ?case
    proof (cases x)
      case (Inl e)
      then show ?thesis using x q r1 by (auto simp: wp_rules)
    next
      case (Inr u)
      with x obtain g1 where g1: "v = Some (Reg g1)" "fdata g1 = d" by auto
      have m: "map_of (upd tmp_sentinel v ?fs) tmp_sentinel = Some (Reg g1)"
        "map_of (upd tmp_sentinel v ?fs) sentinel_name = Some (Reg g)" using g1 d(3) tmp_sentinel_ne by auto
      have del: "upd tmp_sentinel None (upd tmp_sentinel v ?fs) = upd tmp_sentinel None ?fs"
        using g1 by (simp add: delete_update_same)
      show ?thesis
        unfolding Inr sum.case wp_bind
      proof (rule wp_mono [OF rename_over [OF r1 d(1,2) plain_tmp_sentinel plain_sentinel_name tmp_sentinel_ne m]], goal_cases)
        case (1 y w2)
        have q2: "quiet w w2" using q 1 by (auto intro: qt.step_trans)
        show ?case
        proof (cases y)
          case (Inr u)
          then show ?thesis using 1 q2 g1(2) del by (auto simp: wp_rules)
        next
          case (Inl e)
          then have r2: "root w2 = with_entries (root w) dir (upd tmp_sentinel v ?fs)" and nf: "\<not> faultless w"
            using 1 r1 fl by auto
          show ?thesis
            unfolding Inl sum.case wp_bind
          proof (rule wp_mono [OF remove_in [OF r2 d(1,2) plain_tmp_sentinel]], goal_cases)
            case (1 z w3)
            then obtain u where "root w3 = with_entries (root w) dir (upd tmp_sentinel u (upd tmp_sentinel v ?fs))" by auto
            moreover have "upd tmp_sentinel u (upd tmp_sentinel v ?fs) = upd tmp_sentinel u ?fs"
              using g1 by (cases u) (simp_all add: delete_update_same)
            ultimately have "\<exists>u. root w3 = with_entries (root w) dir (upd tmp_sentinel u ?fs)" by metis
            then show ?case using 1 q2 nf by (auto simp: wp_rules intro: qt.step_trans)
          qed
        qed
      qed
    qed
  qed
qed

lemma adopt_in:
  assumes "adoptable (root w) (store_dir cp name) g" "unmarshal (fdata g) = Some sn"
  shows "wp (adopt cp name) (\<lambda>x w'. quiet w w' \<and> (case x of
         None \<Rightarrow> \<exists>g'. fdata g' = marshal (set_owner owner_agent sn) \<and>
           root w' = with_entries (root w) (store_dir cp name) (upd sentinel_name (Some (Reg g'))
             (upd tmp_sentinel None (entries_at (root w) (store_dir cp name))))
       | Some e \<Rightarrow> \<not> faultless w \<and> is_kind ErrAdopt e \<and>
           (\<exists>v. root w' = with_entries (root w) (store_dir cp name) (upd tmp_sentinel v (entries_at (root w) (store_dir cp name)))))) w"
proof -
  let ?dir = "store_dir cp name"
  let ?fs = "entries_at (root w) ?dir"
  have d: "dir_at (root w) ?dir" "clean_path ?dir" "map_of ?fs sentinel_name = Some (Reg g)"
    using assms(1) by (auto simp: adoptable_def)
  have j: "join ?dir sentinel_name = ?dir @ [sentinel_name]" "join ?dir (sentinel_name @ ''.tmp'') = ?dir @ [tmp_sentinel]"
    using d(2) plain_tmp_sentinel by (simp_all add: join_plain tmp_sentinel_def)
  have rd: "read_in (root w) (?dir @ [sentinel_name]) = Inr (fdata g)"
    using node_at_nolink [OF d(1,2) plain_sentinel_name, of True] d(1,3)
    by (simp add: read_in_def stat_in_def lift_errno_def lookup_entry)
  have same: "\<exists>v. root w = with_entries (root w) ?dir (upd tmp_sentinel v ?fs)"
    using d(1) upd_id with_entries_self by metis
  show ?thesis
  proof (cases "faults w (tick w)")
    case (Some ft)
    then have "\<not> faultless w" by (auto simp: faultless_def)
    then show ?thesis
      using Some same by (auto simp: adopt_def read_sentinel_def wp_rules wp_read_file)
  next
    case None
    have "adoptable (root (tock w)) ?dir g" using assms(1) by simp
    note step = wp_mono [OF adopt_write_in [OF this, of "marshal (set_owner owner_agent sn)"],
        of "\<lambda>x w'. quiet w w' \<and> (case x of
         None \<Rightarrow> \<exists>g'. fdata g' = marshal (set_owner owner_agent sn) \<and>
           root w' = with_entries (root w) ?dir (upd sentinel_name (Some (Reg g')) (upd tmp_sentinel None ?fs))
       | Some e \<Rightarrow> \<not> faultless w \<and> is_kind ErrAdopt e \<and> (\<exists>v. root w' = with_entries (root w) ?dir (upd tmp_sentinel v ?fs)))"]
    show ?thesis
      using None rd assms(2)
      by (simp add: adopt_def read_sentinel_def wp_rules wp_read_file j Let_def del: new_aggregate_Some_Cons upd_simps)
        (rule step [unfolded wp_bind], auto simp del: upd_simps intro: qt.step_trans [OF quiet_tock] split: option.splits)
  qed
qed

text \<open>C19: Whatever fails, adopting leaves the old sentinel or the whole new one, with the agent as its owner. The call
  returns nil exactly when the new sentinel is in place, and it always is when nothing fails. A failure changes no
  entry but the one named like the sentinel's temporary file, \<^verbatim>\<open>.image-cache-agent.json.tmp\<close>. A
  success changes no entry but the sentinel if nothing had that name; if a file had it, the image's own included, the file is
  lost. Every other entry of the directory and the rest of the tree are untouched in every case.\<close>

theorem adopt_atomic:
  assumes a: "adoptable (root w) (store_dir cp name) g" and u: "unmarshal (fdata g) = Some sn"
    and run: "run_state (adopt cp name) w = (x, w')"
  shows "elsewhere (store_dir cp name) {sentinel_name, tmp_sentinel} (root w) (root w')
    \<and> (case x of
         None \<Rightarrow> \<exists>g'. lookup (root w') (store_dir cp name @ [sentinel_name]) = Some (Reg g')
           \<and> fdata g' = marshal (set_owner owner_agent sn) \<and> lookup (root w') (store_dir cp name @ [tmp_sentinel]) = None
           \<and> (lookup (root w) (store_dir cp name @ [tmp_sentinel]) = None \<longrightarrow>
                elsewhere (store_dir cp name) {sentinel_name} (root w) (root w'))
       | Some e \<Rightarrow> lookup (root w') (store_dir cp name @ [sentinel_name]) = Some (Reg g) \<and> is_kind ErrAdopt e
           \<and> elsewhere (store_dir cp name) {tmp_sentinel} (root w) (root w'))
    \<and> (faultless w \<longrightarrow> x = None)"
proof -
  let ?dir = "store_dir cp name"
  let ?fs = "entries_at (root w) ?dir"
  have d: "dir_at (root w) ?dir" "map_of ?fs sentinel_name = Some (Reg g)"
    using a by (auto simp: adoptable_def)
  have e: "elsewhere ?dir {sentinel_name, tmp_sentinel} (root w) (with_entries (root w) ?dir (upd sentinel_name v (upd tmp_sentinel u ?fs)))"
    "elsewhere ?dir {sentinel_name, tmp_sentinel} (root w) (with_entries (root w) ?dir (upd tmp_sentinel u ?fs))"
    "elsewhere ?dir {tmp_sentinel} (root w) (with_entries (root w) ?dir (upd tmp_sentinel u ?fs))" for u v
    by (rule elsewhere_with_entries [OF d(1)], simp)+
  have alone: "elsewhere ?dir {sentinel_name} (root w) (with_entries (root w) ?dir (upd sentinel_name v (upd tmp_sentinel None ?fs)))"
    if "lookup (root w) (?dir @ [tmp_sentinel]) = None" for v
    by (rule elsewhere_with_entries [OF d(1)]) (use that d(1) in \<open>auto simp: lookup_entry\<close>)
  show ?thesis
  proof (cases x)
    case None
    then obtain g' where "fdata g' = marshal (set_owner owner_agent sn)"
      "root w' = with_entries (root w) ?dir (upd sentinel_name (Some (Reg g')) (upd tmp_sentinel None ?fs))"
      using wpD [OF adopt_in [OF a u] run] by auto
    with None d e(1) alone show ?thesis by (simp add: lookup_entry dir_at_with_entries entries_with_entries del: upd_simps)
  next
    case (Some er)
    then obtain v where "\<not> faultless w" "is_kind ErrAdopt er" "root w' = with_entries (root w) ?dir (upd tmp_sentinel v ?fs)"
      using wpD [OF adopt_in [OF a u] run] by auto
    with Some d e(2,3) show ?thesis by (simp add: lookup_entry dir_at_with_entries entries_with_entries del: upd_simps)
  qed
qed

text \<open>What was read and given another owner is written and read back as it is.\<close>

lemma unmarshal_set_owner:
  "unmarshal d = Some sn \<Longrightarrow> valid_utf8 owner \<Longrightarrow> unmarshal (marshal (set_owner owner sn)) = Some (set_owner owner sn)"
  unfolding set_owner_def using valid_sentinel_sanitize [OF valid_owner [OF _ unmarshal_valid]] unmarshal_marshal by metis

text \<open>A directory \<^verbatim>\<open>imagecachectl\<close> seeded, for the examples.\<close>

definition seeded_sentinel :: sentinel where
  "seeded_sentinel = \<lparr>sn_record = agent_record\<lparr>rec_owner := ''imagecachectl''\<rparr>, sn_files = Some []\<rparr>"

definition seeded_file :: regfile where
  "seeded_file = \<lparr>fdata = marshal seeded_sentinel, fdev = 1, fino = 7, fmtime = 0, fctime = 0\<rparr>"

definition seeded_world :: sworld where
  "seeded_world = cache_world [(''boot'', Dir 6 [(sentinel_name, Reg seeded_file)])] None"

lemma store_dir_sample [simp]: "store_dir [''cache''] ''boot'' = [''cache'', ''boot'']"
  by (simp add: store_dir_def join_plain plain_def)

lemma seeded_ascii: "valid_utf8 ''sha256:1''" "valid_utf8 ''registry/image:1''" "valid_utf8 owner_agent" "valid_utf8 ''imagecachectl''"
  by (simp_all add: ascii_valid ascii_def byte_def owner_agent_def)

lemma unmarshal_seeded: "unmarshal (fdata seeded_file) = Some seeded_sentinel"
proof -
  have "sanitize_sentinel seeded_sentinel = seeded_sentinel"
    by (simp add: sanitize_sentinel_def seeded_sentinel_def agent_record_def Let_def sanitize_valid seeded_ascii)
  then show ?thesis
    using unmarshal_marshal [of seeded_sentinel] by (simp add: seeded_file_def sizes_ok_def seeded_sentinel_def agent_record_def)
qed

lemma adoptable_seeded: "adoptable (root seeded_world) (store_dir [''cache''] ''boot'') seeded_file"
proof -
  have "lookup (root seeded_world) [''cache'', ''boot''] = Some (Dir 6 [(sentinel_name, Reg seeded_file)])"
    by (simp add: seeded_world_def)
  then show ?thesis by (simp add: adoptable_def dir_at_iff entries_at_def plain_def)
qed

theorem adopt_atomic_witness: "fst (run_state (adopt [''cache''] ''boot'') seeded_world) = None"
proof -
  obtain x w' where run: "run_state (adopt [''cache''] ''boot'') seeded_world = (x, w')"
    by (cases "run_state (adopt [''cache''] ''boot'') seeded_world")
  have "faultless seeded_world" by (simp add: seeded_world_def)
  with adopt_atomic [OF adoptable_seeded unmarshal_seeded run] run show ?thesis by simp
qed

text \<open>C20: After an adoption that met no failure the record reads back unchanged but for the owner, now
  the agent: the next collection may take the directory when no resource keeps it.\<close>

theorem adopt_then_owned:
  assumes a: "adoptable (root w) (store_dir cp name) g" and u: "unmarshal (fdata g) = Some sn" and f: "faultless w"
  shows "\<exists>w'. run_state (adopt cp name) w = (None, w')
    \<and> fst (run_state (read_record cp name) w') = Inr ((sn_record sn)\<lparr>rec_owner := owner_agent\<rparr>)
    \<and> dir_seeded (entries_at (root w') (store_dir cp name)) = Some False"
proof -
  let ?dir = "store_dir cp name"
  obtain x w' where run: "run_state (adopt cp name) w = (x, w')" by (cases "run_state (adopt cp name) w")
  have d: "dir_at (root w) ?dir" "clean_path ?dir" using a by (auto simp: adoptable_def)
  from wpD [OF adopt_in [OF a u] run] f obtain g' where x: "x = None" and q: "quiet w w'"
    and g: "fdata g' = marshal (set_owner owner_agent sn)"
    and r: "root w' = with_entries (root w) ?dir (upd sentinel_name (Some (Reg g')) (upd tmp_sentinel None (entries_at (root w) ?dir)))"
    by (cases x) (auto simp del: upd_simps)
  have d': "dir_at (root w') ?dir" "map_of (entries_at (root w') ?dir) sentinel_name = Some (Reg g')"
    using r d(1) by (simp_all add: dir_at_with_entries entries_with_entries del: upd_simps)
  have um: "unmarshal (fdata g') = Some (set_owner owner_agent sn)" using unmarshal_set_owner [OF u seeded_ascii(3)] g by simp
  have rd: "read_in (root w') (join ?dir sentinel_name) = Inr (fdata g')"
    using node_at_nolink [OF d'(1) d(2) plain_sentinel_name, of True] d d'
    by (simp add: read_in_def stat_in_def lift_errno_def lookup_entry join_plain)
  have "faultless w'" using q f same_env_faultless by (auto simp: quiet_def)
  then have "fst (run_state (read_record cp name) w') = Inr ((sn_record sn)\<lparr>rec_owner := owner_agent\<rparr>)"
    unfolding wp_fst by (simp add: read_record_def read_sentinel_def wp_rules wp_read_file rd um set_owner_def)
  moreover have "dir_seeded (entries_at (root w') ?dir) = Some False"
    by (simp add: dir_seeded_def d'(2) um set_owner_def)
  ultimately show ?thesis using run x by blast
qed

theorem adopt_then_owned_witness:
  "\<exists>w'. run_state (adopt [''cache''] ''boot'') seeded_world = (None, w')
     \<and> dir_seeded (entries_at (root w') [''cache'', ''boot'']) = Some False"
proof -
  have "faultless seeded_world" by (simp add: seeded_world_def)
  from adopt_then_owned [OF adoptable_seeded unmarshal_seeded this] show ?thesis by auto
qed

end
