(* ===== verification/Labels.thy ===== *)
theory Labels
  imports Prelude
begin

section \<open>Sync-status labels (controller/labels.go)\<close>

text \<open>
  A Go map of labels is an association list: its order stands for the order a \<^verbatim>\<open>range\<close>
  happens to visit, and the theorems speak of the map only. A missing key reads as the empty
  string, as in Go.
\<close>

type_synonym labels = "(string \<times> string) list"

definition label_prefix :: string where
  "label_prefix = ''image-cache.scality.com/''"

definition status_synced :: string where
  "status_synced = ''synced''"

definition status_pending :: string where
  "status_pending = ''pending''"

definition map_get :: "labels \<Rightarrow> string \<Rightarrow> string" where
  "map_get m k = (case map_of m k of None \<Rightarrow> [] | Some v \<Rightarrow> v)"

fun matches :: "labels \<Rightarrow> labels \<Rightarrow> bool" where
  "matches [] node = True"
| "matches ((k, v) # sel) node =
     (case map_of node k of
        None \<Rightarrow> False
      | Some actual \<Rightarrow> if actual \<noteq> v then False else matches sel node)"

text \<open>The first loop of \<^verbatim>\<open>applyStatusLabels\<close> deletes while it ranges over the map: it
  visits every key once.\<close>

fun drop_stale :: "string list \<Rightarrow> labels \<Rightarrow> labels \<times> bool \<Rightarrow> labels \<times> bool" where
  "drop_stale [] want (out, changed) = (out, changed)"
| "drop_stale (k # ks) want (out, changed) =
     (if \<not> has_prefix k label_prefix then drop_stale ks want (out, changed)
      else (case map_of want (trim_prefix k label_prefix) of
          None \<Rightarrow> drop_stale ks want (AList.delete k out, True)
        | Some _ \<Rightarrow> drop_stale ks want (out, changed)))"

fun set_wanted :: "labels \<Rightarrow> labels \<times> bool \<Rightarrow> labels \<times> bool" where
  "set_wanted [] (out, changed) = (out, changed)"
| "set_wanted ((k, v) # want) (out, changed) =
     (if map_get out (label_prefix @ k) \<noteq> v
      then set_wanted want (AList.update (label_prefix @ k) v out, True)
      else set_wanted want (out, changed))"

text \<open>A nil map clones to nil and is replaced by an empty one: both are the empty list.\<close>

definition apply_status_labels :: "labels \<Rightarrow> labels \<Rightarrow> labels \<times> bool" where
  "apply_status_labels labels want = set_wanted want (drop_stale (map fst labels) want (labels, False))"

subsection \<open>What it computes\<close>

lemma matches_iff: "matches sel node \<longleftrightarrow> (\<forall>(k, v) \<in> set sel. map_of node k = Some v)"
  by (induction sel node rule: matches.induct) (auto split: option.splits)

definition stale :: "labels \<Rightarrow> string \<Rightarrow> bool" where
  "stale want k \<longleftrightarrow> has_prefix k label_prefix \<and> map_of want (trim_prefix k label_prefix) = None"

lemma drop_stale_step:
  "drop_stale (k # ks) want (out, changed) =
     (if stale want k then drop_stale ks want (AList.delete k out, True) else drop_stale ks want (out, changed))"
  by (simp add: stale_def split: option.split)

lemma drop_stale_result:
  "\<exists>out'. drop_stale ks want (out, changed) = (out', changed \<or> list_ex (stale want) ks) \<and>
     (\<forall>k. map_of out' k = (if k \<in> set ks \<and> stale want k then None else map_of out k))"
proof (induction ks arbitrary: out changed)
  case (Cons a ks)
  show ?case
  proof (cases "stale want a")
    case True
    from Cons [of "AList.delete a out" True] True show ?thesis
      by (auto simp: drop_stale_step simp del: drop_stale.simps)
  next
    case False
    from Cons [of out changed] False show ?thesis
      by (auto simp: drop_stale_step simp del: drop_stale.simps)
  qed
qed simp

definition named_values :: "labels \<Rightarrow> bool" where
  "named_values want = list_all (\<lambda>(k, v). v \<noteq> []) want"

lemma prefix_inj [simp]: "(label_prefix @ k = label_prefix @ k') = (k = k')"
  by simp

lemma set_wanted_map:
  "set_wanted want (out, changed) = (out', changed') \<Longrightarrow> named_values want \<Longrightarrow> distinct (map fst want) \<Longrightarrow>
   map_of out' (label_prefix @ k) = (case map_of want k of None \<Rightarrow> map_of out (label_prefix @ k) | Some v \<Rightarrow> Some v)
   \<and> (\<not> has_prefix j label_prefix \<longrightarrow> map_of out' j = map_of out j)"
proof (induction want "(out, changed)" arbitrary: out changed rule: set_wanted.induct)
  case (2 a v want out changed)
  have nj: "j \<noteq> label_prefix @ a" if "\<not> has_prefix j label_prefix" using that by auto
  show ?case
  proof (cases "map_get out (label_prefix @ a) \<noteq> v")
    case True
    with 2 have "map_of out' (label_prefix @ k) = (case map_of want k of
          None \<Rightarrow> map_of (AList.update (label_prefix @ a) v out) (label_prefix @ k) | Some v \<Rightarrow> Some v)
        \<and> (\<not> has_prefix j label_prefix \<longrightarrow> map_of out' j = map_of (AList.update (label_prefix @ a) v out) j)"
      by (simp add: named_values_def)
    then show ?thesis using "2.prems"(3) nj by (auto simp: map_of_eq_None_iff [symmetric] split: option.splits)
  next
    case False
    with "2.prems"(2) have m: "map_of out (label_prefix @ a) = Some v"
      by (auto simp: map_get_def named_values_def split: option.splits)
    from False 2 have "map_of out' (label_prefix @ k) = (case map_of want k of
          None \<Rightarrow> map_of out (label_prefix @ k) | Some v \<Rightarrow> Some v)
        \<and> (\<not> has_prefix j label_prefix \<longrightarrow> map_of out' j = map_of out j)"
      by (simp add: named_values_def)
    then show ?thesis using "2.prems"(3) m by (auto simp: map_of_eq_None_iff [symmetric] split: option.splits)
  qed
qed simp

lemma set_wanted_changed:
  "set_wanted want (out, changed) = (out', changed') \<Longrightarrow> named_values want \<Longrightarrow> distinct (map fst want) \<Longrightarrow>
   changed' = (changed \<or> (\<exists>(k, v) \<in> set want. map_of out (label_prefix @ k) \<noteq> Some v))"
proof (induction want "(out, changed)" arbitrary: out changed rule: set_wanted.induct)
  case (2 a v want out changed)
  have g: "(map_get out (label_prefix @ a) \<noteq> v) = (map_of out (label_prefix @ a) \<noteq> Some v)"
    using "2.prems"(2) by (auto simp: map_get_def named_values_def split: option.splits)
  show ?case
  proof (cases "map_get out (label_prefix @ a) \<noteq> v")
    case True
    with 2 g show ?thesis by (auto simp: named_values_def)
  next
    case False
    with 2 g show ?thesis by (auto simp: named_values_def)
  qed
qed simp

lemma apply_status_labels_stages:
  assumes "apply_status_labels labels want = (out, changed)"
  obtains mid where "set_wanted want (mid, list_ex (stale want) (map fst labels)) = (out, changed)"
    and "\<And>k. map_of mid k = (if stale want k then None else map_of labels k)"
proof -
  obtain mid where d: "drop_stale (map fst labels) want (labels, False) = (mid, list_ex (stale want) (map fst labels))"
    and m: "\<And>k. map_of mid k = (if k \<in> set (map fst labels) \<and> stale want k then None else map_of labels k)"
    using drop_stale_result [of "map fst labels" want labels False] by auto
  have m': "map_of mid k = (if stale want k then None else map_of labels k)" for k
    using m [of k] by (auto simp: map_of_eq_None_iff)
  from that [OF _ m'] d assms show thesis by (simp add: apply_status_labels_def)
qed

lemma apply_status_labels_map:
  assumes "named_values want" "distinct (map fst want)" "apply_status_labels labels want = (out, changed)"
  shows "map_of out k = (if has_prefix k label_prefix then map_of want (trim_prefix k label_prefix) else map_of labels k)"
proof -
  from assms(3) obtain mid where s: "set_wanted want (mid, list_ex (stale want) (map fst labels)) = (out, changed)"
    and m: "\<And>k. map_of mid k = (if stale want k then None else map_of labels k)" by (rule apply_status_labels_stages) blast
  show ?thesis
  proof (cases "has_prefix k label_prefix")
    case True
    then have k: "label_prefix @ trim_prefix k label_prefix = k" by (rule has_prefix_trim)
    from set_wanted_map [OF s assms(1,2), of "trim_prefix k label_prefix"] True show ?thesis
      unfolding k by (auto simp: m stale_def split: option.splits)
  next
    case False
    with set_wanted_map [OF s assms(1,2), of _ k] m [of k] show ?thesis by (simp add: stale_def)
  qed
qed

text \<open>Where the map wanted differs from the labels, key by key.\<close>

lemma labels_differ:
  assumes "distinct (map fst want)"
    and "\<And>k. map_of out k = (if has_prefix k label_prefix then map_of want (trim_prefix k label_prefix) else map_of labels k)"
  shows "map_of out \<noteq> map_of labels \<longleftrightarrow>
    (\<exists>k. map_of labels k \<noteq> None \<and> stale want k) \<or> (\<exists>(k, v) \<in> set want. map_of labels (label_prefix @ k) \<noteq> Some v)"
proof -
  have w: "(k, v) \<in> set want \<longleftrightarrow> map_of want k = Some v" for k v using assms(1) by simp
  have "(\<exists>k. map_of out k \<noteq> map_of labels k) \<longleftrightarrow>
    (\<exists>k. map_of labels k \<noteq> None \<and> stale want k) \<or> (\<exists>k v. map_of want k = Some v \<and> map_of labels (label_prefix @ k) \<noteq> Some v)"
    (is "?L \<longleftrightarrow> ?R")
  proof
    assume ?L
    then obtain k where k: "has_prefix k label_prefix" "map_of want (trim_prefix k label_prefix) \<noteq> map_of labels k"
      using assms(2) by (auto split: if_splits)
    have e: "label_prefix @ trim_prefix k label_prefix = k" by (rule has_prefix_trim [OF k(1)])
    show ?R
    proof (cases "map_of want (trim_prefix k label_prefix)")
      case None
      with k have "map_of labels k \<noteq> None \<and> stale want k" by (simp add: stale_def)
      then show ?thesis by blast
    next
      case (Some v)
      with k e have "map_of labels (label_prefix @ trim_prefix k label_prefix) \<noteq> Some v" by simp
      with Some show ?thesis by blast
    qed
  next
    assume ?R
    then show ?L
    proof (elim disjE exE conjE)
      fix k assume "map_of labels k \<noteq> None" "stale want k"
      then have "map_of out k \<noteq> map_of labels k" using assms(2) [of k] by (auto simp: stale_def)
      then show ?L by blast
    next
      fix k v assume "map_of want k = Some v" "map_of labels (label_prefix @ k) \<noteq> Some v"
      then have "map_of out (label_prefix @ k) \<noteq> map_of labels (label_prefix @ k)" using assms(2) [of "label_prefix @ k"] by simp
      then show ?L by blast
    qed
  qed
  then show ?thesis by (auto simp: w fun_eq_iff)
qed

lemma apply_status_labels_changed:
  assumes "named_values want" "distinct (map fst want)" "apply_status_labels labels want = (out, changed)"
  shows "changed \<longleftrightarrow> map_of out \<noteq> map_of labels"
proof -
  note out = apply_status_labels_map [OF assms]
  from assms(3) obtain mid where s: "set_wanted want (mid, list_ex (stale want) (map fst labels)) = (out, changed)"
    and m: "\<And>k. map_of mid k = (if stale want k then None else map_of labels k)" by (rule apply_status_labels_stages) blast
  have l: "list_ex (stale want) (map fst labels) \<longleftrightarrow> (\<exists>k. map_of labels k \<noteq> None \<and> stale want k)"
    by (auto simp: list_ex_iff map_of_eq_None_iff)
  have "stale want (label_prefix @ k) = (map_of want k = None)" for k by (simp add: stale_def)
  then have "(\<exists>(k, v) \<in> set want. map_of mid (label_prefix @ k) \<noteq> Some v) = (\<exists>(k, v) \<in> set want. map_of labels (label_prefix @ k) \<noteq> Some v)"
    using assms(2) by (intro bex_cong refl) (auto simp: m)
  with set_wanted_changed [OF s assms(1,2)] l labels_differ [OF assms(2) out] show ?thesis by simp
qed

subsection \<open>Properties\<close>

text \<open>C24: The labels under the agent's prefix become exactly those wanted, every other label keeps its
  value, and the result is reported changed exactly when it differs from what was there.\<close>

theorem apply_status_labels_exact:
  assumes "named_values want" "distinct (map fst want)" "apply_status_labels labels want = (out, changed)"
  shows "map_of out = (\<lambda>k. if has_prefix k label_prefix then map_of want (trim_prefix k label_prefix) else map_of labels k)
    \<and> (changed \<longleftrightarrow> map_of out \<noteq> map_of labels)"
  using apply_status_labels_map [OF assms] apply_status_labels_changed [OF assms] by auto

theorem apply_status_labels_exact_witness:
  "apply_status_labels [(''zone'', ''a''), (label_prefix @ ''old'', status_synced)] [(''new'', status_pending)]
     = ([(''zone'', ''a''), (label_prefix @ ''new'', status_pending)], True)
   \<and> map_of [(''zone'', ''a''), (label_prefix @ ''new'', status_pending)] (label_prefix @ ''old'') = None"
proof -
  have run: "apply_status_labels [(''zone'', ''a''), (label_prefix @ ''old'', status_synced)] [(''new'', status_pending)]
     = ([(''zone'', ''a''), (label_prefix @ ''new'', status_pending)], True)"
    by (simp add: apply_status_labels_def label_prefix_def trim_prefix_def map_get_def status_pending_def)
  from apply_status_labels_exact [OF _ _ run] have
    "map_of [(''zone'', ''a''), (label_prefix @ ''new'', status_pending)] (label_prefix @ ''old'')
      = map_of [(''new'', status_pending)] (trim_prefix (label_prefix @ ''old'') label_prefix)"
    by (simp add: named_values_def status_pending_def fun_eq_iff)
  with run show ?thesis by simp
qed

text \<open>A resource selects a node exactly when every entry of its selector is a label of the node; an
  empty selector selects every node.\<close>

theorem matches_spec:
  "matches sel node = (\<forall>k v. (k, v) \<in> set sel \<longrightarrow> map_of node k = Some v)"
  by (auto simp: matches_iff)

theorem matches_spec_witness: "matches [(''role'', ''worker'')] [(''role'', ''worker''), (''zone'', ''a'')]"
  using matches_spec [of "[(''role'', ''worker'')]" "[(''role'', ''worker''), (''zone'', ''a'')]"] by simp

end
