(* ===== verification/Stream.thy ===== *)
theory Stream
  imports Store
begin

section \<open>The stream of an image's layers (puller/stream.go)\<close>

text \<open>
  \<^verbatim>\<open>entries\<close> copies the entries of every layer into one tar stream through a pipe. The
  model gives what the reader at the other end sees: the entries, and the error that ends the
  archive, \<open>Eof\<close> for a regular end. The goroutine and the pipe are one function here; \<open>Pipe\<close>
  lets them go at their own pace.
  A layer is what the image library and \<^verbatim>\<open>archive/tar\<close> give of it: an error on
  opening it, its entries, the error that ends them, and the errors met while the rest of the
  compressed stream is read (where its digest is checked) and on closing it.
\<close>

record layer =
  ly_open :: "err option"
  ly_entries :: "tar_entry list"
  ly_end :: err
  ly_rest :: "err option"
  ly_close :: "err option"

definition whiteout_prefix :: string where
  "whiteout_prefix = ''.wh.''"

definition pull_error :: "err option \<Rightarrow> string \<Rightarrow> err" where
  "pull_error c d = Wrap ErrPull c d"

text \<open>The loop of \<^verbatim>\<open>copyEntries\<close>; \<open>header\<close> is \<^verbatim>\<open>tar.Writer.WriteHeader\<close>,
  which refuses a header it cannot encode. The result is what was written and the error returned.
  The stream is written in the PAX format, which the reader does not show.\<close>

fun copy_loop :: "(tar_entry \<Rightarrow> err option) \<Rightarrow> tar_entry list \<Rightarrow> err \<Rightarrow> err option \<Rightarrow> tar_entry list \<times> err option" where
  "copy_loop header [] fin rest =
     (if fin = Eof then
        (case rest of
           Some d \<Rightarrow> ([], Some (pull_error (Some d) ''verifying a layer''))
         | None \<Rightarrow> ([], None))
      else ([], Some (pull_error (Some fin) ''reading a layer'')))"
| "copy_loop header (en # ens) fin rest =
     (if has_prefix (base (te_name en)) whiteout_prefix
      then ([], Some (pull_error None ''deletes a path of an earlier layer''))
      else (case header en of
          Some e \<Rightarrow> ([], Some (pull_error (Some e) ''passing on the header''))
        | None \<Rightarrow>
            if te_end en \<noteq> Eof then
              (let e = pull_error (Some (te_end en)) ''passing on the content''
               in ([en\<lparr>te_end := e\<rparr>], Some e))
            else (case copy_loop header ens fin rest of (out, e) \<Rightarrow> (en # out, e))))"

definition copy_entries :: "(tar_entry \<Rightarrow> err option) \<Rightarrow> layer \<Rightarrow> tar_entry list \<times> err option" where
  "copy_entries header l = (case ly_open l of
     Some e \<Rightarrow> ([], Some (pull_error (Some e) ''opening a layer''))
   | None \<Rightarrow> (case copy_loop header (ly_entries l) (ly_end l) (ly_rest l) of
       (out, Some e) \<Rightarrow> (out, Some e)
     | (out, None) \<Rightarrow> (out, map_option (\<lambda>c. pull_error (Some c) ''closing a layer'') (ly_close l))))"

fun copy_layers :: "(tar_entry \<Rightarrow> err option) \<Rightarrow> layer list \<Rightarrow> tar_entry list \<times> err option" where
  "copy_layers header [] = ([], None)"
| "copy_layers header (l # ls) = (case copy_entries header l of
     (out, Some e) \<Rightarrow> (out, Some e)
   | (out, None) \<Rightarrow> (case copy_layers header ls of (out', e) \<Rightarrow> (out @ out', e)))"

text \<open>\<open>closing\<close> is the error of \<^verbatim>\<open>tar.Writer.Close\<close>.\<close>

definition write_entries :: "(tar_entry \<Rightarrow> err option) \<Rightarrow> err option \<Rightarrow> layer list res \<Rightarrow> tar_entry list \<times> err option" where
  "write_entries header closing layers = (case layers of
     Inl e \<Rightarrow> ([], Some (pull_error (Some e) ''listing the layers''))
   | Inr ls \<Rightarrow> (case copy_layers header ls of
       (out, Some e) \<Rightarrow> (out, Some e)
     | (out, None) \<Rightarrow> (out, map_option (\<lambda>e. pull_error (Some e) ''closing the stream'') closing)))"

text \<open>\<^verbatim>\<open>CloseWithError(nil)\<close> ends the stream with \<^verbatim>\<open>io.EOF\<close>.\<close>

definition stream_entries :: "(tar_entry \<Rightarrow> err option) \<Rightarrow> err option \<Rightarrow> layer list res \<Rightarrow> tar_entry list \<times> err" where
  "stream_entries header closing layers = (case write_entries header closing layers of
     (out, None) \<Rightarrow> (out, Eof)
   | (out, Some e) \<Rightarrow> (out, e))"

subsection \<open>Whole layers\<close>

definition layer_whole :: "(tar_entry \<Rightarrow> err option) \<Rightarrow> layer \<Rightarrow> bool" where
  "layer_whole header l \<longleftrightarrow> ly_open l = None \<and> ly_end l = Eof \<and> ly_rest l = None \<and> ly_close l = None \<and>
     list_all (\<lambda>en. te_end en = Eof \<and> header en = None \<and> \<not> has_prefix (base (te_name en)) whiteout_prefix) (ly_entries l)"

lemma copy_loop_none:
  "copy_loop header ens fin rest = (out, None) \<longleftrightarrow> out = ens \<and> fin = Eof \<and> rest = None \<and>
     list_all (\<lambda>en. te_end en = Eof \<and> header en = None \<and> \<not> has_prefix (base (te_name en)) whiteout_prefix) ens"
proof (induction ens arbitrary: out)
  case (Cons en ens)
  obtain o' e where c: "copy_loop header ens fin rest = (o', e)" by fastforce
  then show ?case using Cons [of o'] Cons [of ens] by (cases e) (auto simp: Let_def split: option.split)
qed (auto split: option.split)

lemma copy_loop_error: "copy_loop header ens fin rest = (out, Some e) \<Longrightarrow> \<exists>c d. e = Wrap ErrPull c d"
proof (induction ens arbitrary: out)
  case (Cons en ens)
  obtain o' e' where "copy_loop header ens fin rest = (o', e')" by fastforce
  then show ?case using Cons by (auto simp: Let_def pull_error_def split: option.splits if_splits)
qed (auto simp: pull_error_def split: option.splits if_splits)

lemma copy_entries_none: "copy_entries header l = (out, None) \<longleftrightarrow> layer_whole header l \<and> out = ly_entries l"
proof -
  obtain o' e where c: "copy_loop header (ly_entries l) (ly_end l) (ly_rest l) = (o', e)" by fastforce
  then show ?thesis
    using copy_loop_none [of header "ly_entries l" "ly_end l" "ly_rest l" o']
      copy_loop_none [of header "ly_entries l" "ly_end l" "ly_rest l" "ly_entries l"]
    by (cases e) (auto simp: copy_entries_def layer_whole_def split: option.splits)
qed

lemma copy_entries_error: "copy_entries header l = (out, Some e) \<Longrightarrow> \<exists>c d. e = Wrap ErrPull c d"
  by (auto simp: copy_entries_def pull_error_def split: option.splits prod.splits dest: copy_loop_error)

lemma copy_layers_none:
  "copy_layers header ls = (out, None) \<longleftrightarrow> list_all (layer_whole header) ls \<and> out = concat (map ly_entries ls)"
proof (induction ls arbitrary: out)
  case (Cons l ls)
  obtain o1 e1 o2 e2 where c: "copy_entries header l = (o1, e1)" "copy_layers header ls = (o2, e2)" by fastforce
  then show ?case
    using copy_entries_none [of header l o1] Cons [of o2] copy_entries_none [of header l "ly_entries l"]
      Cons [of "concat (map ly_entries ls)"] by (cases e1; cases e2) auto
qed auto

lemma copy_layers_error: "copy_layers header ls = (out, Some e) \<Longrightarrow> \<exists>c d. e = Wrap ErrPull c d"
proof (induction ls arbitrary: out)
  case (Cons l ls)
  obtain o1 e1 o2 e2 where c: "copy_entries header l = (o1, e1)" "copy_layers header ls = (o2, e2)" by fastforce
  then show ?case
    using copy_entries_error [of header l o1] Cons by (cases e1) auto
qed simp

lemma write_entries_none:
  "write_entries header closing layers = (out, None) \<longleftrightarrow>
     (\<exists>ls. layers = Inr ls \<and> list_all (layer_whole header) ls \<and> closing = None \<and> out = concat (map ly_entries ls))"
proof (cases layers)
  case (Inr ls)
  obtain o1 e1 where c: "copy_layers header ls = (o1, e1)" by fastforce
  then show ?thesis using Inr copy_layers_none [of header ls o1] copy_layers_none [of header ls "concat (map ly_entries ls)"] by (cases e1) (auto simp: write_entries_def)
qed (simp add: write_entries_def)

lemma write_entries_error: "write_entries header closing layers = (out, Some e) \<Longrightarrow> \<exists>c d. e = Wrap ErrPull c d"
  by (auto simp: write_entries_def pull_error_def split: sum.splits prod.splits option.splits dest: copy_layers_error)

lemma stream_whole:
  assumes "stream_entries header closing layers = (out, fin)"
  shows "fin = Eof \<longleftrightarrow> (\<exists>ls. layers = Inr ls \<and> list_all (layer_whole header) ls \<and> closing = None)"
    and "fin = Eof \<Longrightarrow> \<exists>ls. layers = Inr ls \<and> list_all (layer_whole header) ls \<and> out = concat (map ly_entries ls)"
    and "fin \<noteq> Eof \<Longrightarrow> is_kind ErrPull fin"
proof -
  obtain o' e where w: "write_entries header closing layers = (o', e)" by fastforce
  have some: "\<exists>c d. x = Wrap ErrPull c d" if "e = Some x" for x using that w write_entries_error by blast
  have f: "fin = (case e of None \<Rightarrow> Eof | Some x \<Rightarrow> x)" "out = o'"
    using assms w by (simp_all add: stream_entries_def split: option.splits)
  have e: "fin = Eof \<longleftrightarrow> e = None" using some f by (cases e) auto
  have n: "e = None \<longleftrightarrow> (\<exists>ls. layers = Inr ls \<and> list_all (layer_whole header) ls \<and> closing = None)"
    using write_entries_none [of header closing layers] w by (metis prod.inject)
  have "e = None \<Longrightarrow> \<exists>ls. layers = Inr ls \<and> list_all (layer_whole header) ls \<and> o' = concat (map ly_entries ls)"
    using write_entries_none [of header closing layers o'] w by auto
  with e f(2) show "fin = Eof \<Longrightarrow> \<exists>ls. layers = Inr ls \<and> list_all (layer_whole header) ls \<and> out = concat (map ly_entries ls)"
    by simp
  from e n show "fin = Eof \<longleftrightarrow> (\<exists>ls. layers = Inr ls \<and> list_all (layer_whole header) ls \<and> closing = None)" by simp
  show "is_kind ErrPull fin" if ne: "fin \<noteq> Eof"
  proof -
    obtain x where "e = Some x" using ne e by auto
    with some obtain c d where "e = Some (Wrap ErrPull c d)" by blast
    with f show ?thesis by (cases c) simp_all
  qed
qed

text \<open>C21: The stream ends as an archive exactly when every layer was opened, read to its own end, its
  digest verified and closed, and carries no deletion; then it is the layers' entries in order.
  Any other end is an error of the pull, never a bare end of file, so a lost connection cannot
  publish a part of the image.\<close>

theorem stream_complete:
  "case stream_entries header closing layers of (out, fin) \<Rightarrow>
     if (\<exists>ls. layers = Inr ls \<and> list_all (layer_whole header) ls \<and> closing = None)
     then fin = Eof \<and> (\<exists>ls. layers = Inr ls \<and> out = concat (map ly_entries ls))
     else fin \<noteq> Eof \<and> is_kind ErrPull fin"
proof -
  obtain out fin where s: "stream_entries header closing layers = (out, fin)" by fastforce
  note w = stream_whole [OF s]
  show ?thesis
  proof (cases "fin = Eof")
    case True
    with w(1,2) s show ?thesis by auto
  next
    case False
    with w(1,3) s show ?thesis by auto
  qed
qed

end
