(* ===== verification/Puller.thy ===== *)
theory Puller
  imports Stream Extract
begin

section \<open>Pulling an image (puller/puller.go)\<close>

text \<open>
  The two implementations of \<^verbatim>\<open>Puller\<close>. What the image library
  (\<^verbatim>\<open>go-containerregistry\<close>) and the certificate store do is a parameter, the record
  \<open>image_library\<close>: parsing a reference, opening an image in a registry or in a local archive,
  the system's certificates. The library answers from the world at the moment it is asked and
  cannot change it: opening an image reads, it never writes on the node. The interface is the record
  \<open>puller\<close> of the two methods, and the laws its clients rely on are the locale
  \<open>image_source\<close>: a puller leaves the node alone, its two methods agree on what a source is,
  and its errors are classified.
\<close>

record image_id =
  id_digest :: string
  id_layers :: "string list"

record image_config =
  cf_os :: string
  cf_arch :: string
  cf_diff_ids :: "string list"

text \<open>An image as the library gives it.\<close>

record v1_image =
  im_digest :: "string res"
  im_config :: "image_config res"
  im_layers :: "layer list res"

text \<open>What \<^verbatim>\<open>Pull\<close> returns besides the identity: the stream, and the error of closing
  it.\<close>

record pulled =
  pd_entries :: "tar_entry list"
  pd_end :: err
  pd_close :: "err option"

record puller =
  pl_pull :: "string \<Rightarrow> (sworld, (pulled \<times> image_id) res) state"
  pl_resolve :: "string \<Rightarrow> (sworld, image_id res) state"

subsection \<open>TLS settings\<close>

record tls =
  tls_ca_file :: string
  tls_skip_verify :: bool
  tls_plain_http :: bool

text \<open>A transport built on the library's default; \<open>'c\<close> is a certificate pool.\<close>

datatype 'c transport = Insecure | Trusting 'c

record 'c remote =
  rm_transport :: "'c transport option"
  rm_plain_http :: bool

record ('r, 'c) image_library =
  lib_parse :: "bool \<Rightarrow> string \<Rightarrow> 'r res"
  lib_remote :: "'r \<Rightarrow> 'c transport option \<Rightarrow> sworld \<Rightarrow> v1_image res"
  lib_tarball :: "string \<Rightarrow> sworld \<Rightarrow> v1_image res"
  lib_header :: "tar_entry \<Rightarrow> err option"
  lib_system_pool :: "'c res"
  lib_empty_pool :: 'c
  lib_append_pem :: "'c \<Rightarrow> string \<Rightarrow> 'c option"

text \<open>A call into the library takes a tick; a failure is part of its answer.\<close>

definition ask :: "(sworld \<Rightarrow> 'a) \<Rightarrow> (sworld, 'a) state" where
  "ask f = do { _ \<leftarrow> enter; w \<leftarrow> State_Monad.get; State_Monad.return (f w) }"

text \<open>A path given as a string, walked from the root: the agent runs with the root as its working
  directory.\<close>

definition path_of :: "string \<Rightarrow> path" where
  "path_of s = split_on slash s"

definition ca_pool :: "('r, 'c) image_library \<Rightarrow> string \<Rightarrow> (sworld, 'c res) state" where
  "ca_pool lib path = do {
     b \<leftarrow> read_file (path_of path);
     State_Monad.return (case b of
       Inl e \<Rightarrow> Inl (Wrap ErrCA (Some e) [])
     | Inr bundle \<Rightarrow>
         (let pool = (case lib_system_pool lib of Inl _ \<Rightarrow> lib_empty_pool lib | Inr p \<Rightarrow> p)
          in (case lib_append_pem lib pool bundle of
                None \<Rightarrow> Inl (Wrap ErrCA None ''no PEM certificate in the file'')
              | Some p \<Rightarrow> Inr p)))
   }"

definition new_remote_on :: "('r, 'c) image_library \<Rightarrow> tls \<Rightarrow> (sworld, 'c remote res) state" where
  "new_remote_on lib cfg =
     (if tls_ca_file cfg \<noteq> [] \<and> tls_skip_verify cfg then
        State_Monad.return (Inl (Wrap ErrTLS None ''a CA file is pointless when certificates are not verified''))
      else if tls_plain_http cfg \<and> (tls_ca_file cfg \<noteq> [] \<or> tls_skip_verify cfg) then
        State_Monad.return (Inl (Wrap ErrTLS None ''plain HTTP is for a registry without TLS, it takes no certificate setting''))
      else if tls_skip_verify cfg then
        State_Monad.return (Inr \<lparr>rm_transport = Some Insecure, rm_plain_http = False\<rparr>)
      else do {
        p \<leftarrow> ca_pool lib (tls_ca_file cfg);
        State_Monad.return (case p of
          Inl e \<Rightarrow> Inl e
        | Inr pool \<Rightarrow> Inr \<lparr>rm_transport = Some (Trusting pool), rm_plain_http = False\<rparr>) })"

definition new_remote :: "('r, 'c) image_library \<Rightarrow> tls \<Rightarrow> (sworld, 'c remote res) state" where
  "new_remote lib cfg =
     (if tls_ca_file cfg = [] \<and> \<not> tls_skip_verify cfg then
        State_Monad.return (Inr \<lparr>rm_transport = None, rm_plain_http = tls_plain_http cfg\<rparr>)
      else new_remote_on lib cfg)"

subsection \<open>Opening an image\<close>

definition platform_os :: string where
  "platform_os = ''linux''"

definition platform_arch :: string where
  "platform_arch = ''amd64''"

definition wrong_platform :: "image_config \<Rightarrow> bool" where
  "wrong_platform cfg \<longleftrightarrow> (cf_os cfg \<noteq> [] \<and> cf_os cfg \<noteq> platform_os) \<or> (cf_arch cfg \<noteq> [] \<and> cf_arch cfg \<noteq> platform_arch)"

definition identify :: "v1_image \<Rightarrow> image_id res" where
  "identify img = (case im_digest img of
     Inl e \<Rightarrow> Inl (pull_error (Some e) ''resolving the digest'')
   | Inr d \<Rightarrow> (case im_config img of
       Inl e \<Rightarrow> Inl (pull_error (Some e) ''reading the image configuration'')
     | Inr cfg \<Rightarrow>
         if wrong_platform cfg then Inl (pull_error None ''the image is for another platform'')
         else Inr \<lparr>id_digest = d, id_layers = cf_diff_ids cfg\<rparr>))"

definition identified :: "v1_image res \<Rightarrow> (v1_image \<times> image_id) res" where
  "identified r = (case r of
     Inl e \<Rightarrow> Inl (pull_error (Some e) [])
   | Inr img \<Rightarrow> (case identify img of Inl e \<Rightarrow> Inl e | Inr i \<Rightarrow> Inr (img, i)))"

definition remote_open :: "('r, 'c) image_library \<Rightarrow> 'c remote \<Rightarrow> string \<Rightarrow> (sworld, (v1_image \<times> image_id) res) state" where
  "remote_open lib r ref = (case lib_parse lib (rm_plain_http r) ref of
     Inl e \<Rightarrow> State_Monad.return (Inl (Wrap ErrReference (Some e) []))
   | Inr parsed \<Rightarrow> do {
       i \<leftarrow> ask (lib_remote lib parsed (rm_transport r));
       State_Monad.return (identified i) })"

definition tarball_open :: "('r, 'c) image_library \<Rightarrow> string \<Rightarrow> (sworld, (v1_image \<times> image_id) res) state" where
  "tarball_open lib ref = do {
     c \<leftarrow> ctx_err;
     case c of
       Some e \<Rightarrow> State_Monad.return (Inl (pull_error (Some e) []))
     | None \<Rightarrow> do {
         i \<leftarrow> ask (lib_tarball lib ref);
         State_Monad.return (identified i) }
   }"

text \<open>The stream is closed by closing the pipe, which cannot fail; nor can the tar writer's
  \<^verbatim>\<open>Close\<close> once every entry went through whole.\<close>

definition pull_stream :: "('r, 'c) image_library \<Rightarrow> v1_image \<Rightarrow> pulled" where
  "pull_stream lib img = (case stream_entries (lib_header lib) None (im_layers img) of
     (ens, fin) \<Rightarrow> \<lparr>pd_entries = ens, pd_end = fin, pd_close = None\<rparr>)"

definition puller_of :: "('r, 'c) image_library \<Rightarrow> (string \<Rightarrow> (sworld, (v1_image \<times> image_id) res) state) \<Rightarrow> puller" where
  "puller_of lib opn = \<lparr>
     pl_pull = (\<lambda>ref. do {
       o' \<leftarrow> opn ref;
       State_Monad.return (case o' of Inl e \<Rightarrow> Inl e | Inr (img, i) \<Rightarrow> Inr (pull_stream lib img, i)) }),
     pl_resolve = (\<lambda>ref. do {
       o' \<leftarrow> opn ref;
       State_Monad.return (case o' of Inl e \<Rightarrow> Inl e | Inr (img, i) \<Rightarrow> Inr i) })\<rparr>"

definition remote_puller :: "('r, 'c) image_library \<Rightarrow> 'c remote \<Rightarrow> puller" where
  "remote_puller lib r = puller_of lib (remote_open lib r)"

definition tarball_puller :: "('r, 'c) image_library \<Rightarrow> puller" where
  "tarball_puller lib = puller_of lib (tarball_open lib)"

subsection \<open>The interface\<close>

text \<open>What a pull gives of a stream an archive can be read from: the identity of a Resolve.\<close>

definition resolved :: "(pulled \<times> image_id) res \<Rightarrow> image_id res" where
  "resolved x = (case x of Inl e \<Rightarrow> Inl e | Inr (p, i) \<Rightarrow> Inr i)"

locale image_source =
  fixes pl :: puller
  assumes pull_looks: "along looks (pl_pull pl ref)"
    and resolve_looks: "along looks (pl_resolve pl ref)"
    and resolve_pull: "fst (run_state (pl_resolve pl ref) w) = resolved (fst (run_state (pl_pull pl ref) w))"
    and pull_kind: "run_state (pl_pull pl ref) w = (Inl e, w') \<Longrightarrow> is_kind ErrReference e \<or> is_kind ErrPull e"
begin

lemma resolve_kind: "run_state (pl_resolve pl ref) w = (Inl e, w') \<Longrightarrow> is_kind ErrReference e \<or> is_kind ErrPull e"
  using resolve_pull [of ref w] pull_kind [of ref w]
  by (cases "run_state (pl_pull pl ref) w") (auto simp: resolved_def split: sum.splits prod.splits)

lemma wp_pull: "wp (pl_pull pl ref) (\<lambda>x w'. looks w w' \<and> (case x of Inl e \<Rightarrow> is_kind ErrReference e \<or> is_kind ErrPull e | Inr _ \<Rightarrow> True)) w"
  by (auto intro!: wpI intro: alongD [OF pull_looks] dest: pull_kind split: sum.split)

lemma wp_resolve: "wp (pl_resolve pl ref) (\<lambda>x w'. looks w w' \<and> (case x of Inl e \<Rightarrow> is_kind ErrReference e \<or> is_kind ErrPull e | Inr _ \<Rightarrow> True)) w"
  by (auto intro!: wpI intro: alongD [OF resolve_looks] dest: resolve_kind split: sum.split)

end

lemma wp_ask [wp_rules]: "wp (ask f) Q w = Q (f (tock w)) (tock w)"
  by (simp add: ask_def wp_rules)

lemma along_ask: "along looks (ask f)"
  by (simp add: along_iff_wp wp_ask)

lemma identify_kind: "identify img = Inl e \<Longrightarrow> is_kind ErrPull e"
  by (auto simp: identify_def pull_error_def split: sum.splits if_splits)

lemma identified_kind: "identified x = Inl e \<Longrightarrow> is_kind ErrPull e"
  by (auto simp: identified_def pull_error_def split: sum.splits dest: identify_kind)

text \<open>Any way to open an image that only looks and classifies its errors makes an image source.\<close>

lemma puller_of_source:
  assumes "\<And>ref. along looks (opn ref)"
    and "\<And>ref w e w'. run_state (opn ref) w = (Inl e, w') \<Longrightarrow> is_kind ErrReference e \<or> is_kind ErrPull e"
  shows "image_source (puller_of lib opn)"
proof
  fix ref w e w'
  show "along looks (pl_pull (puller_of lib opn) ref)" "along looks (pl_resolve (puller_of lib opn) ref)"
    by (auto simp: puller_of_def intro!: look.along_intros assms(1))
  obtain x t where r: "run_state (opn ref) w = (x, t)" by fastforce
  show "fst (run_state (pl_resolve (puller_of lib opn) ref) w) = resolved (fst (run_state (pl_pull (puller_of lib opn) ref) w))"
    by (cases x) (auto simp: puller_of_def resolved_def r split: prod.split)
  show "is_kind ErrReference e \<or> is_kind ErrPull e" if "run_state (pl_pull (puller_of lib opn) ref) w = (Inl e, w')"
    using that assms(2) [of ref w _ t] r by (auto simp: puller_of_def split: sum.splits)
qed

lemma along_remote_open: "along looks (remote_open lib r ref)"
  by (auto simp: remote_open_def intro!: look.along_intros along_ask)

lemma along_tarball_open: "along looks (tarball_open lib ref)"
  by (auto simp: tarball_open_def intro!: look.along_intros along_ask along_queries)

lemma remote_open_kind: "run_state (remote_open lib r ref) w = (Inl e, w') \<Longrightarrow> is_kind ErrReference e \<or> is_kind ErrPull e"
proof -
  have "wp (remote_open lib r ref) (\<lambda>x _. \<forall>e. x = Inl e \<longrightarrow> is_kind ErrReference e \<or> is_kind ErrPull e) w"
    by (auto simp: remote_open_def wp_rules dest: identified_kind split: sum.split)
  then show "run_state (remote_open lib r ref) w = (Inl e, w') \<Longrightarrow> ?thesis" by (auto dest: wpD)
qed

lemma tarball_open_kind: "run_state (tarball_open lib ref) w = (Inl e, w') \<Longrightarrow> is_kind ErrReference e \<or> is_kind ErrPull e"
proof -
  have "wp (tarball_open lib ref) (\<lambda>x _. \<forall>e. x = Inl e \<longrightarrow> is_kind ErrPull e) w"
    by (auto simp: tarball_open_def wp_rules pull_error_def dest: identified_kind)
  then show "run_state (tarball_open lib ref) w = (Inl e, w') \<Longrightarrow> ?thesis" by (auto dest: wpD)
qed

interpretation rp: image_source "remote_puller lib r" for lib r
  unfolding remote_puller_def by (rule puller_of_source) (fact along_remote_open remote_open_kind)+

interpretation tp: image_source "tarball_puller lib" for lib
  unfolding tarball_puller_def by (rule puller_of_source) (fact along_tarball_open tarball_open_kind)+

subsection \<open>What a pull stands for\<close>

text \<open>The image behind a successful pull.\<close>

definition pull_of :: "('r, 'c) image_library \<Rightarrow> v1_image \<Rightarrow> pulled \<Rightarrow> image_id \<Rightarrow> bool" where
  "pull_of lib img p i \<longleftrightarrow> identify img = Inr i \<and> p = pull_stream lib img"

lemma identified_ok: "identified x = Inr (img, i) \<Longrightarrow> x = Inr img \<and> identify img = Inr i"
  by (auto simp: identified_def split: sum.splits)

lemma identify_ok:
  "identify img = Inr i \<Longrightarrow> im_digest img = Inr (id_digest i) \<and>
     (\<exists>cfg. im_config img = Inr cfg \<and> \<not> wrong_platform cfg \<and> id_layers i = cf_diff_ids cfg)"
  by (auto simp: identify_def split: sum.splits if_splits)

text \<open>How the two pullers open a source: what the library answers for it, asked in the world \<open>w\<close>.\<close>

definition in_registry :: "('r, 'c) image_library \<Rightarrow> 'c remote \<Rightarrow> string \<Rightarrow> sworld \<Rightarrow> v1_image \<Rightarrow> bool" where
  "in_registry lib r source w img \<longleftrightarrow> (\<exists>parsed. lib_parse lib (rm_plain_http r) source = Inr parsed \<and> lib_remote lib parsed (rm_transport r) w = Inr img)"

definition in_archive :: "('r, 'c) image_library \<Rightarrow> string \<Rightarrow> sworld \<Rightarrow> v1_image \<Rightarrow> bool" where
  "in_archive lib source w img \<longleftrightarrow> lib_tarball lib source w = Inr img"

lemma pulled_image:
  assumes "run_state (pl_pull (puller_of lib opn) ref) w = (Inr (p, i), w')"
    and "wp (opn ref) (\<lambda>x _. \<forall>img i. x = Inr (img, i) \<longrightarrow> identify img = Inr i \<and> P img) w"
  shows "\<exists>img. pull_of lib img p i \<and> P img"
proof -
  obtain x w1 where x: "run_state (opn ref) w = (x, w1)" by fastforce
  with assms(1) obtain img where img: "x = Inr (img, i)" "p = pull_stream lib img"
    by (auto simp: puller_of_def split: sum.splits prod.splits)
  with wpD [OF assms(2) x] show ?thesis by (auto simp: pull_of_def)
qed

lemma remote_image:
  "run_state (pl_pull (remote_puller lib r) ref) w = (Inr (p, i), w') \<Longrightarrow> \<exists>img. pull_of lib img p i \<and> (\<exists>w1. looks w w1 \<and> in_registry lib r ref w1 img)"
  unfolding remote_puller_def
  by (erule pulled_image) (auto simp: remote_open_def in_registry_def wp_rules dest!: identified_ok split: sum.split intro!: exI [of _ "tock w"])

lemma tarball_image:
  "run_state (pl_pull (tarball_puller lib) ref) w = (Inr (p, i), w') \<Longrightarrow> \<exists>img. pull_of lib img p i \<and> (\<exists>w1. looks w w1 \<and> in_archive lib ref w1 img)"
  unfolding tarball_puller_def
  by (erule pulled_image)
    (auto simp: tarball_open_def in_archive_def wp_rules dest!: identified_ok intro!: exI [of _ "tock (tock w)"] look.step_trans [OF looks_tock looks_tock])

text \<open>An image a cache may be filled from: for this platform, every layer whole, the identity its own.\<close>

definition sound_image :: "('r, 'c) image_library \<Rightarrow> v1_image \<Rightarrow> image_id \<Rightarrow> layer list \<Rightarrow> bool" where
  "sound_image lib img i ls \<longleftrightarrow> im_digest img = Inr (id_digest i) \<and> im_layers img = Inr ls \<and>
     list_all (layer_whole (lib_header lib)) ls \<and>
     (case im_config img of Inl e \<Rightarrow> False | Inr cfg \<Rightarrow> \<not> wrong_platform cfg \<and> id_layers i = cf_diff_ids cfg)"

lemma pull_of_whole:
  assumes "pull_of lib img p i" "pd_end p = Eof"
  shows "\<exists>ls. sound_image lib img i ls \<and> pd_entries p = concat (map ly_entries ls)"
proof -
  obtain out fin where s: "stream_entries (lib_header lib) None (im_layers img) = (out, fin)" by fastforce
  then have p: "pd_entries p = out" "pd_end p = fin" using assms(1) by (simp_all add: pull_of_def pull_stream_def)
  with assms(2) stream_whole [OF s] obtain ls where "im_layers img = Inr ls" "list_all (layer_whole (lib_header lib)) ls"
    "out = concat (map ly_entries ls)" by auto
  with p assms(1) show ?thesis by (auto simp: pull_of_def sound_image_def dest: identify_ok)
qed

subsection \<open>Properties\<close>

text \<open>At most one of the three settings.\<close>

definition compatible :: "tls \<Rightarrow> bool" where
  "compatible cfg \<longleftrightarrow> \<not> (tls_ca_file cfg \<noteq> [] \<and> tls_skip_verify cfg) \<and> \<not> (tls_ca_file cfg \<noteq> [] \<and> tls_plain_http cfg)
     \<and> \<not> (tls_skip_verify cfg \<and> tls_plain_http cfg)"

definition system_pool :: "('r, 'c) image_library \<Rightarrow> 'c" where
  "system_pool lib = (case lib_system_pool lib of Inl _ \<Rightarrow> lib_empty_pool lib | Inr p \<Rightarrow> p)"

lemma wp_ca_pool: "wp (ca_pool lib f) (\<lambda>x w'. w' = tock w \<and> (case x of
    Inl e \<Rightarrow> is_kind ErrCA e
  | Inr p \<Rightarrow> \<exists>b. read_in (root w) (path_of f) = Inr b \<and> lib_append_pem lib (system_pool lib) b = Some p)) w"
  by (auto simp: ca_pool_def wp_rules wp_read_file system_pool_def Let_def split: option.splits sum.splits)

text \<open>C39: The three registry settings exclude each other. A Remote skips the verification exactly when told
  to, allows plain HTTP exactly when told to, and otherwise trusts the system's certificates, together
  with those of the CA file when one is given; contradicting settings are an ErrTLS, an unusable CA
  file an ErrCA.\<close>

theorem new_remote_spec:
  assumes "run_state (new_remote lib cfg) w = (x, w')"
  shows "looks w w' \<and> (case x of
      Inr r \<Rightarrow> compatible cfg \<and> rm_plain_http r = tls_plain_http cfg \<and>
        (case rm_transport r of
           None \<Rightarrow> tls_ca_file cfg = [] \<and> \<not> tls_skip_verify cfg
         | Some Insecure \<Rightarrow> tls_skip_verify cfg
         | Some (Trusting p) \<Rightarrow> tls_ca_file cfg \<noteq> [] \<and> (\<exists>b. read_in (root w) (path_of (tls_ca_file cfg)) = Inr b
             \<and> lib_append_pem lib (system_pool lib) b = Some p))
    | Inl e \<Rightarrow> if compatible cfg then tls_ca_file cfg \<noteq> [] \<and> is_kind ErrCA e else is_kind ErrTLS e)"
proof -
  have r: "wp (new_remote_on lib cfg) (\<lambda>x w'. looks w w' \<and> (case x of
      Inr r \<Rightarrow> compatible cfg \<and> rm_plain_http r = tls_plain_http cfg \<and>
        (case rm_transport r of
           None \<Rightarrow> tls_ca_file cfg = [] \<and> \<not> tls_skip_verify cfg
         | Some Insecure \<Rightarrow> tls_skip_verify cfg
         | Some (Trusting p) \<Rightarrow> tls_ca_file cfg \<noteq> [] \<and> (\<exists>b. read_in (root w) (path_of (tls_ca_file cfg)) = Inr b
             \<and> lib_append_pem lib (system_pool lib) b = Some p))
    | Inl e \<Rightarrow> if compatible cfg then tls_ca_file cfg \<noteq> [] \<and> is_kind ErrCA e else is_kind ErrTLS e)) w"
    if "\<not> (tls_ca_file cfg = [] \<and> \<not> tls_skip_verify cfg)"
  proof (cases "tls_ca_file cfg \<noteq> [] \<and> \<not> tls_skip_verify cfg \<and> \<not> tls_plain_http cfg")
    case True
    then show ?thesis
      by (simp add: new_remote_on_def wp_bind)
        (rule wp_mono [OF wp_ca_pool], auto simp: wp_return compatible_def split: sum.splits)
  next
    case False
    with that show ?thesis by (auto simp: new_remote_on_def wp_rules look.step_refl compatible_def)
  qed
  show ?thesis
  proof (cases "tls_ca_file cfg = [] \<and> \<not> tls_skip_verify cfg")
    case True
    with assms show ?thesis by (auto simp: new_remote_def look.step_refl compatible_def)
  next
    case False
    with assms have "run_state (new_remote_on lib cfg) w = (x, w')" by (simp add: new_remote_def split: if_splits)
    from wpD [OF r [OF False] this] show ?thesis .
  qed
qed

definition sample_image :: v1_image where
  "sample_image = \<lparr>im_digest = Inr ''sha256:1'', im_config = Inr \<lparr>cf_os = ''linux'', cf_arch = [], cf_diff_ids = [''sha256:2'']\<rparr>,
     im_layers = Inr [\<lparr>ly_open = None, ly_entries = [\<lparr>te_name = ''images/a.tar'', te_flag = type_reg, te_chunks = [''abc''], te_end = Eof\<rparr>],
       ly_end = Eof, ly_rest = None, ly_close = None\<rparr>]\<rparr>"

definition sample_library :: "(string, string) image_library" where
  "sample_library = \<lparr>lib_parse = (\<lambda>_ s. if s = [] then Inl (Msg ''empty'') else Inr s), lib_remote = (\<lambda>_ _ _. Inr sample_image),
     lib_tarball = (\<lambda>_ _. Inr sample_image), lib_header = (\<lambda>_. None), lib_system_pool = Inr ''system'', lib_empty_pool = [],
     lib_append_pem = (\<lambda>p b. Some (p @ b))\<rparr>"

theorem new_remote_spec_witness:
  "\<exists>e w'. run_state (new_remote sample_library \<lparr>tls_ca_file = ''/ca'', tls_skip_verify = True, tls_plain_http = False\<rparr>) (cache_world [] None) = (Inl e, w')
     \<and> is_kind ErrTLS e"
proof -
  let ?m = "new_remote sample_library \<lparr>tls_ca_file = ''/ca'', tls_skip_verify = True, tls_plain_http = False\<rparr>"
  obtain x w' where run: "run_state ?m (cache_world [] None) = (x, w')" by fastforce
  from new_remote_spec [OF run] show ?thesis unfolding run by (cases x) (auto simp: compatible_def)
qed

text \<open>Pulling and resolving agree. Asked in the same state of the world, a registry or an archive
  resolves to the identity a pull of it would record, or fails the way the pull fails, with an error
  that is classified as a bad reference or a failed pull; neither call touches the node.\<close>

theorem resolve_agrees:
  assumes "pl = remote_puller lib r \<or> pl = tarball_puller lib"
    and "run_state (pl_pull pl ref) w = (x, w1)" "run_state (pl_resolve pl ref) w = (y, w2)"
  shows "y = resolved x \<and> looks w w1 \<and> looks w w2 \<and> (case y of Inl e \<Rightarrow> is_kind ErrReference e \<or> is_kind ErrPull e | Inr i \<Rightarrow> True)"
proof -
  have src: "image_source pl" using assms(1) rp.image_source_axioms tp.image_source_axioms by blast
  show ?thesis
    using image_source.resolve_pull [OF src, of ref w] assms(2,3) alongD [OF image_source.pull_looks [OF src] assms(2)]
      alongD [OF image_source.resolve_looks [OF src] assms(3)] image_source.resolve_kind [OF src, of ref w _ w2]
    by (auto split: sum.split)
qed

theorem resolve_agrees_witness:
  "\<exists>w'. run_state (pl_resolve (tarball_puller sample_library) ''a.tar'') (cache_world [] None)
     = (Inr \<lparr>id_digest = ''sha256:1'', id_layers = [''sha256:2'']\<rparr>, w')"
proof -
  let ?p = "tarball_puller sample_library"
  have i: "identify sample_image = Inr \<lparr>id_digest = ''sha256:1'', id_layers = [''sha256:2'']\<rparr>"
    by (simp add: identify_def sample_image_def wrong_platform_def platform_os_def)
  have "wp (pl_pull ?p ''a.tar'') (\<lambda>x _. resolved x = Inr \<lparr>id_digest = ''sha256:1'', id_layers = [''sha256:2'']\<rparr>) (cache_world [] None)"
    by (simp add: tarball_puller_def puller_of_def tarball_open_def wp_rules identified_def sample_library_def i resolved_def)
  moreover obtain x w1 y w2 where r: "run_state (pl_pull ?p ''a.tar'') (cache_world [] None) = (x, w1)"
    "run_state (pl_resolve ?p ''a.tar'') (cache_world [] None) = (y, w2)" by fastforce
  ultimately have "resolved x = Inr \<lparr>id_digest = ''sha256:1'', id_layers = [''sha256:2'']\<rparr>" by (auto dest: wpD)
  with resolve_agrees [OF disjI2 [OF refl] r] r(2) show ?thesis by auto
qed

end
