(* ===== verification/Fill.thy ===== *)
theory Fill
  imports Puller StateSpec
begin

section \<open>Filling a resource's directory (fill/fill.go)\<close>

text \<open>
  The one sequence that fills a directory: check that it may be replaced, pull, extract. The agent
  and the command both run it. What follows the definitions is proved of any \<open>image_source\<close>, and
  the properties of the two pullers rest on their interpretations of it.
\<close>

definition valid_cache_path :: "string \<Rightarrow> bool" where
  "valid_cache_path p \<longleftrightarrow> has_prefix p [slash] \<and> \<not> str_contains p ''..''"

definition check_cache_path :: "path \<Rightarrow> (sworld, err option) state" where
  "check_cache_path cp = do {
     s \<leftarrow> stat cp;
     State_Monad.return (case s of
       Inl e \<Rightarrow> Some (Wrap ErrCachePath (Some e) ''create it, or check the mount that should provide it'')
     | Inr info \<Rightarrow> if \<not> is_dir info then Some (Wrap ErrCachePath None ''it is not a directory'') else None)
   }"

definition fill_record :: "string \<Rightarrow> string \<Rightarrow> image_id \<Rightarrow> cache_record" where
  "fill_record owner source img =
     \<lparr>rec_digest = id_digest img, rec_owner = owner, rec_source = source, rec_layers = id_layers img, rec_content = []\<rparr>"

text \<open>The result: the error, and what \<^verbatim>\<open>onClose\<close> hears, if it is not nil
  (\<open>on_close\<close>).\<close>

definition fill :: "store \<Rightarrow> puller \<Rightarrow> path \<Rightarrow> string \<Rightarrow> string \<Rightarrow> string \<Rightarrow> bool \<Rightarrow> (sworld, err option \<times> err option) state" where
  "fill st p cp name source owner on_close = do {
     r \<leftarrow> store_replaceable cp name owner;
     case r of
       Some e \<Rightarrow> State_Monad.return (Some e, None)
     | None \<Rightarrow> do {
         x \<leftarrow> pl_pull p source;
         case x of
           Inl e \<Rightarrow> State_Monad.return (Some e, None)
         | Inr (content, img) \<Rightarrow> do {
             y \<leftarrow> store_extract st cp name (fill_record owner source img) (pd_entries content) (pd_end content);
             State_Monad.return (y, if y = None \<and> on_close then pd_close content else None) } }
   }"

lemma fill_record_sel [simp]:
  "rec_owner (fill_record o' s i) = o'" "rec_digest (fill_record o' s i) = id_digest i"
  "rec_layers (fill_record o' s i) = id_layers i" "rec_source (fill_record o' s i) = s"
  by (simp_all add: fill_record_def)

lemma fresh_draws_cong: "same_env w w' \<Longrightarrow> root w' = root w \<Longrightarrow> fresh_draws w' cp name = fresh_draws w cp name"
  by (simp add: fresh_draws_def same_env_def)

subsection \<open>Filling from any image source\<close>

text \<open>What a pull gives, up to the state of the world it is asked in.\<close>

definition gives :: "puller \<Rightarrow> string \<Rightarrow> pulled \<Rightarrow> image_id \<Rightarrow> bool" where
  "gives pl source p i \<longleftrightarrow> (\<exists>w w'. run_state (pl_pull pl source) w = (Inr (p, i), w'))"

text \<open>A source that answers every pull in a calm world with a whole archive.\<close>

definition serves :: "puller \<Rightarrow> string \<Rightarrow> bool" where
  "serves pl source \<longleftrightarrow> (\<forall>w. calm w \<longrightarrow> (\<exists>p i w'. run_state (pl_pull pl source) w = (Inr (p, i), w') \<and> whole (pd_entries p) (pd_end p)))"

text \<open>How a fill may end.\<close>

definition fill_outcome ::
  "puller \<Rightarrow> path \<Rightarrow> string \<Rightarrow> string \<Rightarrow> string \<Rightarrow> bool \<Rightarrow> sworld \<Rightarrow> err option \<times> err option \<Rightarrow> sworld \<Rightarrow> bool" where
  "fill_outcome pl cp name source owner oc w x w' \<longleftrightarrow> same_env w w' \<and> locks w' \<subseteq> locks w \<and> (case x of
      (None, heard) \<Rightarrow> (\<exists>p i. gives pl source p i \<and> whole (pd_entries p) (pd_end p) \<and>
        holds_image (root w') cp name (fill_record owner source i) (pd_entries p) \<and> elsewhere cp {name} (root w) (root w') \<and>
        heard = (if oc then pd_close p else None))
    | (Some e, heard) \<Rightarrow> spared cp name owner (root w) (root w') \<and> (calm w \<longrightarrow> root w' = root w) \<and> heard = None)"

lemma fill_outcome_unchanged: "looks w w' \<Longrightarrow> fill_outcome pl cp name source owner oc w (Some e, None) w'"
  by (simp add: fill_outcome_def looks_def)

lemma looks_facts:
  "looks w w' \<Longrightarrow> root w' = root w \<and> locks w' = locks w \<and> same_env w w' \<and> honest w' = honest w \<and> calm w' = calm w
     \<and> faultless w' = faultless w \<and> memory w' = memory w"
  using same_env_honest [of w w'] same_env_calm [of w w'] same_env_faultless [of w w'] by (simp add: looks_def)

lemma extract_outcome:
  assumes l: "looks w w2" and g: "gives pl source p i"
    and d: "dir_at (root w) cp" "clean_path cp" "plain name" "honest w" "before_lock st = None"
  shows "wp (store_extract st cp name (fill_record owner source i) (pd_entries p) (pd_end p))
    (\<lambda>y. fill_outcome pl cp name source owner oc w (y, if y = None \<and> oc then pd_close p else None)) w2"
proof -
  note w2 = looks_facts [OF l]
  have "dir_at (root w2) cp" "honest w2" using d w2 by simp_all
  from extract_spec [OF this(1) d(2,3) this(2) d(5), of "fill_record owner source i" "pd_entries p" "pd_end p"] show ?thesis
  proof (rule wp_mono, goal_cases)
    case (1 y w')
    then have "same_env w w'" using w2 env.step_trans by blast
    with 1 g w2 show ?case by (auto simp: fill_outcome_def split: option.splits)
  qed
qed

context image_source
begin

lemma fill_spec:
  assumes d: "dir_at (root w) cp" "clean_path cp" "plain name" "honest w" "before_lock st = None"
  shows "wp (fill st pl cp name source owner oc) (fill_outcome pl cp name source owner oc w) w"
  unfolding fill_def wp_bind
proof (rule wp_mono [OF look.along_wp], goal_cases)
  case 1
  then show ?case unfolding store_replaceable_def by (rule along_looks_replaceable)
next
  case (2 r w1)
  show ?case
  proof (cases r)
    case (Some e)
    with 2 show ?thesis by (simp add: wp_return fill_outcome_unchanged)
  next
    case None
    show ?thesis
      unfolding None option.case wp_bind
    proof (rule wpI)
      fix x w2 assume x: "run_state (pl_pull pl source) w1 = (x, w2)"
      have l2: "looks w w2" using look.step_trans [OF 2 alongD [OF pull_looks x]] .
      have "wp (store_extract st cp name (fill_record owner source i) (pd_entries p) (pd_end p))
          (\<lambda>y. fill_outcome pl cp name source owner oc w (y, if y = None \<and> oc then pd_close p else None)) w2" if "x = Inr (p, i)" for p i
        by (rule extract_outcome [OF l2 _ d]) (use x that in \<open>auto simp: gives_def\<close>)
      then show "wp (case x of Inl e \<Rightarrow> State_Monad.return (Some e, None)
          | Inr (content, img) \<Rightarrow> do {
             y \<leftarrow> store_extract st cp name (fill_record owner source img) (pd_entries content) (pd_end content);
             State_Monad.return (y, if y = None \<and> oc then pd_close content else None) })
         (fill_outcome pl cp name source owner oc w) w2"
        by (auto simp: wp_rules wp_return_eq fill_outcome_unchanged [OF l2] split: sum.split)
    qed
  qed
qed

text \<open>A fill that succeeds pulled its source and extracted what it got, both in the world as the fill found it.\<close>

lemma fill_success_run:
  assumes "run_state (fill st pl cp name source owner oc) w = ((None, heard), w')"
  shows "\<exists>w1 w2 p i. looks w w1 \<and> run_state (pl_pull pl source) w1 = (Inr (p, i), w2) \<and> looks w w2 \<and>
    run_state (store_extract st cp name (fill_record owner source i) (pd_entries p) (pd_end p)) w2 = (None, w')"
proof -
  obtain r w1 where r: "run_state (store_replaceable cp name owner) w = (r, w1)" by fastforce
  then have l1: "looks w w1" unfolding store_replaceable_def by (rule alongD [OF along_looks_replaceable])
  obtain x w2 where x: "run_state (pl_pull pl source) w1 = (x, w2)" by fastforce
  have l: "looks w w2" using look.step_trans [OF l1 alongD [OF pull_looks x]] .
  from assms r x obtain p i where p: "x = Inr (p, i)" "r = None"
    by (cases r; cases x) (auto simp: fill_def)
  have "run_state (store_extract st cp name (fill_record owner source i) (pd_entries p) (pd_end p)) w2 = (None, w')"
    using assms r x p by (auto simp: fill_def split: prod.splits)
  with l l1 x p(1) show ?thesis by blast
qed

text \<open>A source that serves a whole archive whenever it is asked in a calm world fills what may be filled.\<close>

lemma fill_calm:
  assumes d: "dir_at (root w) cp" "clean_path cp" "plain name" "calm w" "before_lock st = None"
    and v: "direct (lookup (root w) (cp @ [name]))" "may_replace (lookup (root w) (cp @ [name])) owner" "fresh_draws w cp name"
    and s: "\<And>w. calm w \<Longrightarrow> \<exists>p i w'. run_state (pl_pull pl source) w = (Inr (p, i), w') \<and> whole (pd_entries p) (pd_end p)"
  shows "wp (fill st pl cp name source owner oc) (\<lambda>(x, heard) w'. x = None) w"
proof -
  have e: "map_of (entries_at (root w) cp) name = lookup (root w) (cp @ [name])" using d(1) by (simp add: lookup_entry)
  have n: "store_dir cp name = cp @ [name]" using d(2,3) by (simp add: store_dir_def join_plain)
  obtain r w1 where r: "run_state (store_replaceable cp name owner) w = (r, w1)" by fastforce
  then have l1: "looks w w1" unfolding store_replaceable_def by (rule alongD [OF along_looks_replaceable])
  have r0: "r = None"
    using wpD [OF replaceable_in [OF d(1-3) _ calm_honest [OF d(4)], of owner]] r v d(4) by (simp add: store_replaceable_def n e)
  from s [of w1] l1 d(4) obtain p i w2 where p: "run_state (pl_pull pl source) w1 = (Inr (p, i), w2)" "whole (pd_entries p) (pd_end p)"
    using looks_calm by blast
  have l2: "looks w w2" using look.step_trans [OF l1] alongD [OF pull_looks p(1)] by blast
  note w2 = looks_facts [OF l2]
  have d2: "dir_at (root w2) cp" "honest w2" "calm w2" using w2 d calm_honest by simp_all
  obtain y w3 where y: "run_state (store_extract st cp name (fill_record owner source i) (pd_entries p) (pd_end p)) w2 = (y, w3)" by fastforce
  have f: "fresh_draws w2 cp name" using fresh_draws_cong [of w w2] w2 v(3) by simp
  have "y = None"
  proof (rule ccontr)
    assume "y \<noteq> None"
    then obtain e' where "y = Some e'" by blast
    with wpD [OF extract_spec [OF d2(1) d(2,3) d2(2) d(5)] y] d2(3) w2 v f p(2) show False by simp
  qed
  with r r0 p(1) y show ?thesis by (simp add: fill_def wp_def)
qed

end

subsection \<open>Properties\<close>

text \<open>Both pullers, and the image behind what they give.\<close>

definition puller_on :: "('r, 'c) image_library \<Rightarrow> 'c remote option \<Rightarrow> puller" where
  "puller_on lib src = (case src of None \<Rightarrow> tarball_puller lib | Some r \<Rightarrow> remote_puller lib r)"

definition opened :: "('r, 'c) image_library \<Rightarrow> 'c remote option \<Rightarrow> string \<Rightarrow> sworld \<Rightarrow> v1_image \<Rightarrow> bool" where
  "opened lib src source w img \<longleftrightarrow> (case src of None \<Rightarrow> in_archive lib source w img | Some r \<Rightarrow> in_registry lib r source w img)"

lemma pull_image:
  "run_state (pl_pull (puller_on lib src) source) w = (Inr (p, i), w') \<Longrightarrow>
   \<exists>img w1. pull_of lib img p i \<and> looks w w1 \<and> opened lib src source w1 img"
  unfolding puller_on_def opened_def by (cases src) (auto dest: remote_image tarball_image)

lemma image_source_on: "image_source (puller_on lib src)"
  unfolding puller_on_def using rp.image_source_axioms tp.image_source_axioms by (cases src) auto

lemma both_sources: "pl = remote_puller lib r \<or> pl = tarball_puller lib \<Longrightarrow> image_source pl"
  using rp.image_source_axioms tp.image_source_axioms by blast

text \<open>C34: A fill that succeeds, from a registry or from an archive and whatever failed on the way, put
  exactly the files of the layers of its source's image in the directory. The image is what the library answered for that
  source, asked with the tree as the fill found it: for the reference the source parses to, over the transport of the settings, or for the archive at that path. It is not declared for
  another platform, each of its layers was read to its verified end, the sentinel records the owner, the
  source, the digest and the diff IDs, and nothing else under the cache path changed.\<close>

theorem fill_success:
  assumes "pl = (case src of None \<Rightarrow> tarball_puller lib | Some r \<Rightarrow> remote_puller lib r)"
    and "dir_at (root w) cp" "clean_path cp" "plain name" "honest w" "before_lock st = None"
    and run: "run_state (fill st pl cp name source owner oc) w = ((None, heard), w')"
  shows "(\<exists>img i ls w1. looks w w1 \<and>
      (case src of
         None \<Rightarrow> lib_tarball lib source w1 = Inr img
       | Some r \<Rightarrow> \<exists>ref. lib_parse lib (rm_plain_http r) source = Inr ref \<and> lib_remote lib ref (rm_transport r) w1 = Inr img) \<and>
      sound_image lib img i ls \<and> holds_image (root w') cp name (fill_record owner source i) (concat (map ly_entries ls)))
    \<and> elsewhere cp {name} (root w) (root w') \<and> locks w' \<subseteq> locks w"
proof -
  have pl: "pl = puller_on lib src" using assms(1) by (simp add: puller_on_def)
  obtain w1 w2 p i where l1: "looks w w1" and p: "run_state (pl_pull pl source) w1 = (Inr (p, i), w2)" and l2: "looks w w2"
    and x: "run_state (store_extract st cp name (fill_record owner source i) (pd_entries p) (pd_end p)) w2 = (None, w')"
    using image_source.fill_success_run [OF image_source_on run [unfolded pl]] unfolding pl by blast
  obtain img w3 where img: "pull_of lib img p i" and l3: "looks w1 w3" and o: "opened lib src source w3 img"
    using pull_image [OF p [unfolded pl]] by blast
  have d: "dir_at (root w2) cp" "honest w2" "root w2 = root w" "locks w2 = locks w" using looks_facts [OF l2] assms by simp_all
  from wpD [OF extract_spec [OF d(1) assms(3,4) d(2) assms(6)] x] have e: "whole (pd_entries p) (pd_end p)"
    "holds_image (root w') cp name (fill_record owner source i) (pd_entries p)" "elsewhere cp {name} (root w) (root w')" "locks w' \<subseteq> locks w"
    using d(3,4) by simp_all
  obtain ls where "sound_image lib img i ls" "pd_entries p = concat (map ly_entries ls)"
    using pull_of_whole [OF img] e(1) by (auto simp: whole_def acceptable_def)
  moreover have "case src of None \<Rightarrow> lib_tarball lib source w3 = Inr img
      | Some r \<Rightarrow> \<exists>ref. lib_parse lib (rm_plain_http r) source = Inr ref \<and> lib_remote lib ref (rm_transport r) w3 = Inr img"
    using o by (cases src) (simp_all add: opened_def in_registry_def in_archive_def)
  ultimately show ?thesis using e(2-4) look.step_trans [OF l1 l3] by (intro conjI exI [of _ img] exI [of _ i] exI [of _ ls] exI [of _ w3]) simp_all
qed

lemma sample_pulled:
  "pull_stream sample_library sample_image = \<lparr>pd_entries = [tar_file ''images/a.tar'' ''abc''], pd_end = Eof, pd_close = None\<rparr>"
  "identify sample_image = Inr \<lparr>id_digest = ''sha256:1'', id_layers = [''sha256:2'']\<rparr>"
  by (simp_all add: pull_stream_def sample_library_def sample_image_def stream_entries_def write_entries_def copy_entries_def
      tar_file_def whiteout_prefix_def base_def strip_slashes_def Let_def identify_def wrong_platform_def platform_os_def)

lemma sample_serves:
  "calm w \<Longrightarrow> \<exists>p i w'. run_state (pl_pull (tarball_puller sample_library) source) w = (Inr (p, i), w') \<and> whole (pd_entries p) (pd_end p)"
proof -
  assume "calm w"
  then have "wp (pl_pull (tarball_puller sample_library) source) (\<lambda>x _. \<exists>p i. x = Inr (p, i) \<and> whole (pd_entries p) (pd_end p)) w"
    using whole_sample
    by (simp add: tarball_puller_def puller_of_def tarball_open_def wp_rules identified_def sample_pulled [unfolded sample_library_def] sample_library_def)
  then show ?thesis by (cases "run_state (pl_pull (tarball_puller sample_library) source) w") (auto dest: wpD)
qed

lemma sample_fill:
  "\<exists>heard w'. run_state (fill no_hook (tarball_puller sample_library) [''cache''] ''boot'' ''a.tar'' owner_agent True) (cache_world [] m) = ((None, heard), w')"
proof -
  have "wp (fill no_hook (tarball_puller sample_library) [''cache''] ''boot'' ''a.tar'' owner_agent True) (\<lambda>(x, heard) w'. x = None) (cache_world [] m)"
    by (rule tp.fill_calm [OF _ _ _ _ _ _ _ _ sample_serves]) (simp_all add: plain_def direct_def may_replace_def fresh_draws_def)
  then show ?thesis by (auto simp: wp_def split: prod.splits)
qed

text \<open>In the witness the library holds the sample image at one path, another one everywhere else.\<close>

definition one_archive :: "(string, string) image_library" where
  "one_archive = sample_library\<lparr>lib_tarball := (\<lambda>source _. if source = ''a.tar'' then Inr sample_image else Inr (sample_image\<lparr>im_layers := Inr []\<rparr>))\<rparr>"

lemma one_archive_filled:
  "\<exists>heard w'. run_state (fill no_hook (tarball_puller one_archive) [''cache''] ''boot'' ''a.tar'' owner_agent True) (cache_world [] None) = ((None, heard), w')"
proof -
  have s: "\<exists>p i w'. run_state (pl_pull (tarball_puller one_archive) ''a.tar'') w = (Inr (p, i), w') \<and> whole (pd_entries p) (pd_end p)" if "calm w" for w
  proof -
    have "pull_stream one_archive = pull_stream sample_library" by (simp add: fun_eq_iff pull_stream_def one_archive_def)
    then have "wp (pl_pull (tarball_puller one_archive) ''a.tar'') (\<lambda>x _. \<exists>p i. x = Inr (p, i) \<and> whole (pd_entries p) (pd_end p)) w"
      using whole_sample that
      by (simp add: tarball_puller_def puller_of_def tarball_open_def wp_rules identified_def sample_pulled) (simp add: one_archive_def sample_pulled)
    then show ?thesis by (cases "run_state (pl_pull (tarball_puller one_archive) ''a.tar'') w") (auto dest: wpD)
  qed
  have "wp (fill no_hook (tarball_puller one_archive) [''cache''] ''boot'' ''a.tar'' owner_agent True) (\<lambda>(x, heard) w'. x = None) (cache_world [] None)"
    by (rule tp.fill_calm [OF _ _ _ _ _ _ _ _ s]) (simp_all add: plain_def direct_def may_replace_def fresh_draws_def)
  then show ?thesis by (auto simp: wp_def split: prod.splits)
qed

theorem fill_success_witness:
  "\<exists>heard w' i ls. run_state (fill no_hook (tarball_puller one_archive) [''cache''] ''boot'' ''a.tar'' owner_agent True) (cache_world [] None)
       = ((None, heard), w') \<and> sound_image one_archive sample_image i ls
     \<and> holds_image (root w') [''cache''] ''boot'' (fill_record owner_agent ''a.tar'' i) (concat (map ly_entries ls))"
proof -
  obtain heard w' where run: "run_state (fill no_hook (tarball_puller one_archive) [''cache''] ''boot'' ''a.tar'' owner_agent True) (cache_world [] None)
       = ((None, heard), w')" using one_archive_filled by blast
  have "lib_tarball one_archive ''a.tar'' w = Inr sample_image" for w by (simp add: one_archive_def)
  with fill_success [where src = None and lib = one_archive, OF _ _ _ _ _ _ run] show ?thesis using run by (auto simp: plain_def)
qed

text \<open>A fill that fails, at whatever call, leaves everything but the resource's entry and at most one new
  temporary directory as it was; the entry is whole, a part of the old one, or gone; what the owner
  may not replace is untouched; with no failing call the tree is unchanged; and the close callback
  hears nothing.\<close>

theorem fill_failure:
  assumes "pl = remote_puller lib r \<or> pl = tarball_puller lib"
    and "dir_at (root w) cp" "clean_path cp" "plain name" "honest w" "before_lock st = None"
    and run: "run_state (fill st pl cp name source owner oc) w = ((Some e, heard), w')"
  shows "spared cp name owner (root w) (root w') \<and> (calm w \<longrightarrow> root w' = root w) \<and> heard = None \<and> locks w' \<subseteq> locks w"
  using wpD [OF image_source.fill_spec [OF both_sources [OF assms(1)] assms(2-6)] run] by (simp add: fill_outcome_def)

text \<open>The same library, with an image for another processor.\<close>

definition foreign_library :: "(string, string) image_library" where
  "foreign_library = sample_library\<lparr>lib_tarball := (\<lambda>_ _. Inr (sample_image\<lparr>im_config := Inr \<lparr>cf_os = ''linux'', cf_arch = ''arm64'', cf_diff_ids = []\<rparr>\<rparr>))\<rparr>"

lemma foreign_refused:
  "\<exists>e heard w'. run_state (fill no_hook (tarball_puller foreign_library) [''cache''] ''boot'' ''a.tar'' owner_agent True) (cache_world [] None) = ((Some e, heard), w')"
proof -
  have i: "identify (sample_image\<lparr>im_config := Inr \<lparr>cf_os = ''linux'', cf_arch = ''arm64'', cf_diff_ids = []\<rparr>\<rparr>)
      = Inl (pull_error None ''the image is for another platform'')"
    by (simp add: identify_def sample_image_def wrong_platform_def platform_os_def platform_arch_def)
  have "\<not> gives (tarball_puller foreign_library) ''a.tar'' p i" for p i
  proof
    assume "gives (tarball_puller foreign_library) ''a.tar'' p i"
    then obtain w w' where "run_state (pl_pull (tarball_puller foreign_library) ''a.tar'') w = (Inr (p, i), w')" by (auto simp: gives_def)
    moreover have "wp (pl_pull (tarball_puller foreign_library) ''a.tar'') (\<lambda>x _. \<forall>y. x \<noteq> Inr y) w"
      by (auto simp: tarball_puller_def puller_of_def tarball_open_def wp_rules identified_def foreign_library_def \<open>identify _ = _\<close>)
    ultimately show False by (auto dest: wpD)
  qed
  moreover have "wp (fill no_hook (tarball_puller foreign_library) [''cache''] ''boot'' ''a.tar'' owner_agent True)
      (fill_outcome (tarball_puller foreign_library) [''cache''] ''boot'' ''a.tar'' owner_agent True (cache_world [] None)) (cache_world [] None)"
    by (rule tp.fill_spec) (simp_all add: plain_def)
  ultimately show ?thesis by (auto simp: wp_def fill_outcome_def split: prod.splits option.splits)
qed

theorem fill_failure_witness:
  "\<exists>e heard w'. run_state (fill no_hook (tarball_puller foreign_library) [''cache''] ''boot'' ''a.tar'' owner_agent True) (cache_world [] None) = ((Some e, heard), w')
     \<and> root w' = root (cache_world [] None) \<and> heard = None"
proof -
  obtain e heard w' where run: "run_state (fill no_hook (tarball_puller foreign_library) [''cache''] ''boot'' ''a.tar'' owner_agent True) (cache_world [] None) = ((Some e, heard), w')"
    using foreign_refused by blast
  from fill_failure [OF disjI2 [OF refl] _ _ _ _ _ run] show ?thesis using run by (auto simp: plain_def)
qed

text \<open>A fill in a world where no call fails is seen by the next pass: when the names and the record are
  valid UTF-8, State finds the directory complete, and ReadRecord gives the filler as the owner and the
  diff IDs the source resolved to, which is what an adoption compares.\<close>

theorem fill_then_state:
  assumes "pl = remote_puller lib r \<or> pl = tarball_puller lib"
    and "dir_at (root w) cp" "clean_path cp" "plain name" "calm w" "before_lock st = None"
    and run: "run_state (fill st pl cp name source owner oc) w = ((None, heard), w')"
  shows "\<exists>p i. gives pl source p i \<and>
    (names_valid (pd_entries p) \<longrightarrow> sizes_small (pd_entries p) \<longrightarrow>
      fst (run_state (state_of cp name) w') = (Complete, None) \<and>
      (record_valid (fill_record owner source i) \<longrightarrow> fst (run_state (read_record cp name) w')
        = Inr ((fill_record owner source i)\<lparr>rec_content := map file_of (wanted (pd_entries p))\<rparr>)))"
proof -
  obtain w1 w2 p i where l: "looks w w2" and g: "run_state (pl_pull pl source) w1 = (Inr (p, i), w2)"
    and x: "run_state (store_extract st cp name (fill_record owner source i) (pd_entries p) (pd_end p)) w2 = (None, w')"
    using image_source.fill_success_run [OF both_sources [OF assms(1)] run] by blast
  have d: "dir_at (root w2) cp" "calm w2" using looks_facts [OF l] assms by simp_all
  have "gives pl source p i" using g by (auto simp: gives_def)
  with extract_reads_back [OF d(1) assms(3,4) d(2) assms(6) _ _ x] show ?thesis by blast
qed

lemma sample_gives: "gives (tarball_puller sample_library) source p i \<Longrightarrow> pd_entries p = [tar_file ''images/a.tar'' ''abc'']"
proof -
  assume "gives (tarball_puller sample_library) source p i"
  then obtain w w1 where "run_state (pl_pull (tarball_puller sample_library) source) w = (Inr (p, i), w1)" by (auto simp: gives_def)
  moreover have "wp (pl_pull (tarball_puller sample_library) source) (\<lambda>x _. \<forall>p i. x = Inr (p, i) \<longrightarrow> pd_entries p = [tar_file ''images/a.tar'' ''abc'']) w"
    by (auto simp: tarball_puller_def puller_of_def tarball_open_def wp_rules identified_def sample_pulled [unfolded sample_library_def] sample_library_def)
  ultimately show ?thesis by (auto dest: wpD)
qed

theorem fill_then_state_witness:
  "\<exists>heard w'. run_state (fill no_hook (tarball_puller sample_library) [''cache''] ''boot'' ''a.tar'' owner_agent True) (cache_world [] None)
      = ((None, heard), w') \<and> fst (run_state (state_of [''cache''] ''boot'') w') = (Complete, None)"
proof -
  obtain heard w' where run: "run_state (fill no_hook (tarball_puller sample_library) [''cache''] ''boot'' ''a.tar'' owner_agent True) (cache_world [] None)
       = ((None, heard), w')" using sample_fill by blast
  from fill_then_state [OF disjI2 [OF refl] _ _ _ _ _ run] obtain p i where p: "gives (tarball_puller sample_library) ''a.tar'' p i"
    "names_valid (pd_entries p) \<longrightarrow> sizes_small (pd_entries p) \<longrightarrow> fst (run_state (state_of [''cache''] ''boot'') w') = (Complete, None)"
    by (auto simp: plain_def)
  then have "pd_entries p = [tar_file ''images/a.tar'' ''abc'']" using sample_gives by blast
  with p(2) run sample_valid show ?thesis by auto
qed

end
