(* ===== verification/FSWatch.thy ===== *)
theory FSWatch
  imports Collect
begin

section \<open>The file-system watcher (controller/fswatch.go)\<close>

text \<open>
  \<^verbatim>\<open>FSWatcher\<close> turns changes under the cache path into triggers of the reconcile loop.
  \<^verbatim>\<open>fsnotify\<close> is a parameter, the record \<open>fsnotify\<close>: opening and closing a
  watcher, adding and removing a path in a given state of the node. A Go map is the list of its keys; the field
  \<open>fn_visit\<close> is the order in which a \<^verbatim>\<open>range\<close> happens to visit one. The channel
  \<^verbatim>\<open>Events\<close> is the list of what is buffered in it. The loop of \<^verbatim>\<open>Start\<close>
  is one step per value it receives; the scheduler, the consumer of the channel and the passes that
  call \<^verbatim>\<open>SetPaths\<close> interleave with it in the relation \<open>fsw_step\<close>.
\<close>

record 'f fsnotify =
  fn_new :: "'f res"
  fn_add :: "path \<Rightarrow> sworld \<Rightarrow> 'f \<Rightarrow> err option \<times> 'f"
  fn_remove :: "path \<Rightarrow> sworld \<Rightarrow> 'f \<Rightarrow> err option \<times> 'f"
  fn_close :: "'f \<Rightarrow> err option \<times> 'f"
  fn_visit :: "path list \<Rightarrow> path list"

record 'f fswatcher =
  fw_watcher :: 'f
  fw_paths :: "path list"
  fw_roots :: "path list"
  fw_trigger :: string
  fw_events :: "string list"

definition new_fswatcher :: "'f fsnotify \<Rightarrow> string \<Rightarrow> 'f fswatcher res" where
  "new_fswatcher fn node_name = (case fn_new fn of
     Inl e \<Rightarrow> Inl (Wrap ErrWatcher (Some e) ''opening the filesystem watcher'')
   | Inr w \<Rightarrow> Inr \<lparr>fw_watcher = w, fw_paths = [], fw_roots = [], fw_trigger = node_name, fw_events = []\<rparr>)"

subsection \<open>The forwarding loop\<close>

record fs_event =
  ev_name :: path
  ev_write :: bool

text \<open>What a \<^verbatim>\<open>select\<close> of the loop can receive.\<close>

datatype fs_input = CtxDone | Event fs_event | EventsClosed | WatchError err | ErrorsClosed

datatype 'f loop = Continue "'f fswatcher" | Return "err option"

text \<open>\<^verbatim>\<open>filepath.Dir\<close> of a rooted path.\<close>

definition dir_of :: "path \<Rightarrow> path" where
  "dir_of p = clean (butlast p)"

definition is_root :: "'f fswatcher \<Rightarrow> path \<Rightarrow> bool" where
  "is_root f dir \<longleftrightarrow> dir \<in> set (fw_roots f)"

definition events_cap :: nat where
  "events_cap = 1"

definition closed :: "bool \<Rightarrow> err option" where
  "closed cancelled = (if cancelled then None else Some (Wrap ErrWatcher None ''the watcher closed on its own''))"

text \<open>The send that does not wait: a full buffer drops the trigger.\<close>

definition send_trigger :: "'f fswatcher \<Rightarrow> 'f fswatcher" where
  "send_trigger f = (if length (fw_events f) < events_cap then f\<lparr>fw_events := fw_events f @ [fw_trigger f]\<rparr> else f)"

fun start_step :: "bool \<Rightarrow> fs_input \<Rightarrow> 'f fswatcher \<Rightarrow> 'f loop" where
  "start_step cancelled CtxDone f = Return None"
| "start_step cancelled (Event ev) f =
     (if ev_write ev \<and> is_root f (dir_of (ev_name ev)) then Continue f else Continue (send_trigger f))"
| "start_step cancelled EventsClosed f = Return (closed cancelled)"
| "start_step cancelled (WatchError e) f = Continue f"
| "start_step cancelled ErrorsClosed f = Return (closed cancelled)"

text \<open>\<^verbatim>\<open>Start\<close> on what it receives, each with whether the context is cancelled by then;
  \<open>None\<close> while it still waits.\<close>

fun start :: "(bool \<times> fs_input) list \<Rightarrow> 'f fswatcher \<Rightarrow> 'f fswatcher \<times> err option option" where
  "start [] f = (f, None)"
| "start ((c, i) # is) f = (case start_step c i f of
     Return e \<Rightarrow> (f, Some e)
   | Continue f' \<Rightarrow> start is f')"

definition close_watcher :: "'f fsnotify \<Rightarrow> 'f fswatcher \<Rightarrow> err option \<times> 'f fswatcher" where
  "close_watcher fn f = (case fn_close fn (fw_watcher f) of (e, x) \<Rightarrow> (e, f\<lparr>fw_watcher := x\<rparr>))"

definition need_leader_election :: bool where
  "need_leader_election = False"

subsection \<open>SetPaths\<close>

fun wanted_below :: "path \<Rightarrow> (string \<times> node) list \<Rightarrow> path list" where
  "wanted_below r [] = []"
| "wanted_below r ((n, e) # es) =
     (if is_dir e \<and> \<not> is_temporary n then List.insert (join r n) (wanted_below r es) else wanted_below r es)"

fun want_paths :: "path list \<Rightarrow> (sworld, path list) state" where
  "want_paths [] = State_Monad.return []"
| "want_paths (r # rs) = do {
     l \<leftarrow> read_dir r;
     ps \<leftarrow> want_paths rs;
     State_Monad.return (List.insert r (List.union (case l of Inl _ \<Rightarrow> [] | Inr es \<Rightarrow> wanted_below r es) ps))
   }"

fun drop_paths :: "'f fsnotify \<Rightarrow> sworld \<Rightarrow> path list \<Rightarrow> path list \<Rightarrow> 'f fswatcher \<Rightarrow> 'f fswatcher" where
  "drop_paths fn w want [] f = f"
| "drop_paths fn w want (p # ps) f =
     (if p \<notin> set want
      then drop_paths fn w want ps
        (f\<lparr>fw_watcher := snd (fn_remove fn p w (fw_watcher f)), fw_paths := removeAll p (fw_paths f)\<rparr>)
      else drop_paths fn w want ps f)"

fun add_paths :: "'f fsnotify \<Rightarrow> sworld \<Rightarrow> path list \<Rightarrow> 'f fswatcher \<Rightarrow> 'f fswatcher" where
  "add_paths fn w [] f = f"
| "add_paths fn w (p # ps) f = (case fn_add fn p w (fw_watcher f) of
     (None, x) \<Rightarrow> add_paths fn w ps (f\<lparr>fw_watcher := x, fw_paths := List.insert p (fw_paths f)\<rparr>)
   | (Some e, x) \<Rightarrow> add_paths fn w ps (f\<lparr>fw_watcher := x\<rparr>))"

text \<open>An error of \<^verbatim>\<open>Add\<close> is only logged, whether the path is missing or not.\<close>

definition set_paths :: "'f fsnotify \<Rightarrow> path list \<Rightarrow> 'f fswatcher \<Rightarrow> (sworld, 'f fswatcher) state" where
  "set_paths fn roots f = do {
     want \<leftarrow> want_paths roots;
     w \<leftarrow> State_Monad.get;
     State_Monad.return (add_paths fn w (fn_visit fn want)
       (drop_paths fn w want (fn_visit fn (fw_paths f)) (f\<lparr>fw_roots := map clean roots\<rparr>)))
   }"

subsection \<open>What fsnotify promises\<close>

text \<open>\<open>on x\<close> is the set of paths the watcher \<open>x\<close> reports on. Adding a path that is there watches it
  and leaves the others, a failing addition and a removal do not disturb the others, and a
  \<^verbatim>\<open>range\<close> visits every key of the map.\<close>

definition watch_laws :: "'f fsnotify \<Rightarrow> ('f \<Rightarrow> path set) \<Rightarrow> bool" where
  "watch_laws fn on \<longleftrightarrow>
     (\<forall>p w x x'. fn_add fn p w x = (None, x') \<longrightarrow> on x' = insert p (on x)) \<and>
     (\<forall>p w x e x'. fn_add fn p w x = (Some e, x') \<longrightarrow> on x' = on x) \<and>
     (\<forall>p w x. on (snd (fn_remove fn p w x)) = on x - {p}) \<and>
     (\<forall>ps. set (fn_visit fn ps) = set ps)"

lemma watch_laws_simps:
  assumes "watch_laws fn on"
  shows "fn_add fn p w x = (None, x') \<Longrightarrow> on x' = insert p (on x)"
    "fn_add fn p w x = (Some e, x') \<Longrightarrow> on x' = on x"
    "on (snd (fn_remove fn p w x)) = on x - {p}" "set (fn_visit fn ps) = set ps"
  using assms by (simp_all add: watch_laws_def)

lemma drop_paths_fields [simp]:
  "fw_roots (drop_paths fn w want ps f) = fw_roots f" "fw_trigger (drop_paths fn w want ps f) = fw_trigger f"
  "fw_events (drop_paths fn w want ps f) = fw_events f"
  by (induction ps arbitrary: f) auto

lemma add_paths_fields [simp]:
  "fw_roots (add_paths fn w ps f) = fw_roots f" "fw_trigger (add_paths fn w ps f) = fw_trigger f"
  "fw_events (add_paths fn w ps f) = fw_events f"
  by (induction ps arbitrary: f) (auto split: prod.split option.split)

lemma drop_paths_sets:
  assumes "watch_laws fn on"
  shows "set (fw_paths (drop_paths fn w want ps f)) = set (fw_paths f) - (set ps - set want)
    \<and> on (fw_watcher (drop_paths fn w want ps f)) = on (fw_watcher f) - (set ps - set want)"
  by (induction ps arbitrary: f) (auto simp: watch_laws_simps [OF assms])

text \<open>Which additions succeed: the answer may depend on the watcher, which changes as paths are added.\<close>

lemma add_paths_sets:
  assumes "watch_laws fn on"
  shows "set (fw_paths f) \<subseteq> set (fw_paths (add_paths fn w ps f)) \<and> on (fw_watcher f) \<subseteq> on (fw_watcher (add_paths fn w ps f))
    \<and> (\<exists>A \<subseteq> set ps. set (fw_paths (add_paths fn w ps f)) = set (fw_paths f) \<union> A \<and> on (fw_watcher (add_paths fn w ps f)) = on (fw_watcher f) \<union> A
        \<and> ((\<forall>p \<in> set ps. \<forall>x. fst (fn_add fn p w x) = None) \<longrightarrow> A = set ps))"
proof (induction ps arbitrary: f)
  case (Cons p ps)
  obtain e x where a: "fn_add fn p w (fw_watcher f) = (e, x)" by fastforce
  define g where "g = (if e = None then f\<lparr>fw_watcher := x, fw_paths := List.insert p (fw_paths f)\<rparr> else f\<lparr>fw_watcher := x\<rparr>)"
  have g: "add_paths fn w (p # ps) f = add_paths fn w ps g" by (simp add: a g_def split: option.split)
  have s: "set (fw_paths g) = set (fw_paths f) \<union> (if e = None then {p} else {})" "on (fw_watcher g) = on (fw_watcher f) \<union> (if e = None then {p} else {})"
    using a watch_laws_simps [OF assms] by (auto simp: g_def split: option.split)
  obtain A where A: "A \<subseteq> set ps" "set (fw_paths (add_paths fn w ps g)) = set (fw_paths g) \<union> A"
    "on (fw_watcher (add_paths fn w ps g)) = on (fw_watcher g) \<union> A"
    "(\<forall>p \<in> set ps. \<forall>x. fst (fn_add fn p w x) = None) \<longrightarrow> A = set ps" using Cons [of g] by blast
  have ok: "e = None" if "\<forall>x. fst (fn_add fn p w x) = None" using that a by (metis fst_conv)
  show ?case
    unfolding g using A s ok
    by (intro conjI exI [of _ "A \<union> (if e = None then {p} else {})"]) auto
qed auto

lemma wanted_below_set: "set (wanted_below r es) = {join r n |n e. (n, e) \<in> set es \<and> is_dir e \<and> \<not> is_temporary n}"
  by (induction r es rule: wanted_below.induct) auto

text \<open>What a pass wants watched: the roots and the directories in them, temporary ones apart.\<close>

definition dirs_below :: "node \<Rightarrow> path \<Rightarrow> path set" where
  "dirs_below r p = (case readdir_in r p of
     Inl e \<Rightarrow> {}
   | Inr es \<Rightarrow> {join p n |n e. (n, e) \<in> set es \<and> is_dir e \<and> \<not> is_temporary n})"

definition to_watch :: "node \<Rightarrow> path list \<Rightarrow> path set" where
  "to_watch r roots = set roots \<union> \<Union> (dirs_below r ` set roots)"

lemma want_paths_faultless:
  "faultless w \<Longrightarrow> wp (want_paths roots) (\<lambda>want w'. looks w w' \<and> set want = to_watch (root w) roots) w"
proof (induction roots arbitrary: w)
  case Nil
  then show ?case by (simp add: wp_rules look.step_refl to_watch_def)
next
  case (Cons r rs)
  have f: "faultless (tock w)" using Cons.prems by simp
  have "wp (want_paths rs) (\<lambda>want w'. looks w w' \<and> set want = to_watch (root w) rs) (tock w)"
    by (rule wp_mono [OF Cons.IH [OF f]]) (auto intro: look.step_trans [OF looks_tock])
  then show ?case
    using Cons.prems
    by (simp add: wp_rules wp_read_dir)
      (erule wp_mono, auto simp: wp_return to_watch_def dirs_below_def wanted_below_set split: sum.splits)
qed

lemma along_looks_want_paths: "along looks (want_paths roots)"
  by (induction roots) (auto intro!: look.along_intros along_queries)

lemma along_looks_set_paths: "along looks (set_paths fn roots f)"
  by (auto simp: set_paths_def intro!: look.along_intros along_looks_want_paths)

subsection \<open>The interleaving\<close>

text \<open>The second component says whether a change was reported since the last trigger was taken. The
  consumer takes a trigger before its pass starts, so a change reported during the pass counts as
  unseen again.\<close>

inductive fsw_step :: "'f fsnotify \<Rightarrow> 'f fswatcher \<times> bool \<Rightarrow> 'f fswatcher \<times> bool \<Rightarrow> bool" for fn where
  forward: "start_step c (Event ev) f = Continue f' \<Longrightarrow>
     fsw_step fn (f, u) (f', u \<or> \<not> (ev_write ev \<and> is_root f (dir_of (ev_name ev))))"
| report: "start_step c (WatchError e) f = Continue f' \<Longrightarrow> fsw_step fn (f, u) (f', u)"
| consume: "fw_events f = t # ts \<Longrightarrow> fsw_step fn (f, u) (f\<lparr>fw_events := ts\<rparr>, False)"
| pass: "run_state (set_paths fn roots f) w = (f', w') \<Longrightarrow> fsw_step fn (f, u) (f', u)"

inductive fsw_reach :: "'f fsnotify \<Rightarrow> string \<Rightarrow> 'f fswatcher \<times> bool \<Rightarrow> bool" for fn node where
  opened: "new_fswatcher fn node = Inr f \<Longrightarrow> fsw_reach fn node (f, False)"
| stepped: "fsw_reach fn node s \<Longrightarrow> fsw_step fn s t \<Longrightarrow> fsw_reach fn node t"

inductive_cases fsw_stepE: "fsw_step fn (f, u) t"

definition fsw_inv :: "string \<Rightarrow> 'f fswatcher \<times> bool \<Rightarrow> bool" where
  "fsw_inv node s \<longleftrightarrow> fw_trigger (fst s) = node \<and> (fw_events (fst s) = [node] \<or> fw_events (fst s) = [] \<and> \<not> snd s)"

lemma set_paths_fields:
  assumes "run_state (set_paths fn roots f) w = (f', w')"
  shows "fw_trigger f' = fw_trigger f" "fw_events f' = fw_events f" "fw_roots f' = map clean roots"
  using assms by (auto simp: set_paths_def split: prod.splits)

lemma fsw_step_inv: "fsw_step fn s t \<Longrightarrow> fsw_inv node s \<Longrightarrow> fsw_inv node t"
proof (induction rule: fsw_step.induct)
  case (pass roots f w f' w' u)
  then show ?case by (simp add: fsw_inv_def set_paths_fields [OF pass(1)])
qed (auto simp: fsw_inv_def send_trigger_def events_cap_def split: if_splits)

lemma fsw_reach_inv: "fsw_reach fn node s \<Longrightarrow> fsw_inv node s"
proof (induction rule: fsw_reach.induct)
  case (opened f)
  then show ?case by (auto simp: new_fswatcher_def fsw_inv_def split: sum.splits)
next
  case (stepped s t)
  then show ?case by (blast intro: fsw_step_inv)
qed

subsection \<open>Properties\<close>

text \<open>C36: No lost trigger. In every interleaving of the forwarding loop with the consumer and with the
  passes, the channel holds at most one trigger, named after the node, and it holds one whenever a
  change that is not a write at a cache path was reported since a trigger was last taken: dropping a
  trigger on a full buffer loses nothing.\<close>

theorem no_lost_trigger:
  assumes "fsw_reach fn node (f, unseen)"
  shows "length (fw_events f) \<le> events_cap \<and> set (fw_events f) \<subseteq> {node} \<and> (unseen \<longrightarrow> fw_events f = [node])"
  using fsw_reach_inv [OF assms] by (auto simp: fsw_inv_def events_cap_def)

definition sample_notify :: "path set fsnotify" where
  "sample_notify = \<lparr>fn_new = Inr {}, fn_add = (\<lambda>p w x. (None, insert p x)), fn_remove = (\<lambda>p w x. (None, x - {p})), fn_close = (\<lambda>x. (None, {})), fn_visit = (\<lambda>ps. ps)\<rparr>"

theorem no_lost_trigger_witness:
  "\<exists>f :: path set fswatcher. fsw_reach sample_notify ''node-1'' (f, True) \<and> fw_events f = [''node-1'']"
proof -
  let ?f = "\<lparr>fw_watcher = {}, fw_paths = [], fw_roots = [], fw_trigger = ''node-1'', fw_events = []\<rparr> :: path set fswatcher"
  let ?ev = "\<lparr>ev_name = [''cache'', ''boot''], ev_write = False\<rparr>"
  have "fsw_reach sample_notify ''node-1'' (?f, False)"
    by (rule fsw_reach.opened) (simp add: new_fswatcher_def sample_notify_def)
  moreover have "fsw_step sample_notify (?f, False) (send_trigger ?f, False \<or> \<not> (ev_write ?ev \<and> is_root ?f (dir_of (ev_name ?ev))))"
    by (rule fsw_step.forward) simp
  ultimately have "fsw_reach sample_notify ''node-1'' (send_trigger ?f, True)"
    using fsw_reach.stepped by fastforce
  with no_lost_trigger [OF this] show ?thesis by blast
qed

text \<open>C37: After SetPaths the set of watched paths is within the cache paths and their immediate,
  non-temporary subdirectories; fsnotify reports on no path outside the set; and when every addition
  succeeds it reports on exactly those, including a directory that was replaced since the last pass.
  The pending triggers are kept.\<close>

theorem set_paths_watches:
  assumes "watch_laws fn on" "on (fw_watcher f) \<subseteq> set (fw_paths f)" "faultless w"
    and run: "run_state (set_paths fn roots f) w = (f', w')"
  shows "set (fw_paths f') \<subseteq> to_watch (root w) roots \<and> on (fw_watcher f') \<subseteq> set (fw_paths f')
    \<and> ((\<forall>p x. p \<in> to_watch (root w) roots \<longrightarrow> fst (fn_add fn p w' x) = None) \<longrightarrow>
        on (fw_watcher f') = to_watch (root w) roots \<and> set (fw_paths f') = to_watch (root w) roots)
    \<and> fw_events f' = fw_events f \<and> root w' = root w"
proof -
  obtain want where p: "run_state (want_paths roots) w = (want, w')"
    and f': "f' = add_paths fn w' (fn_visit fn want) (drop_paths fn w' want (fn_visit fn (fw_paths f)) (f\<lparr>fw_roots := map clean roots\<rparr>))"
    using run by (auto simp: set_paths_def split: prod.splits)
  let ?g = "drop_paths fn w' want (fn_visit fn (fw_paths f)) (f\<lparr>fw_roots := map clean roots\<rparr>)"
  have want: "set want = to_watch (root w) roots" "root w' = root w"
    using wpD [OF want_paths_faultless [OF assms(3)] p] by (simp_all add: looks_def)
  have v: "set (fn_visit fn ps) = set ps" for ps using assms(1) by (simp add: watch_laws_def)
  have g: "set (fw_paths ?g) = set (fw_paths f) \<inter> set want" "on (fw_watcher ?g) \<subseteq> set (fw_paths f) \<inter> set want"
    using drop_paths_sets [OF assms(1), of w' want "fn_visit fn (fw_paths f)" "f\<lparr>fw_roots := map clean roots\<rparr>"] assms(2) by (auto simp: v)
  obtain A where A: "A \<subseteq> set want" "set (fw_paths f') = set (fw_paths ?g) \<union> A" "on (fw_watcher f') = on (fw_watcher ?g) \<union> A"
    "(\<forall>p \<in> set want. \<forall>x. fst (fn_add fn p w' x) = None) \<longrightarrow> A = set want"
    using add_paths_sets [OF assms(1), of ?g w' "fn_visit fn want"] by (auto simp: f' v)
  with g want f' show ?thesis by auto
qed

lemma sample_watch_laws: "watch_laws sample_notify (\<lambda>x. x)"
  by (simp add: watch_laws_def sample_notify_def)

theorem set_paths_watches_witness:
  "set (fw_paths (fst (run_state (set_paths sample_notify [[''cache'']]
      \<lparr>fw_watcher = {}, fw_paths = [], fw_roots = [], fw_trigger = ''node-1'', fw_events = []\<rparr>)
      (cache_world [(''boot'', Dir 3 []), (''.boot.tmp-1'', Dir 4 [])] None)))) = {[''cache''], [''cache'', ''boot'']}"
proof -
  let ?es = "[(''boot'', Dir 3 []), (''.boot.tmp-1'', Dir 4 [])]" and ?w = "cache_world [(''boot'', Dir 3 []), (''.boot.tmp-1'', Dir 4 [])] None"
  let ?f = "\<lparr>fw_watcher = {}, fw_paths = [], fw_roots = [], fw_trigger = ''node-1'', fw_events = []\<rparr> :: path set fswatcher"
  obtain f' w' where run: "run_state (set_paths sample_notify [[''cache'']] ?f) ?w = (f', w')" by fastforce
  have "readdir_in (root ?w) [''cache''] = Inr [(''.boot.tmp-1'', Dir 4 []), (''boot'', Dir 3 [])]"
    by (simp add: readdir_in_def stat_in_def node_at_def resolve_def lift_errno_def walk.simps cache_world_def names_def dir_at_def)
  then have "dirs_below (root ?w) [''cache''] = {join [''cache''] ''boot''}"
    by (auto simp: dirs_below_def is_temporary_def)
  then have "to_watch (root ?w) [[''cache'']] = {[''cache''], [''cache'', ''boot'']}"
    by (auto simp: to_watch_def join_plain plain_def)
  with set_paths_watches [OF sample_watch_laws _ _ run] run show ?thesis by (simp add: sample_notify_def)
qed

text \<open>C38: Start goes on through events and errors and ends at the first cancellation or closed channel. It
  reports an error exactly when a channel closed and the context is not cancelled, so an agent whose
  watcher died does not look healthy.\<close>

theorem start_ends:
  "snd (start is f) = (case dropWhile (\<lambda>(c, i). case i of Event ev \<Rightarrow> True | WatchError e \<Rightarrow> True | _ \<Rightarrow> False) is of
     [] \<Rightarrow> None
   | (c, i) # _ \<Rightarrow> Some (if i = CtxDone \<or> c then None else Some (Wrap ErrWatcher None ''the watcher closed on its own'')))"
  by (induction "is" f rule: start.induct) (auto simp: closed_def split: fs_input.split)

end
