(* ===== verification/Reconcile.thy ===== *)
theory Reconcile
  imports Adopt Labels Fill FSWatch
begin

section \<open>The reconcile pass (controller/node_reconciler.go)\<close>

text \<open>
  One full convergence pass of the agent. The Kubernetes client is a parameter, the record
  \<open>cluster\<close>: reading the node's labels, listing the resources, and patching the labels of the node
  given those it was read with; a patch answers with the labels the server then has. The state of a
  pass is the world of the disk, the state of the server, the watcher, and two traces: the patches
  requested and the events recorded. What is only logged is left out.
\<close>

record image_cache =
  ic_name :: string
  ic_selector :: labels
  ic_source :: string

record 'a cluster =
  cl_get :: "string \<Rightarrow> 'a \<Rightarrow> labels res"
  cl_list :: "'a \<Rightarrow> image_cache list res"
  cl_patch :: "string \<Rightarrow> labels \<Rightarrow> labels \<Rightarrow> 'a \<Rightarrow> labels res \<times> 'a"

datatype event_reason = AdoptFailed | SyncFailed | Adopted | CachePathUnavailable

record ('a, 'f) rworld =
  rw_disk :: sworld
  rw_server :: 'a
  rw_fs :: "'f fswatcher option"
  rw_sent :: "(labels \<times> labels) list"
  rw_events :: "(string \<times> event_reason) list"

record ('a, 'f) node_reconciler =
  nr_client :: "'a cluster"
  nr_notify :: "'f fsnotify"
  nr_node :: string
  nr_cache_path :: path
  nr_store :: store
  nr_puller :: puller
  nr_resync :: int

definition on_disk :: "(sworld, 'x) state \<Rightarrow> (('a, 'f) rworld, 'x) state" where
  "on_disk m = do {
     s \<leftarrow> State_Monad.get;
     (case run_state m (rw_disk s) of (x, w) \<Rightarrow> do { State_Monad.set (s\<lparr>rw_disk := w\<rparr>); State_Monad.return x })
   }"

definition eventf :: "image_cache \<Rightarrow> event_reason \<Rightarrow> (('a, 'f) rworld, unit) state" where
  "eventf ic r = do { s \<leftarrow> State_Monad.get; State_Monad.set (s\<lparr>rw_events := rw_events s @ [(ic_name ic, r)]\<rparr>) }"

subsection \<open>The first pass over the resources\<close>

text \<open>The maps a pass works on: \<open>pn_want\<close> the labels, \<open>pn_keep\<close> the names the collection spares,
  \<open>pn_seeded\<close> the complete directories of another writer, \<open>pn_unread\<close> those whose sentinel
  could not be read.\<close>

record plan =
  pn_want :: labels
  pn_keep :: "string list"
  pn_seeded :: "(string \<times> cache_record) list"
  pn_unread :: "string list"
  pn_errs :: "err list"

definition empty_plan :: plan where
  "empty_plan = \<lparr>pn_want = [], pn_keep = [], pn_seeded = [], pn_unread = [], pn_errs = []\<rparr>"

definition set_want :: "string \<Rightarrow> string \<Rightarrow> plan \<Rightarrow> plan" where
  "set_want n v p = p\<lparr>pn_want := AList.update n v (pn_want p)\<rparr>"

definition add_err :: "err \<Rightarrow> plan \<Rightarrow> plan" where
  "add_err e p = p\<lparr>pn_errs := pn_errs p @ [e]\<rparr>"

definition add_err_opt :: "err option \<Rightarrow> plan \<Rightarrow> plan" where
  "add_err_opt e p = (case e of None \<Rightarrow> p | Some x \<Rightarrow> add_err x p)"

definition survey_one :: "path \<Rightarrow> string \<Rightarrow> plan \<Rightarrow> (sworld, plan) state" where
  "survey_one cp n p = do {
     let p = set_want n status_pending (p\<lparr>pn_keep := List.insert n (pn_keep p)\<rparr>);
     (s, e) \<leftarrow> state_of cp n;
     case e of
       Some x \<Rightarrow> State_Monad.return (add_err x p)
     | None \<Rightarrow>
         if s \<noteq> Complete then State_Monad.return p
         else do {
           r \<leftarrow> read_record cp n;
           State_Monad.return (case r of
             Inl x \<Rightarrow> add_err x (p\<lparr>pn_unread := List.insert n (pn_unread p)\<rparr>)
           | Inr rec \<Rightarrow>
               if rec_owner rec \<noteq> owner_agent then p\<lparr>pn_seeded := AList.update n rec (pn_seeded p)\<rparr>
               else set_want n status_synced p) }
   }"

fun survey :: "path \<Rightarrow> image_cache list \<Rightarrow> plan \<Rightarrow> (sworld, plan) state" where
  "survey cp [] p = State_Monad.return p"
| "survey cp (ic # ics) p = do { p' \<leftarrow> survey_one cp (ic_name ic) p; survey cp ics p' }"

subsection \<open>Labels\<close>

text \<open>\<^verbatim>\<open>patchLabels\<close> updates the node it is given in place: to the labels it asks for, and, when
  the server answers, to those of the answer.\<close>

definition patch_labels :: "('a, 'f) node_reconciler \<Rightarrow> labels \<Rightarrow> labels \<Rightarrow> (('a, 'f) rworld, labels \<times> err option) state" where
  "patch_labels nr node want = (case apply_status_labels node want of (labels, changed) \<Rightarrow>
     if \<not> changed then State_Monad.return (node, None)
     else do {
       s \<leftarrow> State_Monad.get;
       (case cl_patch (nr_client nr) (nr_node nr) node labels (rw_server s) of (r, sv) \<Rightarrow> do {
          State_Monad.set (s\<lparr>rw_server := sv, rw_sent := rw_sent s @ [(node, labels)]\<rparr>);
          State_Monad.return (case r of
            Inl e \<Rightarrow> (labels, Some (Wrap ErrNode (Some e) ''patching the sync-status labels''))
          | Inr got \<Rightarrow> (got, None)) }) })"

subsection \<open>One resource\<close>

definition adopt_seeded :: "('a, 'f) node_reconciler \<Rightarrow> image_cache \<Rightarrow> cache_record \<Rightarrow> (('a, 'f) rworld, bool res) state" where
  "adopt_seeded nr ic rec = do {
     i \<leftarrow> on_disk (pl_resolve (nr_puller nr) (ic_source ic));
     case i of
       Inl e \<Rightarrow> State_Monad.return (Inl (Wrap ErrSync (Some e) ''resolving the image a seeded directory is checked against''))
     | Inr img \<Rightarrow>
         if rec_layers rec = [] \<or> rec_layers rec \<noteq> id_layers img then State_Monad.return (Inr False)
         else do {
           x \<leftarrow> on_disk (adopt (nr_cache_path nr) (ic_name ic));
           case x of
             Some e \<Rightarrow> State_Monad.return (Inl (Wrap ErrSync (Some e) []))
           | None \<Rightarrow> do { eventf ic Adopted; State_Monad.return (Inr True) } }
   }"

definition sync :: "('a, 'f) node_reconciler \<Rightarrow> image_cache \<Rightarrow> (('a, 'f) rworld, err option) state" where
  "sync nr ic = do {
     c \<leftarrow> on_disk (check_cache_path (nr_cache_path nr));
     case c of
       Some e \<Rightarrow> do {
         eventf ic CachePathUnavailable;
         State_Monad.return (Some (Wrap ErrSync (Some e) [])) }
     | None \<Rightarrow> do {
         (x, _) \<leftarrow> on_disk (fill (nr_store nr) (nr_puller nr) (nr_cache_path nr) (ic_name ic) (ic_source ic) owner_agent True);
         State_Monad.return x }
   }"

definition sync_one :: "('a, 'f) node_reconciler \<Rightarrow> image_cache \<Rightarrow> plan \<Rightarrow> (('a, 'f) rworld, plan) state" where
  "sync_one nr ic p = do {
     x \<leftarrow> sync nr ic;
     case x of
       Some e \<Rightarrow> do { eventf ic SyncFailed; State_Monad.return (add_err e p) }
     | None \<Rightarrow> State_Monad.return (set_want (ic_name ic) status_synced p)
   }"

definition converge_one :: "('a, 'f) node_reconciler \<Rightarrow> image_cache \<Rightarrow> plan \<Rightarrow> (('a, 'f) rworld, plan) state" where
  "converge_one nr ic p =
     (if map_get (pn_want p) (ic_name ic) = status_synced \<or> ic_name ic \<in> set (pn_unread p) then State_Monad.return p
      else (case map_of (pn_seeded p) (ic_name ic) of
          None \<Rightarrow> sync_one nr ic p
        | Some rec \<Rightarrow> do {
            a \<leftarrow> adopt_seeded nr ic rec;
            case a of
              Inl e \<Rightarrow> do { eventf ic AdoptFailed; State_Monad.return (add_err e p) }
            | Inr adopted \<Rightarrow>
                if adopted then State_Monad.return (set_want (ic_name ic) status_synced p)
                else sync_one nr ic p }))"

fun converge :: "('a, 'f) node_reconciler \<Rightarrow> image_cache list \<Rightarrow> plan \<Rightarrow> (('a, 'f) rworld, plan) state" where
  "converge nr [] p = State_Monad.return p"
| "converge nr (ic # ics) p = do { p' \<leftarrow> converge_one nr ic p; converge nr ics p' }"

subsection \<open>The pass\<close>

definition set_watches :: "('a, 'f) node_reconciler \<Rightarrow> (('a, 'f) rworld, unit) state" where
  "set_watches nr = do {
     s \<leftarrow> State_Monad.get;
     case rw_fs s of
       None \<Rightarrow> State_Monad.return ()
     | Some f \<Rightarrow> do {
         f' \<leftarrow> on_disk (set_paths (nr_notify nr) [nr_cache_path nr] f);
         s \<leftarrow> State_Monad.get;
         State_Monad.set (s\<lparr>rw_fs := Some f'\<rparr>) }
   }"

text \<open>From the resources that select the node to the end of the pass; \<open>node\<close> is the labels as read.
  The result is the error, or after how long the next pass is due.\<close>

definition run_pass :: "('a, 'f) node_reconciler \<Rightarrow> labels \<Rightarrow> image_cache list \<Rightarrow> (('a, 'f) rworld, int res) state" where
  "run_pass nr node desired = do {
     p1 \<leftarrow> on_disk (survey (nr_cache_path nr) desired empty_plan);
     (node1, e1) \<leftarrow> patch_labels nr node (pn_want p1);
     p2 \<leftarrow> converge nr desired (add_err_opt e1 p1);
     (_, e2) \<leftarrow> on_disk (gc (nr_cache_path nr) (\<lambda>n. n \<in> set (pn_keep p2)));
     (_, e3) \<leftarrow> patch_labels nr node1 (pn_want p2);
     set_watches nr;
     State_Monad.return (case new_aggregate (map Some (pn_errs p2) @ [e2, e3]) of
       Some e \<Rightarrow> Inl e
     | None \<Rightarrow> Inr (nr_resync nr))
   }"

definition reconcile :: "('a, 'f) node_reconciler \<Rightarrow> (('a, 'f) rworld, int res) state" where
  "reconcile nr = do {
     s \<leftarrow> State_Monad.get;
     case cl_get (nr_client nr) (nr_node nr) (rw_server s) of
       Inl e \<Rightarrow> State_Monad.return (Inl (Wrap ErrNode (Some e) ''getting the node''))
     | Inr node \<Rightarrow> (case cl_list (nr_client nr) (rw_server s) of
         Inl e \<Rightarrow> State_Monad.return (Inl (Wrap ErrResources (Some e) []))
       | Inr items \<Rightarrow> run_pass nr node (filter (\<lambda>ic. matches (ic_selector ic) node) items))
   }"

end
