(* ===== verification/StateSound.thy ===== *)
theory StateSound
  imports StateSpec
begin

section \<open>Complete is never claimed in error\<close>

text \<open>
  \<open>StateSpec\<close> says what \<^verbatim>\<open>State\<close> answers when no call fails. Here any call may fail, in
  any way: an answer \<^verbatim>\<open>Complete\<close> is still the truth about the tree, and the memory of
  digests stays truthful.
\<close>

lemma check_sizes_sound:
  "wp (check_sizes dir fs) (\<lambda>x w'. looks w w' \<and> (\<forall>infos. x = Inr infos \<longrightarrow> list_all2 (size_intact (root w) dir) fs infos)) w"
proof (induction fs arbitrary: w)
  case Nil
  then show ?case by (simp add: wp_rules look.step_refl)
next
  case (Cons f fs)
  have IH: "wp (check_sizes dir fs) (\<lambda>x w'. looks w w' \<and> (\<forall>infos. x = Inr infos \<longrightarrow> list_all2 (size_intact (root w) dir) fs infos)) (tock w)"
    by (rule wp_mono [OF Cons.IH]) (auto intro: look.step_trans [OF looks_tock])
  show ?case
    by (auto simp: wp_rules wp_stat look.step_refl storable_iff_plain split: option.split sum.split node.split intro!: wp_mono [OF IH])
      (auto simp: size_intact_def split: sum.splits)
qed

text \<open>The check, over what a build's \<^verbatim>\<open>digest\<close> promises while some \<open>I\<close> holds.\<close>

lemma check_digests_law:
  assumes dg: "\<And>p g w. stat_in (root w) p = Inr (Reg g) \<Longrightarrow> I w \<Longrightarrow> strict_prefix d p \<Longrightarrow>
       wp (digest_by kf p (Reg g)) (\<lambda>x w'. (\<forall>y. x = Inr y \<longrightarrow> y = sum_of (fdata g)) \<and> I w' \<and> tends w w') w"
  shows "clean_path dir \<Longrightarrow> prefix d dir \<Longrightarrow> I w \<Longrightarrow> list_all2 (size_intact (root w) dir) fs infos \<Longrightarrow>
   wp (check_digests_by kf dir (zip fs infos)) (\<lambda>x w'. I w' \<and> tends w w' \<and>
      (x = None \<longrightarrow> list_all (file_intact (root w) dir) fs)) w"
proof (induction fs infos arbitrary: w rule: list_induct2')
  case 1
  then show ?case by (simp add: wp_rules td.step_refl)
next
  case (4 f fs n infos)
  then obtain g where n: "n = Reg g" "plain (fr_name f)" "stat_in (root w) (join dir (fr_name f)) = Inr (Reg g)"
    "file_size g = fr_size f" by (auto simp: size_intact_def)
  have p: "strict_prefix d (join dir (fr_name f))"
    using 4(2,3) n(2) by (auto simp: join_plain strict_prefix_def prefix_def)
  have i: "file_intact (root w) dir f = (sum_of (fdata g) = fr_digest f)"
    using n by (auto simp: file_intact_def)
  show ?case
    unfolding zip_Cons_Cons check_digests_by.simps wp_bind n(1)
  proof (rule wp_mono [OF dg [OF n(3) 4(4) p]], goal_cases)
    case (1 x w1)
    then have t: "I w1" and td: "tends w w1" and r: "root w1 = root w" by (auto simp: tends_def)
    show ?case
    proof (cases "x = Inr (fr_digest f)")
      case True
      have "wp (check_digests_by kf dir (zip fs infos)) (\<lambda>x w'. I w' \<and> tends w1 w' \<and>
          (x = None \<longrightarrow> list_all (file_intact (root w1) dir) fs)) w1"
        by (rule 4(1)) (use 4(2,3,5) r t in auto)
      with True 1 show ?thesis
        by (auto simp: r i elim!: wp_mono intro: td.step_trans [OF td])
    next
      case False
      with t td show ?thesis by (auto simp: wp_rules split: sum.split)
    qed
  qed
qed auto

lemma mismatch_law:
  assumes "clean_path dir" "prefix d dir" "I w"
    and look: "\<And>w w'. looks w w' \<Longrightarrow> I w \<Longrightarrow> I w'"
    and dg: "\<And>p g w. stat_in (root w) p = Inr (Reg g) \<Longrightarrow> I w \<Longrightarrow> strict_prefix d p \<Longrightarrow>
       wp (digest_by kf p (Reg g)) (\<lambda>x w'. (\<forall>y. x = Inr y \<longrightarrow> y = sum_of (fdata g)) \<and> I w' \<and> tends w w') w"
  shows "wp (mismatch_by kf dir fs) (\<lambda>x w'. I w' \<and> tends w w' \<and> (x = None \<longrightarrow> list_all (file_intact (root w) dir) fs)) w"
  unfolding mismatch_by_def wp_bind
proof (rule wp_mono [OF check_sizes_sound], goal_cases)
  case (1 x w1)
  then have l: "looks w w1" by simp
  then have w1: "root w1 = root w" "I w1" "tends w w1"
    using look [OF l assms(3)] by (simp_all add: looks_def tends_def)
  show ?case
  proof (cases x)
    case (Inl why)
    then show ?thesis using w1 by (simp add: wp_rules)
  next
    case (Inr infos)
    with 1 w1 have "list_all2 (size_intact (root w1) dir) fs infos" by simp
    from check_digests_law [OF dg assms(1,2) w1(2) this] show ?thesis
      unfolding Inr sum.case w1(1) by (rule wp_mono) (auto intro: td.step_trans [OF w1(3)])
  qed
qed

text \<open>With keys, the promise rests on a truthful memory.\<close>

context file_keys begin

lemma digest_sound:
  assumes "stat_in (root w) p = Inr (Reg g)" "truthful_under d w" "strict_prefix d p"
  shows "wp (digest_by kf p (Reg g)) (\<lambda>x w'. (\<forall>y. x = Inr y \<longrightarrow> y = sum_of (fdata g)) \<and> truthful_under d w' \<and> tends w w') w"
proof -
  have "wp (digest_by kf p (Reg g)) (\<lambda>x w'. (\<forall>y. x = Inr y \<longrightarrow> y = sum_of (fdata g)) \<and> truthful_under d w') w"
  proof (cases "case memory w of None \<Rightarrow> None | Some c \<Rightarrow> remembered_by kf c p (Reg g)")
    case None
    from digest_read [OF assms(1,2) None] show ?thesis by (rule wp_mono) auto
  next
    case (Some x)
    then obtain c e where c: "memory w = Some c" "sentries c p = Some e" "trusted (sracy c) e (key_of_file g)" "x = edigest e"
      by (auto simp: remembered_by_def dest!: kf_key split: option.splits if_splits)
    then have "x = sum_of (fdata g)"
      using truthful_underD [OF assms(2)] assms(1,3) by blast
    then show ?thesis using Some assms(2) by (simp add: digest_by_def wp_rules)
  qed
  then show ?thesis by (simp add: wp_conj td.along_wp [OF along_tends_digest] flip: conj_assoc)
qed

lemma mismatch_sound:
  assumes "clean_path dir" "prefix d dir" "truthful_under d w"
  shows "wp (mismatch_by kf dir fs) (\<lambda>x w'. truthful_under d w' \<and> tends w w' \<and> (x = None \<longrightarrow> list_all (file_intact (root w) dir) fs)) w"
  using assms looks_truthful digest_sound by (rule mismatch_law)

end

text \<open>Without keys it rests on nothing: every file is read, whatever the memory says, and nothing is
  remembered.\<close>

lemma digest_elsewhere:
  assumes "stat_in (root w) p = Inr (Reg g)" "map_option sentries (memory w) = m"
  shows "wp (digest_by keyed_other p (Reg g)) (\<lambda>x w'. (\<forall>y. x = Inr y \<longrightarrow> y = sum_of (fdata g))
     \<and> map_option sentries (memory w') = m \<and> tends w w') w"
proof -
  have n: "remembered_by keyed_other c p info = None" "keyed_other info = None" for c info
    by (simp_all add: remembered_by_def keyed_other_def key_of_other_def)
  have "wp (digest_by keyed_other p (Reg g)) (\<lambda>x w'. (\<forall>y. x = Inr y \<longrightarrow> y = sum_of (fdata g))
     \<and> map_option sentries (memory w') = m) w"
  proof (cases "faults w (tick w)")
    case (Some ft)
    then show ?thesis using assms(2) by (auto simp: digest_by_def n wp_rules wp_open_file Let_def split: option.split)
  next
    case None
    have "stat_in (root (tock w)) p = Inr (Reg g)" using assms(1) by simp
    from sum_file_spec [OF this]
    have "wp (sum_file p) (\<lambda>x w'. memory w' = memory w \<and> (\<forall>y. x = Inr y \<longrightarrow> y = sum_of (fdata g))) (tock w)"
      by (rule wp_mono) (simp add: looks_def)
    then show ?thesis
      using None assms
      by (auto simp: digest_by_def n wp_rules wp_open_file wp_modify wp_close Let_def option.map_comp comp_def
          elim!: wp_mono split: option.split sum.split)
  qed
  then show ?thesis by (simp add: wp_conj td.along_wp [OF along_tends_digest] flip: conj_assoc)
qed

lemma mismatch_elsewhere:
  assumes "clean_path dir"
  shows "wp (mismatch_by keyed_other dir fs) (\<lambda>x w'. map_option sentries (memory w') = map_option sentries (memory w) \<and> tends w w'
     \<and> (x = None \<longrightarrow> list_all (file_intact (root w) dir) fs)) w"
  by (rule mismatch_law [where d = dir]) (auto simp: assms looks_def intro: digest_elsewhere)

lemma check_names_sound:
  "wp (check_names dir fs) (\<lambda>x w'. looks w w' \<and> (x = Complete \<longrightarrow> list_all (\<lambda>f. present (root w) (join dir f)) fs)) w"
proof (induction fs arbitrary: w)
  case Nil
  then show ?case by (simp add: wp_rules look.step_refl)
next
  case (Cons f fs)
  have IH: "wp (check_names dir fs) (\<lambda>x w'. looks w w' \<and> (x = Complete \<longrightarrow> list_all (\<lambda>f. present (root w) (join dir f)) fs)) (tock w)"
    by (rule wp_mono [OF Cons.IH]) (auto intro: look.step_trans [OF looks_tock])
  show ?case
    by (auto simp: wp_rules wp_stat split: option.split sum.split intro!: wp_mono [OF IH]) (simp add: present_def)
qed

lemma state_of_sentinel_sound:
  assumes "clean_path dir" "prefix d dir" "truthful_under d w"
  shows "wp (state_of_sentinel dir sn) (\<lambda>x w'. tends w w' \<and> truthful_under d w' \<and>
     (fst x = Complete \<longrightarrow> x = (sentinel_state (memory w \<noteq> None) (root w) dir sn, None))) w"
proof (cases "memory w \<noteq> None \<and> rec_content (sn_record sn) \<noteq> []")
  case True
  have "wp (mismatch dir (rec_content (sn_record sn))) (\<lambda>m. wp ctx_err (\<lambda>c. wp (State_Monad.return (case c of
         Some e \<Rightarrow> (Absent, Some (Wrap ErrState (Some e) []))
       | None \<Rightarrow> (if m \<noteq> None then Incomplete else Complete, None))) (\<lambda>x w'. tends w w' \<and> truthful_under d w' \<and>
     (fst x = Complete \<longrightarrow> x = (sentinel_state (memory w \<noteq> None) (root w) dir sn, None))))) w"
    by (rule wp_mono [OF linux.mismatch_sound [OF assms]])
      (use True in \<open>auto simp: wp_rules sentinel_state_def intro: td.step_trans [OF _ looks_tends [OF looks_tock]] looks_truthful [OF looks_tock]\<close>)
  then show ?thesis using True by (simp add: state_of_sentinel_def wp_rules wp_bind_eq)
next
  case False
  have "wp (check_names dir (list_of (sn_files sn))) (\<lambda>s. wp (State_Monad.return (s, None)) (\<lambda>x w'. tends w w' \<and> truthful_under d w' \<and>
     (fst x = Complete \<longrightarrow> x = (sentinel_state (memory w \<noteq> None) (root w) dir sn, None)))) w"
    by (rule wp_mono [OF check_names_sound])
      (use False in \<open>auto simp: wp_rules looks_tends sentinel_state_def intro: looks_truthful [OF _ assms(3)]\<close>)
  then show ?thesis
    using False by (simp add: state_of_sentinel_def wp_rules wp_bind_eq if_not_P)
qed

lemma state_of_sound:
  assumes "clean_path cp" "prefix d (store_dir cp name)" "truthful_under d w"
  shows "wp (state_of cp name) (\<lambda>x w'. tends w w' \<and> truthful_under d w' \<and>
     (fst x = Complete \<longrightarrow> x = expected_state (memory w \<noteq> None) (root w) cp name)) w"
proof -
  let ?dir = "store_dir cp name"
  have c: "clean_path ?dir" using assms(1) by (simp add: store_dir_def clean_path_join)
  have t: "tends w (tock w)" "truthful_under d (tock w)" "tends w (tock (tock w))" "truthful_under d (tock (tock w))"
    using assms(3) by (auto simp: truthful_under_def tends_def intro: env.step_trans [OF same_env_tock same_env_tock])
  have "wp (state_of_sentinel ?dir sn) (\<lambda>x w'. tends w w' \<and> truthful_under d w' \<and>
     (fst x = Complete \<longrightarrow> x = expected_state (memory w \<noteq> None) (root w) cp name)) (tock w)"
    if "read_in (root w) (join ?dir sentinel_name) = Inr t" "unmarshal t = Some sn" for t sn
    by (rule wp_mono [OF state_of_sentinel_sound [OF c assms(2) t(2), of sn]])
      (use that in \<open>auto simp: expected_state_def intro: td.step_trans [OF t(1)]\<close>)
  then show ?thesis
    using t by (auto simp: state_of_def wp_rules wp_read_file wp_stat split: sum.split option.split)
qed

subsection \<open>Property\<close>

text \<open>C35: Whatever call fails, State answers Complete only when the reference comparison of the tree with
  the sentinel does: a failing disk makes a directory look incomplete, or is an error, but never
  complete; and the memory of digests stays truthful about every directory.\<close>

theorem complete_is_true:
  assumes "clean_path cp" "prefix d (store_dir cp name)" "truthful_under d w"
    and "run_state (state_of cp name) w = ((Complete, e), w')"
  shows "expected_state (memory w \<noteq> None) (root w) cp name = (Complete, None) \<and> e = None \<and> truthful_under d w'"
proof -
  have x: "(Complete, e) = expected_state (memory w \<noteq> None) (root w) cp name" "truthful_under d w'"
    using wpD [OF state_of_sound [OF assms(1-3)] assms(4)] by simp_all
  moreover have "snd (expected_state b r cp name) = None" if "fst (expected_state b r cp name) = Complete" for b r
    using that by (auto simp: expected_state_def split: sum.splits option.splits if_splits)
  ultimately show ?thesis by (metis fst_conv snd_conv)
qed

theorem complete_is_true_witness:
  "\<exists>w :: sworld. expected_state False (root w) [''cache''] ''boot'' = (Complete, None)"
proof -
  obtain w where run: "run_state (store_extract no_hook [''cache''] ''boot'' agent_record
      [tar_file ''images/a.tar'' ''abc''] Eof) (cache_world [] None) = (None, w)"
    using sample_extract [OF whole_sample] by blast
  have m: "memory w = None"
    using alongD [OF along_kind_extract run] by (simp add: same_kind_def)
  have "fst (run_state (state_of [''cache''] ''boot'') w) = (Complete, None)"
    using extract_reads_back [OF _ _ _ _ _ sample_valid run] by (simp add: plain_def)
  then obtain w' where "run_state (state_of [''cache''] ''boot'') w = ((Complete, None), w')"
    by (cases "run_state (state_of [''cache''] ''boot'') w") auto
  from complete_is_true [OF _ _ truthful_no_memory [OF m] this, of "[]"] m show ?thesis by (auto simp: plain_def)
qed

end
