(* ===== verification/Pass.thy ===== *)
theory Pass
  imports Reconcile StateSound
begin

section \<open>What a reconcile pass does to the node\<close>

text \<open>
  The properties of \<^verbatim>\<open>Reconcile\<close> under any schedule of failing calls. \<open>pass_frame\<close> says what
  a pass, or a step of it, may have changed under the cache path; \<open>settled\<close> says on what ground a
  resource is labelled synced. The steps of a pass keep an invariant that relates the plan, the tree
  the pass started from and the tree it has reached.
\<close>

subsection \<open>Rules for the state of a pass\<close>

lemma wp_on_disk [wp_rules]: "wp (on_disk m) Q s = wp m (\<lambda>x w. Q x (s\<lparr>rw_disk := w\<rparr>)) (rw_disk s)"
  by (simp add: on_disk_def wp_rules) (simp add: wp_def wp_rules split: prod.split)

lemma wp_eventf [wp_rules]: "wp (eventf ic r) Q s = Q () (s\<lparr>rw_events := rw_events s @ [(ic_name ic, r)]\<rparr>)"
  by (simp add: eventf_def wp_rules)

lemma wp_patch_labels:
  "wp (patch_labels nr node want) Q s = (case apply_status_labels node want of (labels, changed) \<Rightarrow>
     if \<not> changed then Q (node, None) s
     else (case cl_patch (nr_client nr) (nr_node nr) node labels (rw_server s) of (r, sv) \<Rightarrow>
       Q (case r of Inl e \<Rightarrow> (labels, Some (Wrap ErrNode (Some e) ''patching the sync-status labels'')) | Inr got \<Rightarrow> (got, None))
         (s\<lparr>rw_server := sv, rw_sent := rw_sent s @ [(node, labels)]\<rparr>)))"
  by (simp add: patch_labels_def wp_rules split: prod.split)

subsection \<open>Frames\<close>

definition pass_frame :: "path \<Rightarrow> string set \<Rightarrow> node \<Rightarrow> node \<Rightarrow> bool" where
  "pass_frame cp D r r' \<longleftrightarrow> (dir_at r cp \<longrightarrow> dir_at r' cp)
     \<and> (\<forall>n. n \<notin> D \<longrightarrow> lookup r (cp @ [n]) \<noteq> None \<longrightarrow> lookup r' (cp @ [n]) = lookup r (cp @ [n]))
     \<and> (\<forall>n. n \<notin> D \<longrightarrow> lookup r (cp @ [n]) = None \<longrightarrow> lookup r' (cp @ [n]) = None \<or> (\<exists>m \<in> D. \<exists>k. n = temp_name m k))
     \<and> (\<forall>q. cp \<parallel> q \<longrightarrow> lookup r' q = lookup r q)"

interpretation pf: preorder_steps "pass_frame cp D" for cp D
proof
  show "pass_frame cp D r r" for r by (simp add: pass_frame_def)
  show "pass_frame cp D r s \<Longrightarrow> pass_frame cp D s t \<Longrightarrow> pass_frame cp D r t" for r s t
    unfolding pass_frame_def by (intro conjI allI impI) (simp_all, metis)
qed

lemma pass_frame_mono: "pass_frame cp D r r' \<Longrightarrow> D \<subseteq> E \<Longrightarrow> pass_frame cp E r r'"
  unfolding pass_frame_def by blast

lemma temp_name_temporary [simp]: "is_temporary (temp_name n k)"
proof -
  have "sublist ''.tmp-'' (temp_name n k)"
    unfolding temp_name_def temp_prefix_def sublist_def by (rule exI [of _ "''.'' @ n"]) auto
  then show ?thesis by (simp add: is_temporary_def str_contains_iff_sublist temp_name_def temp_prefix_def)
qed

text \<open>What happens to one resource does not reach another one.\<close>

lemma pass_frame_other:
  "pass_frame cp {n} r r' \<Longrightarrow> m \<noteq> n \<Longrightarrow> \<not> is_temporary m \<Longrightarrow> lookup r' (cp @ [m]) = lookup r (cp @ [m])"
  unfolding pass_frame_def by (metis singletonD temp_name_temporary)

lemma elsewhere_frame: "elsewhere cp {n} r r' \<Longrightarrow> pass_frame cp {n} r r'"
  by (auto simp: elsewhere_def pass_frame_def)

lemma spared_frame:
  assumes "spared cp n owner r r'"
  shows "pass_frame cp {n} r r'"
proof -
  obtain k where k: "elsewhere cp {n, temp_name n k} r r'"
    "lookup r (cp @ [temp_name n k]) = None \<or> elsewhere cp {n} r r'" using assms by (auto simp: spared_def)
  show ?thesis
  proof (cases "elsewhere cp {n} r r'")
    case True
    then show ?thesis by (rule elsewhere_frame)
  next
    case False
    with k have "lookup r (cp @ [temp_name n k]) = None" by simp
    with k(1) show ?thesis unfolding pass_frame_def elsewhere_def by (metis insertE singletonD singletonI)
  qed
qed

text \<open>A change inside one entry of the cache path.\<close>

lemma entry_frame:
  assumes "elsewhere (cp @ [n]) N r r'" "dir_at r (cp @ [n])"
  shows "pass_frame cp {n} r r'"
proof -
  have "dir_at r' cp" using assms dir_at_prefix by (auto simp: elsewhere_def)
  moreover have "lookup r' (cp @ [m]) = lookup r (cp @ [m])" if "m \<noteq> n" for m
    using assms(1) that by (simp add: elsewhere_def parallel_def)
  moreover have "lookup r' q = lookup r q" if "cp \<parallel> q" for q
    using assms(1) that parallel_append [of cp q "[n]" "[]"] by (simp add: elsewhere_def)
  ultimately show ?thesis by (simp add: pass_frame_def)
qed

lemma partly_removed_entry:
  "map_of (case partly_removed (Dir i es) keeps of Dir j fs \<Rightarrow> fs | _ \<Rightarrow> []) c =
     (if keeps [c] then map_option (\<lambda>m. partly_removed m (\<lambda>p. keeps (c # p))) (map_of es c) else None)"
  by (induction es) (auto simp: map_prod_def)

lemma own_sentinel_leaves:
  assumes "own_sentinel n v" "leaves (Some v) (Some v')"
  shows "own_sentinel n v'"
proof (cases "v' = v")
  case False
  then obtain keeps where v': "v' = partly_removed v keeps" using assms(2) by (auto simp: leaves_def)
  show ?thesis
  proof (cases v)
    case (Dir i es)
    have "map_of (case v' of Dir j fs \<Rightarrow> fs | _ \<Rightarrow> []) sentinel_name \<noteq> Some (Link l)" if "map_of es sentinel_name \<noteq> Some (Link l)" for l
    proof
      assume "map_of (case v' of Dir j fs \<Rightarrow> fs | _ \<Rightarrow> []) sentinel_name = Some (Link l)"
      then obtain m where "map_of es sentinel_name = Some m" "partly_removed m (\<lambda>p. keeps (sentinel_name # p)) = Link l"
        unfolding v' Dir partly_removed_entry by (auto split: if_splits)
      with that show False by (cases m) auto
    qed
    with assms(1) Dir v' show ?thesis by (auto simp: own_sentinel_def)
  qed (use assms v' in auto)
qed (use assms in simp)

subsection \<open>Why a resource is synced\<close>

text \<open>The sentinel a name leads to, and a directory found complete with it.\<close>

definition recorded :: "node \<Rightarrow> path \<Rightarrow> string \<Rightarrow> sentinel option" where
  "recorded r cp n = (case read_in r (join (store_dir cp n) sentinel_name) of Inl e \<Rightarrow> None | Inr t \<Rightarrow> unmarshal t)"

definition found_complete :: "bool \<Rightarrow> node \<Rightarrow> path \<Rightarrow> string \<Rightarrow> sentinel \<Rightarrow> bool" where
  "found_complete checks r cp n sn \<longleftrightarrow> expected_state checks r cp n = (Complete, None) \<and> recorded r cp n = Some sn"

text \<open>Nothing in the way: no link at the name or at the sentinel, no directory where an adoption writes.\<close>

definition tidy :: "node option \<Rightarrow> bool" where
  "tidy v \<longleftrightarrow> direct v \<and> (case v of
     Some (Dir i es) \<Rightarrow> (case map_of es tmp_sentinel of None \<Rightarrow> True | Some n \<Rightarrow> is_regular n)
   | _ \<Rightarrow> True)"

definition kept_from :: "bool \<Rightarrow> path \<Rightarrow> node \<Rightarrow> image_cache \<Rightarrow> node \<Rightarrow> bool" where
  "kept_from checks cp r0 ic r \<longleftrightarrow> (\<exists>sn. found_complete checks r0 cp (ic_name ic) sn \<and> rec_owner (sn_record sn) = owner_agent)
     \<and> lookup r (cp @ [ic_name ic]) = lookup r0 (cp @ [ic_name ic])"

definition adopted_from :: "puller \<Rightarrow> bool \<Rightarrow> path \<Rightarrow> node \<Rightarrow> image_cache \<Rightarrow> node \<Rightarrow> bool" where
  "adopted_from pl checks cp r0 ic r \<longleftrightarrow> (\<exists>sn img w w' i es es' g'.
     found_complete checks r0 cp (ic_name ic) sn \<and> rec_owner (sn_record sn) \<noteq> owner_agent
     \<and> run_state (pl_resolve pl (ic_source ic)) w = (Inr img, w') \<and> id_layers img = rec_layers (sn_record sn) \<and> id_layers img \<noteq> []
     \<and> lookup r0 (cp @ [ic_name ic]) = Some (Dir i es) \<and> lookup r (cp @ [ic_name ic]) = Some (Dir i es')
     \<and> (\<forall>c. c \<noteq> sentinel_name \<longrightarrow> c \<noteq> tmp_sentinel \<longrightarrow> map_of es' c = map_of es c) \<and> map_of es' tmp_sentinel = None
     \<and> map_of es' sentinel_name = Some (Reg g') \<and> fdata g' = marshal (set_owner owner_agent sn))"

definition filled_from :: "puller \<Rightarrow> path \<Rightarrow> image_cache \<Rightarrow> node \<Rightarrow> bool" where
  "filled_from pl cp ic r \<longleftrightarrow> (\<exists>p i. gives pl (ic_source ic) p i \<and> whole (pd_entries p) (pd_end p)
     \<and> holds_image r cp (ic_name ic) (fill_record owner_agent (ic_source ic) i) (pd_entries p))"

definition settled :: "puller \<Rightarrow> bool \<Rightarrow> path \<Rightarrow> node \<Rightarrow> image_cache \<Rightarrow> node \<Rightarrow> bool" where
  "settled pl checks cp r0 ic r \<longleftrightarrow> kept_from checks cp r0 ic r \<or> adopted_from pl checks cp r0 ic r \<or> filled_from pl cp ic r"

text \<open>Each of the three depends on nothing but the entry.\<close>

lemma settled_cong:
  assumes "settled pl checks cp r0 ic r" "lookup r' (cp @ [ic_name ic]) = lookup r (cp @ [ic_name ic])" "dir_at r cp" "dir_at r' cp"
  shows "settled pl checks cp r0 ic r'"
  using assms
  by (auto simp: settled_def kept_from_def adopted_from_def filled_from_def holds_image_def lookup_entry)

lemma found_complete_dir:
  assumes "found_complete checks r cp n sn" "dir_at r cp" "clean_path cp" "plain n" "tidy (lookup r (cp @ [n]))"
  shows "\<exists>i es g. lookup r (cp @ [n]) = Some (Dir i es) \<and> map_of es sentinel_name = Some (Reg g) \<and> unmarshal (fdata g) = Some sn"
proof -
  have e: "map_of (entries_at r cp) n = lookup r (cp @ [n])" using assms(2) by (simp add: lookup_entry)
  have s: "stat_in r (cp @ [n, sentinel_name]) = (case lookup r (cp @ [n]) of
      None \<Rightarrow> Inl (Sys ENOENT)
    | Some (Dir k fs) \<Rightarrow> (case map_of fs sentinel_name of None \<Rightarrow> Inl (Sys ENOENT) | Some n \<Rightarrow> Inr n)
    | Some _ \<Rightarrow> Inl (Sys ENOTDIR))"
    using stat_sentinel_at [OF assms(2-4)] assms(5) by (simp add: e tidy_def)
  have j: "join (store_dir cp n) sentinel_name = cp @ [n, sentinel_name]"
    using assms(3,4) by (simp add: store_dir_def join_plain)
  from assms(1) obtain t where t: "read_in r (cp @ [n, sentinel_name]) = Inr t" "unmarshal t = Some sn"
    by (auto simp: found_complete_def recorded_def j split: sum.splits)
  then obtain g where g: "stat_in r (cp @ [n, sentinel_name]) = Inr (Reg g)" "t = fdata g"
    by (auto simp: read_in_def split: sum.splits node.splits)
  with s t(2) show ?thesis by (auto split: option.splits node.splits)
qed

subsection \<open>One resource\<close>

text \<open>What a step on the resource \<open>n\<close> keeps of the state of a pass.\<close>

definition own_at :: "path \<Rightarrow> string \<Rightarrow> node \<Rightarrow> bool" where
  "own_at cp n r = (case lookup r (cp @ [n]) of None \<Rightarrow> True | Some v \<Rightarrow> own_sentinel n v)"

definition step_on :: "path \<Rightarrow> string set \<Rightarrow> ('a, 'f) rworld \<Rightarrow> ('a, 'f) rworld \<Rightarrow> bool" where
  "step_on cp D s s' \<longleftrightarrow> same_env (rw_disk s) (rw_disk s') \<and> locks (rw_disk s') \<subseteq> locks (rw_disk s)
     \<and> pass_frame cp D (root (rw_disk s)) (root (rw_disk s'))
     \<and> (\<forall>n \<in> D. own_at cp n (root (rw_disk s)) \<longrightarrow> own_at cp n (root (rw_disk s')))
     \<and> rw_server s' = rw_server s \<and> rw_sent s' = rw_sent s \<and> rw_fs s' = rw_fs s"

interpretation so: preorder_steps "step_on cp D" for cp D
  by unfold_locales (auto simp: step_on_def env.step_refl pf.step_refl intro: env.step_trans pf.step_trans)

lemma step_on_event [simp]: "step_on cp D s (s'\<lparr>rw_events := es\<rparr>) = step_on cp D s s'"
  by (simp add: step_on_def)

lemma step_on_looks: "looks (rw_disk s) w \<Longrightarrow> step_on cp D s (s\<lparr>rw_disk := w\<rparr>)"
  by (simp add: step_on_def looks_def pf.step_refl)

lemma own_at_filled: "holds_image r cp n rec ens \<Longrightarrow> own_at cp n r"
proof -
  assume h: "holds_image r cp n rec ens"
  then obtain i es where e: "lookup r (cp @ [n]) = Some (Dir i es)" "published rec ens es" "dir_at r cp"
    by (auto simp: holds_image_def lookup_entry)
  have "\<not> is_link m" if "stored fs es" "map_of es c = Some m" for fs es c and m
    using that by (induction fs arbitrary: es) (auto split: if_splits)
  with e(2) have "map_of es sentinel_name \<noteq> Some (Link l)" for l
    unfolding published_def by (metis is_link.simps(1))
  with e(1) show ?thesis by (simp add: own_at_def own_sentinel_def)
qed

lemma fill_step:
  assumes "fill_outcome pl cp n source owner True w (x, heard) w'" and d: "dir_at (root w) cp"
  shows "same_env w w' \<and> locks w' \<subseteq> locks w \<and> pass_frame cp {n} (root w) (root w') \<and> (own_at cp n (root w) \<longrightarrow> own_at cp n (root w'))"
proof (cases x)
  case None
  with assms show ?thesis by (auto simp: fill_outcome_def elsewhere_frame own_at_filled)
next
  case (Some e)
  with assms have s: "spared cp n owner (root w) (root w')" by (auto simp: fill_outcome_def)
  then have l: "leaves (lookup (root w) (cp @ [n])) (lookup (root w') (cp @ [n]))" by (simp add: spared_def)
  have "own_at cp n (root w')" if "own_at cp n (root w)"
  proof (cases "lookup (root w') (cp @ [n])")
    case (Some v')
    moreover from this l obtain v where v: "lookup (root w) (cp @ [n]) = Some v" by (cases "lookup (root w) (cp @ [n])") (auto simp: leaves_def)
    ultimately show ?thesis using that l own_sentinel_leaves by (simp add: own_at_def)
  qed (simp add: own_at_def)
  with Some assms s show ?thesis by (auto simp: fill_outcome_def spared_frame)
qed

lemma sync_spec:
  assumes src: "image_source (nr_puller nr)" and cp: "cp = nr_cache_path nr" and n: "n = ic_name ic"
    and d: "dir_at (root (rw_disk s)) cp" "clean_path cp" "plain n" "honest (rw_disk s)" "before_lock (nr_store nr) = None"
  shows "wp (sync nr ic) (\<lambda>x s'. step_on cp {n} s s' \<and> (x = None \<longrightarrow> filled_from (nr_puller nr) cp ic (root (rw_disk s')))) s"
proof -
  let ?w = "rw_disk s"
  have c: "wp (check_cache_path cp) (\<lambda>x w. looks ?w w) ?w"
    by (auto simp: check_cache_path_def intro!: look.along_wp look.along_intros along_queries)
  show ?thesis
    unfolding sync_def wp_bind wp_on_disk cp [symmetric]
  proof (rule wp_mono [OF c], goal_cases)
    case (1 x w)
    note w = looks_facts [OF 1]
    show ?case
    proof (cases x)
      case (Some e)
      with 1 show ?thesis by (simp add: wp_rules step_on_looks)
    next
      case None
      have d': "dir_at (root w) cp" "honest w" using d w by simp_all
      have f: "wp (fill (nr_store nr) (nr_puller nr) cp n (ic_source ic) owner_agent True)
          (\<lambda>x w'. fill_outcome (nr_puller nr) cp n (ic_source ic) owner_agent True w x w') w"
        by (rule image_source.fill_spec [OF src d'(1) d(2,3) d'(2) d(5)])
      show ?thesis
        unfolding None option.case wp_bind wp_on_disk n [symmetric]
      proof (simp add: wp_case_prod wp_return, rule wp_mono [OF f], goal_cases)
        case (1 y w')
        obtain e heard where y: "y = (e, heard)" by (cases y)
        with 1 have o: "fill_outcome (nr_puller nr) cp n (ic_source ic) owner_agent True w (e, heard) w'" by simp
        from fill_step [OF o d'(1)] w have "step_on cp {n} s (s\<lparr>rw_disk := w'\<rparr>)"
          by (auto simp: step_on_def intro: env.step_trans)
        moreover have "filled_from (nr_puller nr) cp ic (root w')" if "e = None"
          using o that unfolding fill_outcome_def filled_from_def n by auto
        ultimately show ?case using y by simp
      qed
    qed
  qed
qed

lemma lookup_with_entries_self: "lookup r p = Some (Dir i fs) \<Longrightarrow> lookup (with_entries r p es) p = Some (Dir i es)"
  by (simp add: with_entries_def lookup_put_self dir_at_iff)

lemma adopt_step:
  assumes "dir_at (root w) cp" "clean_path cp" "plain n" "lookup (root w) (cp @ [n]) = Some (Dir i es)"
    and g: "map_of es sentinel_name = Some (Reg g)" "unmarshal (fdata g) = Some sn" and t: "tidy (Some (Dir i es))"
  shows "wp (adopt cp n) (\<lambda>x w'. same_env w w' \<and> locks w' = locks w \<and> pass_frame cp {n} (root w) (root w') \<and> own_at cp n (root w') \<and>
    (x = None \<longrightarrow> (\<exists>es' g'. lookup (root w') (cp @ [n]) = Some (Dir i es') \<and>
       (\<forall>c. c \<noteq> sentinel_name \<longrightarrow> c \<noteq> tmp_sentinel \<longrightarrow> map_of es' c = map_of es c) \<and> map_of es' tmp_sentinel = None \<and>
       map_of es' sentinel_name = Some (Reg g') \<and> fdata g' = marshal (set_owner owner_agent sn)))) w"
proof -
  have sd: "store_dir cp n = cp @ [n]" using assms(2,3) by (simp add: store_dir_def join_plain)
  have dd: "dir_at (root w) (cp @ [n])" "entries_at (root w) (cp @ [n]) = es"
    using assms(4) by (simp_all add: dir_at_def entries_at_def)
  have a: "adoptable (root w) (store_dir cp n) g"
    unfolding adoptable_def sd using dd assms(2,3) g t by (simp add: tidy_def)
  have frame: "pass_frame cp {n} (root w) (with_entries (root w) (cp @ [n]) (upd sentinel_name v (upd tmp_sentinel u es)))"
    "pass_frame cp {n} (root w) (with_entries (root w) (cp @ [n]) (upd tmp_sentinel u es))" for u v
    by (rule entry_frame [where N = "{sentinel_name, tmp_sentinel}", OF elsewhere_with_entries dd(1)], rule dd(1), simp add: dd(2))+
  have own: "own_at cp n (with_entries (root w) (cp @ [n]) es')" if "map_of es' sentinel_name = Some (Reg g')" for es' g'
    using that by (simp add: own_at_def own_sentinel_def lookup_with_entries_self [OF assms(4)])
  show ?thesis
  proof (rule wp_mono [OF adopt_in [OF a g(2)]], goal_cases)
    case (1 x w')
    then have q: "same_env w w'" "locks w' = locks w" by (simp_all add: quiet_def)
    show ?case
    proof (cases x)
      case None
      with 1 obtain g' where g': "fdata g' = marshal (set_owner owner_agent sn)"
        "root w' = with_entries (root w) (cp @ [n]) (upd sentinel_name (Some (Reg g')) (upd tmp_sentinel None es))"
        by (auto simp: sd dd(2) simp del: upd_simps)
      have "map_of (upd sentinel_name (Some (Reg g')) (upd tmp_sentinel None es)) sentinel_name = Some (Reg g')" by simp
      with g' q None frame(1) own show ?thesis
        by (auto simp: lookup_with_entries_self [OF assms(4)] simp del: upd_simps intro!: exI [of _ g'] exI [of _ "upd sentinel_name (Some (Reg g')) (upd tmp_sentinel None es)"])
    next
      case (Some e)
      with 1 obtain v where "root w' = with_entries (root w) (cp @ [n]) (upd tmp_sentinel v es)" by (auto simp: sd dd(2) simp del: upd_simps)
      moreover have "map_of (upd tmp_sentinel v es) sentinel_name = Some (Reg g)" using g(1) by simp
      ultimately show ?thesis using q Some frame(2) own by simp
    qed
  qed
qed

lemma adopt_seeded_spec:
  assumes src: "image_source (nr_puller nr)" and cp: "cp = nr_cache_path nr" and n: "n = ic_name ic"
    and d: "dir_at (root (rw_disk s)) cp" "clean_path cp" "plain n"
    and f: "found_complete checks r0 cp n sn" "dir_at r0 cp" "tidy (lookup r0 (cp @ [n]))" "rec_owner (sn_record sn) \<noteq> owner_agent"
    and l: "lookup (root (rw_disk s)) (cp @ [n]) = lookup r0 (cp @ [n])"
  shows "wp (adopt_seeded nr ic (sn_record sn)) (\<lambda>x s'. step_on cp {n} s s' \<and>
    (x = Inr True \<longrightarrow> adopted_from (nr_puller nr) checks cp r0 ic (root (rw_disk s'))) \<and>
    (x = Inr False \<longrightarrow> root (rw_disk s') = root (rw_disk s))) s"
proof -
  let ?w = "rw_disk s"
  obtain i es g where e: "lookup r0 (cp @ [n]) = Some (Dir i es)" "map_of es sentinel_name = Some (Reg g)" "unmarshal (fdata g) = Some sn"
    using found_complete_dir [OF f(1,2) d(2,3) f(3)] by blast
  show ?thesis
    unfolding adopt_seeded_def wp_bind wp_on_disk cp [symmetric] n [symmetric]
  proof (rule wpI)
    fix x w assume x: "run_state (pl_resolve (nr_puller nr) (ic_source ic)) ?w = (x, w)"
    have lw: "looks ?w w" by (rule alongD [OF image_source.resolve_looks [OF src] x])
    note w = looks_facts [OF lw]
    have s0: "step_on cp {n} s (s\<lparr>rw_disk := w\<rparr>)" by (rule step_on_looks [OF lw])
    show "wp (case x of
         Inl e \<Rightarrow> State_Monad.return (Inl (Wrap ErrSync (Some e) ''resolving the image a seeded directory is checked against''))
       | Inr img \<Rightarrow>
         if rec_layers (sn_record sn) = [] \<or> rec_layers (sn_record sn) \<noteq> id_layers img then State_Monad.return (Inr False)
         else do {
           x \<leftarrow> on_disk (adopt cp n);
           case x of
             Some e \<Rightarrow> State_Monad.return (Inl (Wrap ErrSync (Some e) []))
           | None \<Rightarrow> do { eventf ic Adopted; State_Monad.return (Inr True) } })
      (\<lambda>x s'. step_on cp {n} s s' \<and> (x = Inr True \<longrightarrow> adopted_from (nr_puller nr) checks cp r0 ic (root (rw_disk s'))) \<and>
         (x = Inr False \<longrightarrow> root (rw_disk s') = root ?w)) (s\<lparr>rw_disk := w\<rparr>)"
    proof (cases "\<exists>img. x = Inr img \<and> rec_layers (sn_record sn) \<noteq> [] \<and> rec_layers (sn_record sn) = id_layers img")
      case False
      then show ?thesis using s0 w by (auto simp: wp_rules split: sum.split)
    next
      case True
      then obtain img where img: "x = Inr img" "id_layers img \<noteq> []" "rec_layers (sn_record sn) = id_layers img" by auto
      have "dir_at (root w) cp" "lookup (root w) (cp @ [n]) = Some (Dir i es)" using w d(1) l e(1) by simp_all
      note a = adopt_step [OF this(1) d(2,3) this(2) e(2,3) f(3) [unfolded e(1)]]
      have nif: "\<not> (rec_layers (sn_record sn) = [] \<or> rec_layers (sn_record sn) \<noteq> id_layers img)" using img by simp
      have "wp (adopt cp n) (\<lambda>y w'. step_on cp {n} s (s\<lparr>rw_disk := w'\<rparr>) \<and> (y = None \<longrightarrow> adopted_from (nr_puller nr) checks cp r0 ic (root w'))) w"
      proof (rule wp_mono [OF a], goal_cases)
        case (1 y w')
        then have "step_on cp {n} s (s\<lparr>rw_disk := w'\<rparr>)" using w by (auto simp: step_on_def intro: env.step_trans)
        moreover have "adopted_from (nr_puller nr) checks cp r0 ic (root w')" if "y = None"
          using 1 that f(1,4) x img e(1) unfolding adopted_from_def n by metis
        ultimately show ?case by blast
      qed
      then show ?thesis
        unfolding img(1) sum.case if_not_P [OF nif]
        by (auto simp: wp_rules elim!: wp_mono split: option.split)
    qed
  qed
qed

subsection \<open>The survey\<close>

lemma along_kind_digest: "along same_kind (digest_by kf p info)"
  by (auto simp: digest_by_def Let_def intro!: kd.along_intros along_kind_modify along_kind_calls along_kind_quiet [OF along_looks_quiet [OF along_sum_file]])

lemma along_kind_check_sizes: "along same_kind (check_sizes dir fs)"
  by (induction fs) (auto intro!: kd.along_intros along_kind_calls split: node.split sum.split)

lemma along_kind_check_digests: "along same_kind (check_digests_by kf dir fs)"
  by (induction dir fs rule: check_digests_by.induct) (auto intro!: kd.along_intros along_kind_digest split: sum.split)

lemma along_kind_check_names: "along same_kind (check_names dir fs)"
  by (induction fs) (auto intro!: kd.along_intros along_kind_calls)

lemma along_kind_state_of: "along same_kind (state_of cp name)"
  by (auto simp: state_of_def state_of_sentinel_def mismatch_by_def Let_def
      intro!: kd.along_intros along_kind_calls along_kind_check_sizes along_kind_check_digests along_kind_check_names)

lemma read_record_sound:
  "wp (read_record cp n) (\<lambda>x w'. looks w w' \<and> (\<forall>rec. x = Inr rec \<longrightarrow> (\<exists>sn. recorded (root w) cp n = Some sn \<and> rec = sn_record sn))) w"
  by (auto simp: read_record_def read_sentinel_def wp_rules wp_read_file recorded_def split: sum.split option.splits)

text \<open>What the plan says of the tree \<open>r\<close> after the resources named \<open>D\<close> were looked at.\<close>

definition surveyed :: "bool \<Rightarrow> path \<Rightarrow> node \<Rightarrow> string set \<Rightarrow> plan \<Rightarrow> bool" where
  "surveyed checks cp r D p \<longleftrightarrow> fst ` set (pn_want p) = D \<and> distinct (map fst (pn_want p)) \<and> set (pn_keep p) = D
     \<and> (\<forall>n v. map_of (pn_want p) n = Some v \<longrightarrow> v = status_pending \<or>
          v = status_synced \<and> (\<exists>sn. found_complete checks r cp n sn \<and> rec_owner (sn_record sn) = owner_agent))
     \<and> (\<forall>n rec. map_of (pn_seeded p) n = Some rec \<longrightarrow> (\<exists>sn. found_complete checks r cp n sn \<and> rec = sn_record sn \<and> rec_owner rec \<noteq> owner_agent))
     \<and> (set (pn_unread p) \<noteq> {} \<longrightarrow> pn_errs p \<noteq> [])"

lemma status_ne [simp]: "status_pending \<noteq> status_synced" "status_synced \<noteq> status_pending" "status_synced \<noteq> []" "status_pending \<noteq> []"
  by (simp_all add: status_pending_def status_synced_def)

lemma surveyed_empty: "surveyed checks cp r {} empty_plan"
  by (simp add: surveyed_def empty_plan_def)

lemma surveyed_pending:
  "surveyed checks cp r D p \<Longrightarrow> surveyed checks cp r (insert n D) (set_want n status_pending (p\<lparr>pn_keep := List.insert n (pn_keep p)\<rparr>))"
  by (auto simp: surveyed_def set_want_def dom_update distinct_update)

lemma surveyed_err: "surveyed checks cp r D p \<Longrightarrow> surveyed checks cp r D (add_err e p)"
  by (simp add: surveyed_def add_err_def)

lemma surveyed_unread: "surveyed checks cp r D p \<Longrightarrow> surveyed checks cp r D (add_err e (p\<lparr>pn_unread := u\<rparr>))"
  by (simp add: surveyed_def add_err_def)

lemma surveyed_synced:
  "surveyed checks cp r D p \<Longrightarrow> n \<in> D \<Longrightarrow> found_complete checks r cp n sn \<Longrightarrow> rec_owner (sn_record sn) = owner_agent \<Longrightarrow>
   surveyed checks cp r D (set_want n status_synced p)"
  by (auto simp: surveyed_def set_want_def dom_update distinct_update)

lemma surveyed_seeded:
  "surveyed checks cp r D p \<Longrightarrow> found_complete checks r cp n sn \<Longrightarrow> rec_owner (sn_record sn) \<noteq> owner_agent \<Longrightarrow>
   surveyed checks cp r D (p\<lparr>pn_seeded := AList.update n (sn_record sn) (pn_seeded p)\<rparr>)"
  by (auto simp: surveyed_def)

lemma survey_one_spec:
  assumes "clean_path cp" "plain n" "truthful_under cp w" "surveyed (memory w \<noteq> None) cp (root w) D p"
  shows "wp (survey_one cp n p) (\<lambda>p' w'. tends w w' \<and> same_kind w w' \<and> truthful_under cp w' \<and>
    surveyed (memory w \<noteq> None) cp (root w) (insert n D) p') w"
proof -
  let ?c = "memory w \<noteq> None" and ?p = "set_want n status_pending (p\<lparr>pn_keep := List.insert n (pn_keep p)\<rparr>)"
  have sd: "prefix cp (store_dir cp n)" using assms(1,2) by (simp add: store_dir_def join_plain)
  have p: "surveyed ?c cp (root w) (insert n D) ?p" by (rule surveyed_pending [OF assms(4)])
  have st: "wp (state_of cp n) (\<lambda>x w'. (tends w w' \<and> truthful_under cp w' \<and>
      (fst x = Complete \<longrightarrow> x = expected_state ?c (root w) cp n)) \<and> same_kind w w') w"
    by (rule wp_conj [THEN iffD2]) (intro conjI state_of_sound [OF assms(1) sd assms(3)] kd.along_wp [OF along_kind_state_of])
  show ?thesis
    unfolding survey_one_def Let_def wp_bind
  proof (rule wp_mono [OF st], goal_cases)
    case (1 x w1)
    obtain s e where x: "x = (s, e)" by (cases x)
    from 1 have t: "tends w w1" "truthful_under cp w1" "same_kind w w1" and r1: "root w1 = root w" by (auto simp: tends_def)
    show ?case
    proof (cases "e = None \<and> s = Complete")
      case False
      then show ?thesis using t p by (auto simp: x wp_rules surveyed_err split: option.split)
    next
      case True
      then have es: "expected_state ?c (root w) cp n = (Complete, None)" using 1 x by simp
      have "wp (read_record cp n) (\<lambda>r w'. tends w w' \<and> same_kind w w' \<and> truthful_under cp w' \<and> surveyed ?c cp (root w) (insert n D) (case r of
             Inl x \<Rightarrow> add_err x (?p\<lparr>pn_unread := List.insert n (pn_unread ?p)\<rparr>)
           | Inr rec \<Rightarrow>
               if rec_owner rec \<noteq> owner_agent then ?p\<lparr>pn_seeded := AList.update n rec (pn_seeded ?p)\<rparr>
               else set_want n status_synced ?p)) w1"
      proof (rule wp_mono [OF read_record_sound], goal_cases)
        case (1 r w2)
        then have l: "looks w1 w2" by simp
        have t2: "tends w w2" "truthful_under cp w2" "same_kind w w2"
          using td.step_trans [OF t(1) looks_tends [OF l]] looks_truthful [OF l t(2)] t(3) l by (auto simp: same_kind_def looks_def)
        have "found_complete ?c (root w) cp n sn" if "recorded (root w1) cp n = Some sn" for sn
          using that es r1 by (simp add: found_complete_def)
        with 1 t2 p show ?case
          by (cases r) (auto intro: surveyed_unread surveyed_synced surveyed_seeded)
      qed
      with True show ?thesis by (simp add: x wp_rules wp_return_eq)
    qed
  qed
qed

lemma survey_spec:
  "clean_path cp \<Longrightarrow> list_all (\<lambda>ic. plain (ic_name ic)) ics \<Longrightarrow> truthful_under cp w \<Longrightarrow> surveyed (memory w \<noteq> None) cp (root w) D p \<Longrightarrow>
   wp (survey cp ics p) (\<lambda>p' w'. tends w w' \<and> same_kind w w' \<and> truthful_under cp w' \<and>
    surveyed (memory w \<noteq> None) cp (root w) (D \<union> ic_name ` set ics) p') w"
proof (induction ics arbitrary: p w D)
  case Nil
  then show ?case by (simp add: wp_rules td.step_refl kd.step_refl)
next
  case (Cons ic ics)
  have "plain (ic_name ic)" using Cons.prems by simp
  from survey_one_spec [OF Cons.prems(1) this Cons.prems(3,4)] show ?case
    unfolding survey.simps wp_bind
  proof (rule wp_mono, goal_cases)
    case (1 p1 w1)
    then have w1: "root w1 = root w" "(memory w1 \<noteq> None) = (memory w \<noteq> None)" by (auto simp: tends_def same_kind_def)
    have "wp (survey cp ics p1) (\<lambda>p' w'. tends w1 w' \<and> same_kind w1 w' \<and> truthful_under cp w' \<and>
        surveyed (memory w1 \<noteq> None) cp (root w1) (insert (ic_name ic) D \<union> ic_name ` set ics) p') w1"
      by (rule Cons.IH) (use Cons.prems 1 w1 in auto)
    then show ?case
      by (rule wp_mono) (use 1 w1 in \<open>auto intro: td.step_trans kd.step_trans\<close>)
  qed
qed

subsection \<open>The loop that converges\<close>

text \<open>How a turn of the loop changes the plan for the resource \<open>ic\<close>, the tree being \<open>r\<close> after it.\<close>

definition turn :: "puller \<Rightarrow> bool \<Rightarrow> path \<Rightarrow> node \<Rightarrow> image_cache \<Rightarrow> plan \<Rightarrow> plan \<Rightarrow> node \<Rightarrow> bool" where
  "turn pl checks cp r0 ic p p' r \<longleftrightarrow>
     p' = p \<and> (map_get (pn_want p) (ic_name ic) = status_synced \<or> ic_name ic \<in> set (pn_unread p))
     \<or> map_get (pn_want p) (ic_name ic) \<noteq> status_synced \<and>
       ((\<exists>e. p' = add_err e p) \<or> p' = set_want (ic_name ic) status_synced p \<and> settled pl checks cp r0 ic r)"

lemma sync_one_spec:
  assumes "image_source (nr_puller nr)" and "cp = nr_cache_path nr" and "n = ic_name ic"
    and "dir_at (root (rw_disk s)) cp" "clean_path cp" "plain n" "honest (rw_disk s)" "before_lock (nr_store nr) = None"
  shows "wp (sync_one nr ic p) (\<lambda>p' s'. step_on cp {n} s s' \<and> ((\<exists>e. p' = add_err e p) \<or>
     p' = set_want n status_synced p \<and> filled_from (nr_puller nr) cp ic (root (rw_disk s')))) s"
  unfolding sync_one_def wp_bind
  by (rule wp_mono [OF sync_spec [OF assms]]) (auto simp: wp_rules assms(3) split: option.splits)

lemma converge_one_spec:
  assumes src: "image_source (nr_puller nr)" and cp: "cp = nr_cache_path nr" and n: "n = ic_name ic"
    and d: "dir_at (root (rw_disk s)) cp" "clean_path cp" "plain n" "honest (rw_disk s)" "before_lock (nr_store nr) = None"
    and f: "dir_at r0 cp" "tidy (lookup r0 (cp @ [n]))" and l: "lookup (root (rw_disk s)) (cp @ [n]) = lookup r0 (cp @ [n])"
    and seeds: "\<And>rec. map_of (pn_seeded p) n = Some rec \<Longrightarrow> \<exists>sn. found_complete checks r0 cp n sn \<and> rec = sn_record sn \<and> rec_owner rec \<noteq> owner_agent"
  shows "wp (converge_one nr ic p) (\<lambda>p' s'. step_on cp {n} s s' \<and>
    turn (nr_puller nr) checks cp r0 ic p p' (root (rw_disk s')) \<and> (p' = p \<longrightarrow> s' = s)) s"
proof (cases "map_get (pn_want p) n = status_synced \<or> n \<in> set (pn_unread p)")
  case True
  then show ?thesis by (simp add: converge_one_def n [symmetric] wp_rules so.step_refl turn_def)
next
  case False
  have m1: "add_err e p \<noteq> p" for e
    by (metis add_err_def append_self_conv list.distinct(1) plan.select_convs(5) plan.surjective plan.update_convs(5))
  have m2: "set_want n status_synced p \<noteq> p"
  proof
    assume "set_want n status_synced p = p"
    then have "pn_want (set_want n status_synced p) = pn_want p" by simp
    then have "map_of (AList.update n status_synced (pn_want p)) n = map_of (pn_want p) n"
      by (subst (asm) set_want_def) (simp del: map_of_AList_update)
    with False show False by (auto simp: map_get_def split: option.splits)
  qed
  note moves = m1 m2
  have sync: "wp (sync_one nr ic p) (\<lambda>p' s2. step_on cp {n} s s2 \<and> turn (nr_puller nr) checks cp r0 ic p p' (root (rw_disk s2)) \<and> (p' = p \<longrightarrow> s2 = s)) s1"
    if s1: "step_on cp {n} s s1" for s1
  proof -
    have "dir_at (root (rw_disk s1)) cp" "honest (rw_disk s1)"
      using s1 d(1,4) same_env_honest [of "rw_disk s" "rw_disk s1"] by (auto simp: step_on_def pass_frame_def)
    from sync_one_spec [OF src cp n this(1) d(2,3) this(2) d(5)] show ?thesis
      by (rule wp_mono) (use False s1 moves in \<open>auto simp: turn_def settled_def n intro: so.step_trans\<close>)
  qed
  show ?thesis
  proof (cases "map_of (pn_seeded p) n")
    case None
    with False sync [OF so.step_refl] show ?thesis by (simp add: converge_one_def n [symmetric])
  next
    case (Some rec)
    with seeds obtain sn where sn: "found_complete checks r0 cp n sn" "rec = sn_record sn" "rec_owner (sn_record sn) \<noteq> owner_agent" by blast
    have "wp (adopt_seeded nr ic rec) (\<lambda>a. wp (case a of
              Inl e \<Rightarrow> do { eventf ic AdoptFailed; State_Monad.return (add_err e p) }
            | Inr adopted \<Rightarrow>
                if adopted then State_Monad.return (set_want n status_synced p)
                else sync_one nr ic p) (\<lambda>p' s'. step_on cp {n} s s' \<and> turn (nr_puller nr) checks cp r0 ic p p' (root (rw_disk s')) \<and> (p' = p \<longrightarrow> s' = s))) s"
      unfolding sn(2)
      by (rule wp_mono [OF adopt_seeded_spec [OF src cp n d(1-3) sn(1) f(1,2) sn(3) l]])
        (use False sync moves in \<open>auto simp: wp_rules turn_def settled_def n split: sum.split\<close>)
    with False Some show ?thesis unfolding converge_one_def n [symmetric] by (simp add: wp_bind)
  qed
qed

definition converging :: "puller \<Rightarrow> bool \<Rightarrow> path \<Rightarrow> node \<Rightarrow> image_cache list \<Rightarrow> plan \<Rightarrow> node \<Rightarrow> bool" where
  "converging pl checks cp r0 ics p r \<longleftrightarrow> fst ` set (pn_want p) = ic_name ` set ics \<and> distinct (map fst (pn_want p))
     \<and> set (pn_keep p) = ic_name ` set ics
     \<and> (\<forall>n v. map_of (pn_want p) n = Some v \<longrightarrow> v = status_pending \<or> v = status_synced)
     \<and> (\<forall>ic \<in> set ics. map_of (pn_want p) (ic_name ic) = Some status_synced \<longrightarrow> settled pl checks cp r0 ic r)
     \<and> (\<forall>n rec. map_of (pn_seeded p) n = Some rec \<longrightarrow> (\<exists>sn. found_complete checks r0 cp n sn \<and> rec = sn_record sn \<and> rec_owner rec \<noteq> owner_agent))
     \<and> (set (pn_unread p) \<noteq> {} \<longrightarrow> pn_errs p \<noteq> [])"

lemma surveyed_converging:
  "surveyed checks cp r0 (ic_name ` set ics) p \<Longrightarrow> converging pl checks cp r0 ics p r0"
proof -
  assume s: "surveyed checks cp r0 (ic_name ` set ics) p"
  have "settled pl checks cp r0 ic r0" if "map_of (pn_want p) (ic_name ic) = Some status_synced" for ic
  proof -
    have "\<exists>sn. found_complete checks r0 cp (ic_name ic) sn \<and> rec_owner (sn_record sn) = owner_agent"
      using s that unfolding surveyed_def by (metis status_ne(2))
    then show ?thesis by (simp add: settled_def kept_from_def)
  qed
  moreover have "\<forall>n v. map_of (pn_want p) n = Some v \<longrightarrow> v = status_pending \<or> v = status_synced"
    using s unfolding surveyed_def by metis
  ultimately show ?thesis using s unfolding surveyed_def converging_def by simp
qed

lemma converging_err: "converging pl checks cp r0 ics p r \<Longrightarrow> converging pl checks cp r0 ics (add_err_opt e p) r"
  by (cases e) (auto simp: converging_def add_err_opt_def add_err_def)

lemma map_get_synced: "map_get m n = status_synced \<longleftrightarrow> map_of m n = Some status_synced"
  by (auto simp: map_get_def status_synced_def split: option.split)

lemma turn_converging:
  assumes t: "turn pl checks cp r0 ic p p' r'" and c: "converging pl checks cp r0 ics p r" and i: "ic \<in> set ics" "distinct (map ic_name ics)"
    and others: "\<And>m. m \<in> ic_name ` set ics \<Longrightarrow> m \<noteq> ic_name ic \<Longrightarrow> lookup r' (cp @ [m]) = lookup r (cp @ [m])" and d: "dir_at r cp" "dir_at r' cp"
    and same: "p' = p \<Longrightarrow> r' = r"
  shows "converging pl checks cp r0 ics p' r'"
    "map_of (pn_want p) m = Some status_synced \<Longrightarrow> map_of (pn_want p') m = Some status_synced"
    "pn_errs p' = [] \<Longrightarrow> map_of (pn_want p') (ic_name ic) = Some status_synced"
    "pn_errs p \<noteq> [] \<Longrightarrow> pn_errs p' \<noteq> []"
proof -
  have keep: "settled pl checks cp r0 jc r'"
    if "jc \<in> set ics" "ic_name jc \<noteq> ic_name ic" "map_of (pn_want p) (ic_name jc) = Some status_synced" for jc
    using c that others d settled_cong [of pl checks cp r0 jc r r'] by (auto simp: converging_def)
  have inj: "jc = ic" if "jc \<in> set ics" "ic_name jc = ic_name ic" for jc
    using i that by (auto simp: distinct_map dest: inj_onD)
  consider (none) "p' = p" "map_of (pn_want p) (ic_name ic) = Some status_synced \<or> ic_name ic \<in> set (pn_unread p)"
    | (err) e where "p' = add_err e p" "map_of (pn_want p) (ic_name ic) \<noteq> Some status_synced"
    | (ok) "p' = set_want (ic_name ic) status_synced p" "settled pl checks cp r0 ic r'"
    using t by (auto simp: turn_def map_get_synced)
  note cs = this
  show "converging pl checks cp r0 ics p' r'"
    using cs
  proof cases
    case none
    with c same show ?thesis by simp
  next
    case err
    have "settled pl checks cp r0 jc r'" if "jc \<in> set ics" "map_of (pn_want p) (ic_name jc) = Some status_synced" for jc
      using that keep err(2) by (cases "ic_name jc = ic_name ic") auto
    then show ?thesis using c err(1) unfolding converging_def add_err_def by simp
  next
    case ok
    have w: "map_of (pn_want p') = (map_of (pn_want p))(ic_name ic \<mapsto> status_synced)" "fst ` set (pn_want p') = fst ` set (pn_want p)"
      "distinct (map fst (pn_want p'))" "pn_keep p' = pn_keep p" "pn_seeded p' = pn_seeded p" "pn_unread p' = pn_unread p" "pn_errs p' = pn_errs p"
      using c i(1) ok(1) by (auto simp: set_want_def dom_update distinct_update converging_def)
    have "settled pl checks cp r0 jc r'" if "jc \<in> set ics" "map_of (pn_want p') (ic_name jc) = Some status_synced" for jc
      using that keep ok(2) inj by (cases "ic_name jc = ic_name ic") (auto simp: w(1))
    then show ?thesis using c w unfolding converging_def by simp
  qed
  show "map_of (pn_want p) m = Some status_synced \<Longrightarrow> map_of (pn_want p') m = Some status_synced"
    using cs by cases (auto simp: add_err_def set_want_def)
  show "pn_errs p' = [] \<Longrightarrow> map_of (pn_want p') (ic_name ic) = Some status_synced"
    using cs c by cases (auto simp: add_err_def set_want_def converging_def)
  show "pn_errs p \<noteq> [] \<Longrightarrow> pn_errs p' \<noteq> []"
    using cs by cases (auto simp: add_err_def set_want_def)
qed

lemma step_on_mono:
  assumes "step_on cp {n} s s'" "n \<in> D"
    and "\<And>m. m \<in> D \<Longrightarrow> m \<noteq> n \<Longrightarrow> lookup (root (rw_disk s')) (cp @ [m]) = lookup (root (rw_disk s)) (cp @ [m])"
  shows "step_on cp D s s'"
proof -
  have "own_at cp m (root (rw_disk s'))" if "m \<in> D" "own_at cp m (root (rw_disk s))" for m
    using assms that by (cases "m = n") (simp_all add: step_on_def own_at_def)
  with assms(1,2) pass_frame_mono [of cp "{n}" _ _ D] show ?thesis by (simp add: step_on_def)
qed

lemma converge_spec:
  assumes src: "image_source (nr_puller nr)" and cp: "cp = nr_cache_path nr"
    and c: "clean_path cp" "before_lock (nr_store nr) = None" "dir_at r0 cp"
    and i: "distinct (map ic_name ics)" "\<forall>ic \<in> set ics. plain (ic_name ic) \<and> \<not> is_temporary (ic_name ic) \<and> tidy (lookup r0 (cp @ [ic_name ic]))"
  shows "set js \<subseteq> set ics \<Longrightarrow> distinct (map ic_name js) \<Longrightarrow> dir_at (root (rw_disk s)) cp \<Longrightarrow> honest (rw_disk s) \<Longrightarrow>
    \<forall>ic \<in> set js. lookup (root (rw_disk s)) (cp @ [ic_name ic]) = lookup r0 (cp @ [ic_name ic]) \<Longrightarrow>
    converging (nr_puller nr) checks cp r0 ics p (root (rw_disk s)) \<Longrightarrow>
    wp (converge nr js p) (\<lambda>p' s'. step_on cp (ic_name ` set ics) s s' \<and>
      converging (nr_puller nr) checks cp r0 ics p' (root (rw_disk s')) \<and>
      (\<forall>m. map_of (pn_want p) m = Some status_synced \<longrightarrow> map_of (pn_want p') m = Some status_synced) \<and>
      (pn_errs p \<noteq> [] \<longrightarrow> pn_errs p' \<noteq> []) \<and>
      (pn_errs p' = [] \<longrightarrow> (\<forall>ic \<in> set js. map_of (pn_want p') (ic_name ic) = Some status_synced))) s"
proof (induction js arbitrary: p s)
  case Nil
  then show ?case by (simp add: wp_rules so.step_refl)
next
  case (Cons ic js)
  let ?n = "ic_name ic" and ?D = "ic_name ` set ics"
  have ic: "ic \<in> set ics" "plain ?n" "tidy (lookup r0 (cp @ [?n]))" using Cons.prems(1) i(2) by auto
  have seeds: "\<exists>sn. found_complete checks r0 cp ?n sn \<and> rec = sn_record sn \<and> rec_owner rec \<noteq> owner_agent"
    if "map_of (pn_seeded p) ?n = Some rec" for rec using Cons.prems(6) that by (auto simp: converging_def)
  have one: "wp (converge_one nr ic p) (\<lambda>p' s'. step_on cp {?n} s s' \<and> turn (nr_puller nr) checks cp r0 ic p p' (root (rw_disk s')) \<and> (p' = p \<longrightarrow> s' = s)) s"
    by (rule converge_one_spec [OF src cp refl Cons.prems(3) c(1) ic(2) Cons.prems(4) c(2,3) ic(3) _ seeds]) (use Cons.prems(5) in auto)
  show ?case
    unfolding converge.simps wp_bind
  proof (rule wp_mono [OF one], goal_cases)
    case (1 p1 s1)
    then have st: "step_on cp {?n} s s1" and t: "turn (nr_puller nr) checks cp r0 ic p p1 (root (rw_disk s1))" by auto
    have fr: "pass_frame cp {?n} (root (rw_disk s)) (root (rw_disk s1))" using st by (simp add: step_on_def)
    have oth: "lookup (root (rw_disk s1)) (cp @ [m]) = lookup (root (rw_disk s)) (cp @ [m])" if "m \<in> ?D" "m \<noteq> ?n" for m
      using pass_frame_other [OF fr that(2)] i(2) that(1) by auto
    have d1: "dir_at (root (rw_disk s1)) cp" using fr Cons.prems(3) by (simp add: pass_frame_def)
    have h1: "honest (rw_disk s1)" using st Cons.prems(4) same_env_honest by (auto simp: step_on_def)
    have same: "p1 = p \<Longrightarrow> root (rw_disk s1) = root (rw_disk s)" using 1 by auto
    note tc = turn_converging [OF t Cons.prems(6) ic(1) i(1) oth Cons.prems(3) d1 same]
    note c1 = tc(1)
    have un: "\<forall>jc \<in> set js. lookup (root (rw_disk s1)) (cp @ [ic_name jc]) = lookup r0 (cp @ [ic_name jc])"
    proof
      fix jc assume "jc \<in> set js"
      then have "ic_name jc \<in> ?D" using Cons.prems(1) by auto
      moreover have "ic_name jc \<noteq> ?n" using Cons.prems(2) imageI [OF \<open>jc \<in> set js\<close>, of ic_name] by (metis distinct.simps(2) list.map(2) set_map)
      ultimately show "lookup (root (rw_disk s1)) (cp @ [ic_name jc]) = lookup r0 (cp @ [ic_name jc])"
        using oth Cons.prems(5) \<open>jc \<in> set js\<close> by simp
    qed
    have so1: "step_on cp ?D s s1"
      by (rule step_on_mono [OF st _ oth]) (use ic(1) in auto)
    have IH: "wp (converge nr js p1) (\<lambda>p' s'. step_on cp ?D s1 s' \<and> converging (nr_puller nr) checks cp r0 ics p' (root (rw_disk s')) \<and>
      (\<forall>m. map_of (pn_want p1) m = Some status_synced \<longrightarrow> map_of (pn_want p') m = Some status_synced) \<and>
      (pn_errs p1 \<noteq> [] \<longrightarrow> pn_errs p' \<noteq> []) \<and>
      (pn_errs p' = [] \<longrightarrow> (\<forall>ic \<in> set js. map_of (pn_want p') (ic_name ic) = Some status_synced))) s1"
      by (rule Cons.IH) (use Cons.prems(1,2) d1 h1 un c1 in auto)
    show ?case
    proof (rule wp_mono [OF IH], goal_cases)
      case (1 p2 s2)
      then show ?case using tc(2-4) so.step_trans [OF so1] by auto
    qed
  qed
qed

end
