(* ===== verification/PassSafety.thy ===== *)
theory PassSafety
  imports Pass
begin

section \<open>A whole pass, whatever fails\<close>

text \<open>
  The parts of a pass put together: what the labels it requests stand for, what it leaves alone, and
  what a pass that reports success has achieved.
\<close>

lemma orderly_after:
  assumes "orderly r cp" "pass_frame cp D r r'" "\<forall>n \<in> D. plain n \<and> own_at cp n r'"
  shows "orderly r' cp"
proof -
  have d: "dir_at r cp" "dir_at r' cp" "clean_path cp" using assms by (auto simp: orderly_def pass_frame_def)
  have "plain n \<and> own_sentinel n v" if v: "map_of (entries_at r' cp) n = Some v" for n v
  proof (cases "n \<in> D")
    case True
    with assms(3) v d(2) show ?thesis by (auto simp: own_at_def lookup_entry)
  next
    case False
    have l: "lookup r' (cp @ [n]) = Some v" using v d(2) by (simp add: lookup_entry)
    show ?thesis
    proof (cases "lookup r (cp @ [n])")
      case None
      with assms(2) False l obtain m k where "m \<in> D" "n = temp_name m k" by (auto simp: pass_frame_def)
      then show ?thesis using assms(3) plain_temp by (simp add: own_sentinel_def)
    next
      case (Some u)
      with assms(2) False l have "u = v" by (auto simp: pass_frame_def)
      with Some d(1) orderly_entry [OF assms(1)] show ?thesis by (simp add: lookup_entry)
    qed
  qed
  with d show ?thesis by (simp add: orderly_iff)
qed

lemma survives_mono: "survives {} keep n v \<Longrightarrow> survives lk keep n v"
  by (auto simp: survives_def split: node.splits if_splits)

text \<open>What a pass is run on: resources with names the API admits, nothing in their way.\<close>

definition admissible :: "('a, 'f) node_reconciler \<Rightarrow> image_cache list \<Rightarrow> sworld \<Rightarrow> bool" where
  "admissible nr ics w \<longleftrightarrow> orderly (root w) (nr_cache_path nr) \<and> honest w \<and> truthful_under (nr_cache_path nr) w
     \<and> before_lock (nr_store nr) = None \<and> distinct (map ic_name ics)
     \<and> (\<forall>ic \<in> set ics. plain (ic_name ic) \<and> \<not> is_temporary (ic_name ic) \<and> tidy (lookup (root w) (nr_cache_path nr @ [ic_name ic])))"

text \<open>The requests that follow a plan.\<close>

definition follow :: "plan \<Rightarrow> (labels \<times> labels) list \<Rightarrow> bool" where
  "follow p ps \<longleftrightarrow> (\<forall>(b, l) \<in> set ps. \<exists>c. apply_status_labels b (pn_want p) = (l, c))"

lemma converging_want:
  assumes "converging pl checks cp r0 ics p r" "map_of (pn_want p) n = Some v"
  shows "n \<in> ic_name ` set ics" "v = status_pending \<or> v = status_synced"
proof -
  have "n \<in> fst ` set (pn_want p)" using assms(2) by (force dest: map_of_SomeD)
  then show "n \<in> ic_name ` set ics" using assms(1) by (simp add: converging_def)
  show "v = status_pending \<or> v = status_synced" using assms unfolding converging_def by metis
qed

lemma wanted_values:
  assumes c: "converging pl checks cp r0 ics p r"
  shows "named_values (pn_want p)" "distinct (map fst (pn_want p))"
proof -
  show di: "distinct (map fst (pn_want p))" using c by (simp add: converging_def)
  have "v \<noteq> []" if "(n, v) \<in> set (pn_want p)" for n v
    using converging_want(2) [OF c map_of_is_SomeI [OF di that]] by (metis status_ne(3,4))
  then show "named_values (pn_want p)" by (auto simp: named_values_def list_all_iff)
qed

lemma wanted_label:
  assumes c: "converging pl checks cp r0 ics p r" and a: "apply_status_labels b (pn_want p) = (l, ch)"
  shows "map_of l (label_prefix @ n) = map_of (pn_want p) n"
  using apply_status_labels_map [OF wanted_values [OF c] a, of "label_prefix @ n"] by simp

definition sound_labels :: "puller \<Rightarrow> bool \<Rightarrow> path \<Rightarrow> node \<Rightarrow> image_cache list \<Rightarrow> node \<Rightarrow> (labels \<times> labels) list \<Rightarrow> bool" where
  "sound_labels pl checks cp r ics r' ps \<longleftrightarrow> (\<forall>(b, l) \<in> set ps. \<forall>n v. map_of l (label_prefix @ n) = Some v \<longrightarrow>
     (v = status_pending \<or> v = status_synced) \<and>
     (\<exists>ic \<in> set ics. ic_name ic = n \<and> (v = status_synced \<longrightarrow> settled pl checks cp r ic r')))"

lemma follow_sound:
  assumes f: "follow p ps" and c: "converging pl checks cp r ics p r1"
    and s: "\<And>ic. ic \<in> set ics \<Longrightarrow> map_of (pn_want p) (ic_name ic) = Some status_synced \<Longrightarrow> settled pl checks cp r ic r'"
  shows "sound_labels pl checks cp r ics r' ps"
  unfolding sound_labels_def
proof (intro ballI, clarify, intro conjI)
  fix b l n v assume bl: "(b, l) \<in> set ps" and m: "map_of l (label_prefix @ n) = Some v"
  obtain ch where "apply_status_labels b (pn_want p) = (l, ch)" using f bl by (auto simp: follow_def)
  then have w: "map_of (pn_want p) n = Some v" using wanted_label [OF c] m by metis
  from converging_want(2) [OF c w] show "v = status_pending \<or> v = status_synced" .
  from converging_want(1) [OF c w] obtain ic where "ic \<in> set ics" "ic_name ic = n" by auto
  with w s show "\<exists>ic \<in> set ics. ic_name ic = n \<and> (v = status_synced \<longrightarrow> settled pl checks cp r ic r')" by auto
qed

lemma sound_labels_append:
  "sound_labels pl checks cp r ics r' (ps @ qs) \<longleftrightarrow> sound_labels pl checks cp r ics r' ps \<and> sound_labels pl checks cp r ics r' qs"
  by (simp add: sound_labels_def ball_Un)

lemma patch_labels_spec:
  "wp (patch_labels nr node (pn_want p)) (\<lambda>x s'. rw_disk s' = rw_disk s \<and> (\<exists>ps. rw_sent s' = rw_sent s @ ps \<and> follow p ps)) s"
  by (auto simp: wp_patch_labels follow_def split: prod.split sum.split)

subsection \<open>The end of a pass\<close>

lemma gc_step:
  assumes "orderly (root w) cp" "honest w"
  shows "wp (gc cp keep) (\<lambda>x w'. same_env w w' \<and>
    elsewhere cp {n. \<exists>v. lookup (root w) (cp @ [n]) = Some v \<and> \<not> survives (locks w) keep n v} (root w) (root w')) w"
proof (rule wpI)
  fix x w' assume run: "run_state (gc cp keep) w = (x, w')"
  obtain removed e where x: "x = (removed, e)" by (cases x)
  from gc_spares [OF assms run [unfolded x]] wpD [OF gc_in [OF assms] run]
  show "same_env w w' \<and> elsewhere cp {n. \<exists>v. lookup (root w) (cp @ [n]) = Some v \<and> \<not> survives (locks w) keep n v} (root w) (root w')"
    by (simp add: x)
qed

lemma wp_set_watches: "wp (set_watches nr) (\<lambda>_ s'. looks (rw_disk s) (rw_disk s') \<and> rw_sent s' = rw_sent s \<and>
    rw_server s' = rw_server s \<and> rw_events s' = rw_events s) s"
proof (cases "rw_fs s")
  case None
  then show ?thesis by (simp add: set_watches_def wp_rules look.step_refl)
next
  case (Some f)
  have "wp (set_paths (nr_notify nr) [nr_cache_path nr] f) (\<lambda>_ w. looks (rw_disk s) w) (rw_disk s)"
    by (rule look.along_wp [OF along_looks_set_paths])
  then show ?thesis by (simp add: set_watches_def wp_rules Some)
qed

text \<open>The tree after the collection still has what the resources keep and what survives.\<close>

definition spares_all :: "path \<Rightarrow> string set \<Rightarrow> node \<Rightarrow> node \<Rightarrow> bool" where
  "spares_all cp D r r' \<longleftrightarrow> (dir_at r cp \<longrightarrow> dir_at r' cp)
     \<and> (\<forall>n v. n \<notin> D \<longrightarrow> lookup r (cp @ [n]) = Some v \<longrightarrow> survives {} (\<lambda>_. False) n v \<longrightarrow> lookup r' (cp @ [n]) = Some v)
     \<and> (\<forall>q. cp \<parallel> q \<longrightarrow> lookup r' q = lookup r q)"

lemma collected:
  assumes gc: "elsewhere cp {n. \<exists>v. lookup r (cp @ [n]) = Some v \<and> \<not> survives lk (\<lambda>n. n \<in> D) n v} r r'"
  shows "n \<in> D \<Longrightarrow> lookup r' (cp @ [n]) = lookup r (cp @ [n])" "spares_all cp D r r'"
proof -
  have keep: "lookup r' (cp @ [n]) = lookup r (cp @ [n])" if "\<And>v. lookup r (cp @ [n]) = Some v \<Longrightarrow> survives lk (\<lambda>n. n \<in> D) n v" for n
    using gc that by (cases "lookup r (cp @ [n])") (auto simp: elsewhere_def)
  show "n \<in> D \<Longrightarrow> lookup r' (cp @ [n]) = lookup r (cp @ [n])"
    by (rule keep) (simp add: survives_def named_def)
  have "lookup r' (cp @ [n]) = Some v" if "lookup r (cp @ [n]) = Some v" "survives {} (\<lambda>_. False) n v" for n v
  proof -
    have "survives lk (\<lambda>n. n \<in> D) n v" using that(2) by (auto simp: survives_def named_def split: node.splits if_splits)
    then show ?thesis using keep [of n] that(1) by simp
  qed
  with gc show "spares_all cp D r r'" by (simp add: spares_all_def elsewhere_def)
qed

lemma frame_spares: "pass_frame cp D r r' \<Longrightarrow> spares_all cp D r r'"
  by (auto simp: pass_frame_def spares_all_def)

lemma spares_all_trans: "spares_all cp D r s \<Longrightarrow> spares_all cp D s t \<Longrightarrow> spares_all cp D r t"
  by (simp add: spares_all_def)

lemma pass_finish:
  assumes o: "orderly (root (rw_disk s)) cp" "honest (rw_disk s)" and K: "set (pn_keep p) = D" and cp: "cp = nr_cache_path nr"
  shows "wp (do {
     (_, e2) \<leftarrow> on_disk (gc cp (\<lambda>n. n \<in> set (pn_keep p)));
     (_, e3) \<leftarrow> patch_labels nr node (pn_want p);
     set_watches nr;
     State_Monad.return (case new_aggregate (map Some (pn_errs p) @ [e2, e3]) of Some e \<Rightarrow> Inl e | None \<Rightarrow> Inr (nr_resync nr)) })
   (\<lambda>x s'. same_env (rw_disk s) (rw_disk s') \<and> spares_all cp D (root (rw_disk s)) (root (rw_disk s')) \<and>
      (\<forall>n \<in> D. lookup (root (rw_disk s')) (cp @ [n]) = lookup (root (rw_disk s)) (cp @ [n])) \<and>
      (\<exists>ps. rw_sent s' = rw_sent s @ ps \<and> follow p ps) \<and> (\<forall>t. x = Inr t \<longrightarrow> t = nr_resync nr \<and> pn_errs p = [])) s"
  unfolding wp_bind wp_on_disk
proof (rule wp_mono [OF gc_step [OF o]], goal_cases)
  case (1 y w3)
  note co = collected [OF conjunct2 [OF 1 [unfolded K]]]
  obtain rm e2 where y: "y = (rm, e2)" by (cases y)
  show ?case
    unfolding y prod.case wp_bind
  proof (rule wp_mono [OF patch_labels_spec], goal_cases)
    case (1 z s3)
    then obtain ps where s3: "rw_disk s3 = w3" "rw_sent s3 = rw_sent s @ ps" "follow p ps" by auto
    obtain nd e3 where z: "z = (nd, e3)" by (cases z)
    show ?case
      unfolding z prod.case wp_bind
      by (rule wp_mono [OF wp_set_watches])
        (use s3 co \<open>same_env (rw_disk s) w3 \<and> _\<close> in \<open>auto simp: wp_return looks_def intro: env.step_trans split: option.splits\<close>)
  qed
qed

text \<open>How a pass over the resources \<open>ics\<close> may end.\<close>

definition pass_ends :: "('a, 'f) node_reconciler \<Rightarrow> image_cache list \<Rightarrow> ('a, 'f) rworld \<Rightarrow> int res \<Rightarrow> ('a, 'f) rworld \<Rightarrow> bool" where
  "pass_ends nr ics s x s' \<longleftrightarrow>
     same_env (rw_disk s) (rw_disk s')
     \<and> spares_all (nr_cache_path nr) (ic_name ` set ics) (root (rw_disk s)) (root (rw_disk s'))
     \<and> (\<exists>ps. rw_sent s' = rw_sent s @ ps \<and> sound_labels (nr_puller nr) (memory (rw_disk s) \<noteq> None) (nr_cache_path nr)
          (root (rw_disk s)) ics (root (rw_disk s')) ps)
     \<and> (\<forall>t. x = Inr t \<longrightarrow> t = nr_resync nr \<and>
          (\<forall>ic \<in> set ics. settled (nr_puller nr) (memory (rw_disk s) \<noteq> None) (nr_cache_path nr) (root (rw_disk s)) ic (root (rw_disk s'))))"

text \<open>From the loop on: the plan \<open>p1\<close> of the survey led to \<open>p2\<close>.\<close>

lemma pass_second_half:
  assumes a: "admissible nr ics (rw_disk s)" and cp: "cp = nr_cache_path nr" and r: "r = root (rw_disk s)" and ch: "ch = (memory (rw_disk s) \<noteq> None)"
    and c1: "converging (nr_puller nr) ch cp r ics p1 r" and s1: "rw_sent s1 = rw_sent s @ ps1" "follow p1 ps1"
      "root (rw_disk s1) = r" "same_env (rw_disk s) (rw_disk s1)"
    and so: "step_on cp (ic_name ` set ics) s1 s2" and c2: "converging (nr_puller nr) ch cp r ics p2 (root (rw_disk s2))"
    and mono: "\<And>m. map_of (pn_want p1) m = Some status_synced \<Longrightarrow> map_of (pn_want p2) m = Some status_synced"
    and all: "pn_errs p2 = [] \<Longrightarrow> \<forall>ic \<in> set ics. map_of (pn_want p2) (ic_name ic) = Some status_synced"
  shows "wp (do {
     (_, e2) \<leftarrow> on_disk (gc cp (\<lambda>n. n \<in> set (pn_keep p2)));
     (_, e3) \<leftarrow> patch_labels nr node (pn_want p2);
     set_watches nr;
     State_Monad.return (case new_aggregate (map Some (pn_errs p2) @ [e2, e3]) of Some e \<Rightarrow> Inl e | None \<Rightarrow> Inr (nr_resync nr)) })
    (pass_ends nr ics s) s2"
proof -
  let ?pl = "nr_puller nr" and ?D = "ic_name ` set ics" and ?r2 = "root (rw_disk s2)"
  have o: "orderly r cp" "dir_at r cp" and h: "honest (rw_disk s)" and ok: "\<forall>ic \<in> set ics. plain (ic_name ic)"
    using a by (auto simp: admissible_def orderly_def cp r)
  have fr: "pass_frame cp ?D r ?r2" and env2: "same_env (rw_disk s) (rw_disk s2)"
    using so s1 by (auto simp: step_on_def intro: env.step_trans)
  have own: "\<forall>n \<in> ?D. plain n \<and> own_at cp n ?r2"
    using so s1 ok o orderly_entry [OF o(1)] by (auto simp: step_on_def own_at_def lookup_entry split: option.splits)
  have o2: "orderly ?r2 cp" by (rule orderly_after [OF o(1) fr own])
  have h2: "honest (rw_disk s2)" using same_env_honest env2 h by blast
  have K: "set (pn_keep p2) = ?D" using c2 by (simp add: converging_def)
  show ?thesis
  proof (rule wp_mono [OF pass_finish [OF o2 h2 K cp]], goal_cases)
    case (1 x s3)
    let ?r3 = "root (rw_disk s3)"
    from 1 obtain ps2 where ps2: "rw_sent s3 = rw_sent s2 @ ps2" "follow p2 ps2" by blast
    have sp: "spares_all cp ?D r ?r3" using 1 spares_all_trans [OF frame_spares [OF fr]] by blast
    have d: "dir_at ?r2 cp" "dir_at ?r3 cp" using o2 1 by (auto simp: orderly_def spares_all_def)
    have sett: "settled ?pl ch cp r ic ?r3" if "ic \<in> set ics" "map_of (pn_want p2) (ic_name ic) = Some status_synced" for ic
      using c2 that 1 by (intro settled_cong [OF _ _ d]) (auto simp: converging_def)
    have "sound_labels ?pl ch cp r ics ?r3 (ps1 @ ps2)"
      unfolding sound_labels_append using follow_sound [OF s1(2) c1] follow_sound [OF ps2(2) c2] sett mono by blast
    moreover have "rw_sent s3 = rw_sent s @ ps1 @ ps2" using ps2(1) s1(1) so by (simp add: step_on_def)
    moreover have "same_env (rw_disk s) (rw_disk s3)" using env2 1 env.step_trans by blast
    moreover have "settled ?pl ch cp r ic ?r3" if "x = Inr t" "ic \<in> set ics" for t ic using 1 that all sett by blast
    ultimately show ?case using sp 1 unfolding pass_ends_def cp [symmetric] r [symmetric] ch [symmetric] by blast
  qed
qed

lemma run_pass_spec:
  assumes src: "image_source (nr_puller nr)" and a: "admissible nr ics (rw_disk s)"
  shows "wp (run_pass nr node ics) (pass_ends nr ics s) s"
proof -
  define cp where "cp = nr_cache_path nr"
  define r where "r = root (rw_disk s)"
  define ch where "ch = (memory (rw_disk s) \<noteq> None)"
  let ?pl = "nr_puller nr" and ?D = "ic_name ` set ics"
  have o: "orderly r cp" "dir_at r cp" "clean_path cp" and h: "honest (rw_disk s)" and t: "truthful_under cp (rw_disk s)"
    and st: "before_lock (nr_store nr) = None" and di: "distinct (map ic_name ics)"
    and ok: "\<forall>ic \<in> set ics. plain (ic_name ic) \<and> \<not> is_temporary (ic_name ic) \<and> tidy (lookup r (cp @ [ic_name ic]))"
    using a by (auto simp: admissible_def orderly_def cp_def r_def)
  have sv: "wp (survey cp ics empty_plan) (\<lambda>p w'. tends (rw_disk s) w' \<and> same_kind (rw_disk s) w' \<and> truthful_under cp w' \<and> surveyed ch cp r ?D p) (rw_disk s)"
    using survey_spec [OF o(3) _ t, of ics "{}" empty_plan] surveyed_empty ok by (simp add: list_all_iff ch_def r_def)
  show ?thesis
    unfolding run_pass_def wp_bind wp_on_disk cp_def [symmetric]
  proof (rule wp_mono [OF sv], goal_cases)
    case (1 p1 w1)
    then have w1: "root w1 = r" "same_env (rw_disk s) w1" "honest w1" and p1: "surveyed ch cp r ?D p1"
      using same_env_honest h by (auto simp: tends_def r_def)
    have c1: "converging ?pl ch cp r ics p1 r" by (rule surveyed_converging [OF p1])
    show ?case
    proof (rule wp_mono [OF patch_labels_spec], goal_cases)
      case (1 x s1)
      obtain node1 e1 where x: "x = (node1, e1)" by (cases x)
      from 1 obtain ps1 where s1: "rw_disk s1 = w1" "rw_sent s1 = rw_sent s @ ps1" "follow p1 ps1" by auto
      have "wp (converge nr ics (add_err_opt e1 p1)) (\<lambda>p' s'. step_on cp ?D s1 s' \<and> converging ?pl ch cp r ics p' (root (rw_disk s')) \<and>
          (\<forall>m. map_of (pn_want (add_err_opt e1 p1)) m = Some status_synced \<longrightarrow> map_of (pn_want p') m = Some status_synced) \<and>
          (pn_errs (add_err_opt e1 p1) \<noteq> [] \<longrightarrow> pn_errs p' \<noteq> []) \<and>
          (pn_errs p' = [] \<longrightarrow> (\<forall>ic \<in> set ics. map_of (pn_want p') (ic_name ic) = Some status_synced))) s1"
        by (rule converge_spec [OF src cp_def o(3) st o(2) di ok subset_refl di]) (use s1 w1 o converging_err [OF c1] in auto)
      then show ?case
        unfolding x prod.case wp_bind
      proof (rule wp_mono, goal_cases)
        case (1 p2 s2)
        have m: "map_of (pn_want p1) m = Some status_synced \<Longrightarrow> map_of (pn_want p2) m = Some status_synced" for m
          using 1 by (cases e1) (auto simp: add_err_opt_def add_err_def)
        show ?case
          unfolding wp_bind [symmetric]
          by (rule pass_second_half [OF a cp_def r_def ch_def c1 s1(2,3) w1(1,2) [folded s1(1)] _ _ m]) (use 1 in auto)
      qed
    qed
  qed
qed

subsection \<open>Properties\<close>

text \<open>The resources a pass works for.\<close>

definition selected :: "labels \<Rightarrow> image_cache list \<Rightarrow> image_cache list" where
  "selected node items = filter (\<lambda>ic. matches (ic_selector ic) node) items"

lemma reconcile_spec:
  assumes "image_source (nr_puller nr)" "cl_get (nr_client nr) (nr_node nr) (rw_server s) = Inr node"
    and "cl_list (nr_client nr) (rw_server s) = Inr items" "admissible nr (selected node items) (rw_disk s)"
  shows "wp (reconcile nr) (pass_ends nr (selected node items) s) s"
  using run_pass_spec [OF assms(1,4), of node] assms(2,3) by (simp add: reconcile_def wp_rules selected_def)

text \<open>C1: A label never lies. Every label patch a pass requests, whatever call fails on the way, names under
  the agent's prefix only resources that select the node, as pending or as synced; and a resource is
  called synced only if the tree the pass leaves has the directory the pass found complete and owned by
  the agent, or the directory it found complete and adopted after comparing the layers, or the files of
  the image it pulled whole.\<close>

theorem reconcile_labels_sound:
  assumes "nr_puller nr = remote_puller lib rm" "cl_get (nr_client nr) (nr_node nr) (rw_server s) = Inr node"
    and "cl_list (nr_client nr) (rw_server s) = Inr items" "admissible nr (selected node items) (rw_disk s)"
    and run: "run_state (reconcile nr) s = (x, s')"
  shows "\<exists>ps. rw_sent s' = rw_sent s @ ps \<and> sound_labels (nr_puller nr) (memory (rw_disk s) \<noteq> None) (nr_cache_path nr)
    (root (rw_disk s)) (selected node items) (root (rw_disk s')) ps"
proof -
  have "image_source (nr_puller nr)" using assms(1) rp.image_source_axioms by simp
  from wpD [OF reconcile_spec [OF this assms(2-4)] run] show ?thesis by (simp add: pass_ends_def)
qed

text \<open>A cluster whose server keeps the labels of one node and one resource for every node, for the
  examples.\<close>

definition boot_cache :: image_cache where
  "boot_cache = \<lparr>ic_name = ''boot'', ic_selector = [], ic_source = ''registry/image:1''\<rparr>"

definition sample_cluster :: "labels cluster" where
  "sample_cluster = \<lparr>cl_get = (\<lambda>_ l. Inr l), cl_list = (\<lambda>_. Inr [boot_cache]), cl_patch = (\<lambda>_ b l sv. (Inr l, l))\<rparr>"

definition sample_reconciler :: "(labels, path set) node_reconciler" where
  "sample_reconciler = \<lparr>nr_client = sample_cluster, nr_notify = sample_notify, nr_node = ''node-1'', nr_cache_path = [''cache''],
     nr_store = no_hook, nr_puller = remote_puller sample_library \<lparr>rm_transport = None, rm_plain_http = False\<rparr>, nr_resync = 3600\<rparr>"

definition sample_pass :: "(string \<times> node) list \<Rightarrow> (labels, path set) rworld" where
  "sample_pass es = \<lparr>rw_disk = cache_world es None, rw_server = [], rw_fs = None, rw_sent = [], rw_events = []\<rparr>"

lemma sample_pass_simps [simp]:
  "nr_puller sample_reconciler = remote_puller sample_library \<lparr>rm_transport = None, rm_plain_http = False\<rparr>"
  "cl_get (nr_client sample_reconciler) (nr_node sample_reconciler) (rw_server (sample_pass es)) = Inr []"
  "cl_list (nr_client sample_reconciler) (rw_server (sample_pass es)) = Inr [boot_cache]"
  "selected [] [boot_cache] = [boot_cache]" "nr_cache_path sample_reconciler = [''cache'']" "rw_disk (sample_pass es) = cache_world es None"
  "ic_name boot_cache = ''boot''" "nr_store sample_reconciler = no_hook" "rw_sent (sample_pass es) = []" "nr_resync sample_reconciler = 3600"
  by (simp_all add: sample_reconciler_def sample_cluster_def sample_pass_def selected_def boot_cache_def)

lemma sample_admissible: "orderly (root (cache_world es None)) [''cache''] \<Longrightarrow> map_of es ''boot'' = None \<Longrightarrow>
    admissible sample_reconciler [boot_cache] (cache_world es None)"
  by (simp add: admissible_def truthful_no_memory plain_def is_temporary_def tidy_def direct_def)

theorem reconcile_labels_sound_witness:
  "\<exists>x s'. run_state (reconcile sample_reconciler) (sample_pass []) = (x, s') \<and>
     sound_labels (nr_puller sample_reconciler) False [''cache''] (root (cache_world [] None)) [boot_cache] (root (rw_disk s')) (rw_sent s')"
proof -
  obtain x s' where run: "run_state (reconcile sample_reconciler) (sample_pass []) = (x, s')" by fastforce
  have "admissible sample_reconciler (selected [] [boot_cache]) (rw_disk (sample_pass []))"
    using sample_admissible [of "[]"] by (simp add: orderly_def plain_def)
  from reconcile_labels_sound [OF sample_pass_simps(1,2,3) this run] run show ?thesis by simp
qed

text \<open>C2: A pass keeps its hands off. Whatever call fails, an entry of the cache path that no selected resource
  names is untouched when it is a regular file, lost+found, or a directory that another writer seeded
  or whose sentinel cannot be read; and so is everything outside the cache path.\<close>

theorem reconcile_spares:
  assumes "nr_puller nr = remote_puller lib rm" "cl_get (nr_client nr) (nr_node nr) (rw_server s) = Inr node"
    and "cl_list (nr_client nr) (rw_server s) = Inr items" "admissible nr (selected node items) (rw_disk s)"
    and run: "run_state (reconcile nr) s = (x, s')"
  shows "spares_all (nr_cache_path nr) (ic_name ` set (selected node items)) (root (rw_disk s)) (root (rw_disk s'))"
proof -
  have "image_source (nr_puller nr)" using assms(1) rp.image_source_axioms by simp
  from wpD [OF reconcile_spec [OF this assms(2-4)] run] show ?thesis by (simp add: pass_ends_def)
qed

theorem reconcile_spares_witness:
  "lookup (root (rw_disk (snd (run_state (reconcile sample_reconciler) (sample_pass littered))))) [''cache'', ''flat.tar''] = map_of littered ''flat.tar''"
proof -
  obtain x s' where run: "run_state (reconcile sample_reconciler) (sample_pass littered) = (x, s')" by fastforce
  have l: "map_of littered ''boot'' = None"
    "map_of littered ''flat.tar'' = Some (Reg \<lparr>fdata = ''x'', fdev = 1, fino = 5, fmtime = 0, fctime = 0\<rparr>)" by (simp_all add: littered_def)
  have "admissible sample_reconciler (selected [] [boot_cache]) (rw_disk (sample_pass littered))"
    using sample_admissible [of littered] l(1) by simp
  from reconcile_spares [OF sample_pass_simps(1,2,3) this run]
  have "\<And>n v. n \<noteq> ''boot'' \<Longrightarrow> lookup (root (cache_world littered None)) ([''cache''] @ [n]) = Some v \<Longrightarrow> survives {} (\<lambda>_. False) n v \<Longrightarrow>
     lookup (root (rw_disk s')) ([''cache''] @ [n]) = Some v" by (simp add: spares_all_def)
  from this [of "''flat.tar''" "Reg \<lparr>fdata = ''x'', fdev = 1, fino = 5, fmtime = 0, fctime = 0\<rparr>"]
  show ?thesis by (simp add: run l survives_def named_def)
qed

end
