(* ===== verification/PassLiveness.thy ===== *)
theory PassLiveness
  imports PassSafety
begin

section \<open>A pass converges\<close>

text \<open>
  When no call fails and the sources serve whole images, one pass brings the node to what the
  resources ask: every selected resource ends synced, and the pass reports no error.
\<close>

lemma stat_dir: "dir_at r cp \<Longrightarrow> clean_path cp \<Longrightarrow> \<exists>i es. stat_in r cp = Inr (Dir i es)"
  by (auto simp: stat_in_def lift_errno_def node_at_def resolve_dir dir_at_iff)

lemma may_replace_agent: "may_replace v owner_agent"
  by (auto simp: may_replace_def split: option.split node.split)

lemma sync_calm:
  assumes src: "image_source (nr_puller nr)" and cp: "cp = nr_cache_path nr" and n: "n = ic_name ic"
    and d: "dir_at (root (rw_disk s)) cp" "clean_path cp" "plain n" "calm (rw_disk s)" "before_lock (nr_store nr) = None"
    and v: "direct (lookup (root (rw_disk s)) (cp @ [n]))" "fresh_draws (rw_disk s) cp n" "serves (nr_puller nr) (ic_source ic)"
  shows "wp (sync nr ic) (\<lambda>x _. x = None) s"
proof -
  let ?w = "rw_disk s"
  obtain i es where st: "stat_in (root ?w) cp = Inr (Dir i es)" using stat_dir [OF d(1,2)] by blast
  have f: "wp (fill (nr_store nr) (nr_puller nr) cp n (ic_source ic) owner_agent True) (\<lambda>(x, heard) w'. x = None) (tock ?w)"
    by (rule image_source.fill_calm [OF src])
      (use d v fresh_draws_cong [OF same_env_tock, of ?w] in \<open>auto simp: may_replace_agent serves_def\<close>)
  then show ?thesis
    using d(4) st
    by (simp add: sync_def wp_rules cp [symmetric] n [symmetric] check_cache_path_def wp_stat)
      (erule wp_mono, auto simp: wp_rules)
qed


text \<open>The temporary names of two resources are apart, so the work on one resource leaves the draws of
  another fresh.\<close>

lemma temp_name_inj: "temp_name m k = temp_name n j \<Longrightarrow> m = n"
proof -
  assume "temp_name m k = temp_name n j"
  then have e: "(m @ ''.tmp'') @ CHR ''-'' # digits k = (n @ ''.tmp'') @ CHR ''-'' # digits j"
    by (simp add: temp_name_def temp_prefix_def)
  have d: "CHR ''-'' \<notin> set (digits i)" for i using digits_are_digits minus_not_digit by blast
  have "rev (takeWhile (\<lambda>c. c \<noteq> CHR ''-'') (rev (xs @ CHR ''-'' # digits i))) = digits i" for xs i
  proof -
    have t: "\<forall>c \<in> set (rev (digits i)). c \<noteq> CHR ''-''" using d by auto
    have "takeWhile (\<lambda>c. c \<noteq> CHR ''-'') (rev (digits i) @ CHR ''-'' # rev xs) = rev (digits i)"
      using t by (subst takeWhile_append2) auto
    then show ?thesis by simp
  qed
  then have "digits k = digits j" using e by metis
  with e show ?thesis by simp
qed

lemma fresh_draws_frame:
  assumes "pass_frame cp {m} (root w) (root w')" "same_env w w'" "dir_at (root w) cp" "m \<noteq> n" "\<not> is_temporary m" "fresh_draws w cp n"
  shows "fresh_draws w' cp n"
  unfolding fresh_draws_def
proof
  fix t
  let ?k = "temp_name n (rnd w t)"
  have d': "dir_at (root w') cp" and r: "rnd w' = rnd w" using assms(1-3) by (auto simp: pass_frame_def same_env_def)
  have "lookup (root w) (cp @ [?k]) = None" using assms(3,6) by (simp add: fresh_draws_def lookup_entry)
  moreover have "?k \<noteq> m" using assms(5) by (metis temp_name_temporary)
  ultimately have "lookup (root w') (cp @ [?k]) = None"
    using assms(1,4) temp_name_inj unfolding pass_frame_def by (metis singletonD)
  then show "map_of (entries_at (root w') cp) (temp_name n (rnd w' t)) = None" using d' r by (simp add: lookup_entry)
qed

lemma adopt_calm:
  assumes "dir_at (root w) cp" "clean_path cp" "plain n" "lookup (root w) (cp @ [n]) = Some (Dir i es)" "calm w"
    and g: "map_of es sentinel_name = Some (Reg g)" "unmarshal (fdata g) = Some sn" and t: "tidy (Some (Dir i es))"
  shows "wp (adopt cp n) (\<lambda>x _. x = None) w"
proof -
  have sd: "store_dir cp n = cp @ [n]" using assms(2,3) by (simp add: store_dir_def join_plain)
  have dd: "dir_at (root w) (cp @ [n])" "entries_at (root w) (cp @ [n]) = es"
    using assms(4) by (simp_all add: dir_at_def entries_at_def)
  have a: "adoptable (root w) (store_dir cp n) g"
    unfolding adoptable_def sd using dd assms(2,3) g t by (simp add: tidy_def)
  show ?thesis
    by (rule wp_mono [OF adopt_in [OF a g(2)]]) (use calm_faultless [OF assms(5)] in \<open>auto split: option.splits\<close>)
qed

text \<open>A source that can be pulled can be resolved.\<close>

lemma serves_resolve:
  assumes "image_source pl" "serves pl source" "calm w"
  shows "\<exists>img w'. run_state (pl_resolve pl source) w = (Inr img, w') \<and> looks w w'"
proof -
  obtain p i w1 where "run_state (pl_pull pl source) w = (Inr (p, i), w1)" using assms(2,3) by (auto simp: serves_def)
  then have "fst (run_state (pl_resolve pl source) w) = Inr i"
    using image_source.resolve_pull [OF assms(1), of source w] by (simp add: resolved_def)
  then show ?thesis using alongD [OF image_source.resolve_looks [OF assms(1)]] by (metis prod.collapse)
qed

lemma adopt_seeded_calm:
  assumes src: "image_source (nr_puller nr)" and cp: "cp = nr_cache_path nr" and n: "n = ic_name ic"
    and d: "dir_at (root (rw_disk s)) cp" "clean_path cp" "plain n" "calm (rw_disk s)" "serves (nr_puller nr) (ic_source ic)"
    and f: "found_complete checks r0 cp n sn" "dir_at r0 cp" "tidy (lookup r0 (cp @ [n]))"
    and l: "lookup (root (rw_disk s)) (cp @ [n]) = lookup r0 (cp @ [n])"
  shows "wp (adopt_seeded nr ic (sn_record sn)) (\<lambda>x s'. x = Inr True \<or> x = Inr False \<and> looks (rw_disk s) (rw_disk s')) s"
proof -
  obtain i es g where e: "lookup r0 (cp @ [n]) = Some (Dir i es)" "map_of es sentinel_name = Some (Reg g)" "unmarshal (fdata g) = Some sn"
    using found_complete_dir [OF f(1,2) d(2,3) f(3)] by blast
  obtain img w where r: "run_state (pl_resolve (nr_puller nr) (ic_source ic)) (rw_disk s) = (Inr img, w)" "looks (rw_disk s) w"
    using serves_resolve [OF src d(5,4)] by blast
  note w = looks_facts [OF r(2)]
  have "wp (adopt cp n) (\<lambda>x _. x = None) w"
    by (rule adopt_calm [OF _ d(2,3) _ _ e(2,3)]) (use w d l e(1) f(3) in simp_all)
  then have a: "wp (adopt cp n) (\<lambda>y w'. wp (case y of
       Some e \<Rightarrow> State_Monad.return (Inl (Wrap ErrSync (Some e) []))
     | None \<Rightarrow> do { eventf ic Adopted; State_Monad.return (Inr True) })
     (\<lambda>x s'. x = Inr True \<or> x = Inr False \<and> looks (rw_disk s) (rw_disk s')) (s\<lparr>rw_disk := w'\<rparr>)) w"
    by (rule wp_mono) (simp add: wp_rules)
  have "wp (adopt_seeded nr ic (sn_record sn)) Q s = wp (if rec_layers (sn_record sn) = [] \<or> rec_layers (sn_record sn) \<noteq> id_layers img
       then State_Monad.return (Inr False)
       else do {
         x \<leftarrow> on_disk (adopt cp n);
         case x of
           Some e \<Rightarrow> State_Monad.return (Inl (Wrap ErrSync (Some e) []))
         | None \<Rightarrow> do { eventf ic Adopted; State_Monad.return (Inr True) } }) Q (s\<lparr>rw_disk := w\<rparr>)" for Q
    unfolding adopt_seeded_def wp_bind wp_on_disk cp [symmetric] n [symmetric] by (simp add: wp_def r(1))
  then show ?thesis using a r(2) by (simp add: wp_rules)
qed

lemma converge_one_calm:
  assumes src: "image_source (nr_puller nr)" and cp: "cp = nr_cache_path nr" and n: "n = ic_name ic"
    and d: "dir_at (root (rw_disk s)) cp" "clean_path cp" "plain n" "calm (rw_disk s)" "before_lock (nr_store nr) = None"
    and f: "dir_at r0 cp" "tidy (lookup r0 (cp @ [n]))" and l: "lookup (root (rw_disk s)) (cp @ [n]) = lookup r0 (cp @ [n])"
    and v: "fresh_draws (rw_disk s) cp n" "serves (nr_puller nr) (ic_source ic)"
    and seeds: "\<And>rec. map_of (pn_seeded p) n = Some rec \<Longrightarrow> \<exists>sn. found_complete checks r0 cp n sn \<and> rec = sn_record sn"
  shows "wp (converge_one nr ic p) (\<lambda>p' _. pn_errs p' = pn_errs p) s"
proof -
  have sync: "wp (sync_one nr ic p) (\<lambda>p' _. pn_errs p' = pn_errs p) s1" if s1: "looks (rw_disk s) (rw_disk s1)" for s1
  proof -
    note w = looks_facts [OF s1]
    have "wp (sync nr ic) (\<lambda>x _. x = None) s1"
      by (rule sync_calm [OF src cp n _ d(2,3) _ d(5) _ _ v(2)])
        (use w d f(2) l v fresh_draws_cong [of "rw_disk s" "rw_disk s1"] in \<open>simp_all add: tidy_def\<close>)
    then show ?thesis unfolding sync_one_def wp_bind by (rule wp_mono) (simp add: wp_rules set_want_def)
  qed
  have "wp (adopt_seeded nr ic rec) (\<lambda>a. wp (case a of
              Inl e \<Rightarrow> do { eventf ic AdoptFailed; State_Monad.return (add_err e p) }
            | Inr adopted \<Rightarrow>
                if adopted then State_Monad.return (set_want n status_synced p)
                else sync_one nr ic p) (\<lambda>p' _. pn_errs p' = pn_errs p)) s" if m: "map_of (pn_seeded p) n = Some rec" for rec
  proof -
    obtain sn where sn: "found_complete checks r0 cp n sn" "rec = sn_record sn" using seeds [OF m] by blast
    show ?thesis
      unfolding sn(2)
      by (rule wp_mono [OF adopt_seeded_calm [OF src cp n d(1-4) v(2) sn(1) f l]]) (use sync in \<open>auto simp: wp_rules set_want_def\<close>)
  qed
  with sync [OF look.step_refl] show ?thesis
    unfolding converge_one_def n [symmetric] by (auto simp: wp_rules split: option.split)
qed

text \<open>What the loop needs of each resource it has not reached yet.\<close>

definition ready :: "('a, 'f) node_reconciler \<Rightarrow> node \<Rightarrow> sworld \<Rightarrow> image_cache \<Rightarrow> bool" where
  "ready nr r0 w ic \<longleftrightarrow> lookup (root w) (nr_cache_path nr @ [ic_name ic]) = lookup r0 (nr_cache_path nr @ [ic_name ic])
     \<and> fresh_draws w (nr_cache_path nr) (ic_name ic) \<and> serves (nr_puller nr) (ic_source ic)"

lemma ready_step:
  assumes "step_on (nr_cache_path nr) {m} s s'" "dir_at (root (rw_disk s)) (nr_cache_path nr)" "ic_name ic \<noteq> m" "\<not> is_temporary m"
    and "\<not> is_temporary (ic_name ic)" "ready nr r0 (rw_disk s) ic"
  shows "ready nr r0 (rw_disk s') ic"
proof -
  have f: "pass_frame (nr_cache_path nr) {m} (root (rw_disk s)) (root (rw_disk s'))" "same_env (rw_disk s) (rw_disk s')"
    using assms(1) by (simp_all add: step_on_def)
  show ?thesis
    using pass_frame_other [OF f(1) assms(3,5)] fresh_draws_frame [OF f assms(2) _ assms(4), of "ic_name ic"] assms(3,6) by (auto simp: ready_def)
qed

lemma converge_calm:
  assumes src: "image_source (nr_puller nr)" and cp: "cp = nr_cache_path nr"
    and c: "clean_path cp" "before_lock (nr_store nr) = None" "dir_at r0 cp"
  shows "\<forall>ic \<in> set js. plain (ic_name ic) \<and> \<not> is_temporary (ic_name ic) \<and> tidy (lookup r0 (cp @ [ic_name ic])) \<Longrightarrow>
    distinct (map ic_name js) \<Longrightarrow> dir_at (root (rw_disk s)) cp \<Longrightarrow> calm (rw_disk s) \<Longrightarrow> \<forall>ic \<in> set js. ready nr r0 (rw_disk s) ic \<Longrightarrow>
    \<forall>n rec. map_of (pn_seeded p) n = Some rec \<longrightarrow> (\<exists>sn. found_complete checks r0 cp n sn \<and> rec = sn_record sn \<and> rec_owner rec \<noteq> owner_agent) \<Longrightarrow>
    wp (converge nr js p) (\<lambda>p' _. pn_errs p' = pn_errs p) s"
proof (induction js arbitrary: p s)
  case Nil
  then show ?case by (simp add: wp_rules)
next
  case (Cons ic js)
  let ?n = "ic_name ic"
  have ic: "plain ?n" "\<not> is_temporary ?n" "tidy (lookup r0 (cp @ [?n]))" using Cons.prems(1) by auto
  have rd: "lookup (root (rw_disk s)) (cp @ [?n]) = lookup r0 (cp @ [?n])" "fresh_draws (rw_disk s) cp ?n" "serves (nr_puller nr) (ic_source ic)"
    using Cons.prems(5) by (simp_all add: ready_def cp)
  have seeds: "\<exists>sn. found_complete checks r0 cp ?n sn \<and> rec = sn_record sn \<and> rec_owner rec \<noteq> owner_agent"
    if "map_of (pn_seeded p) ?n = Some rec" for rec using Cons.prems(6) that by blast
  have "wp (converge_one nr ic p) (\<lambda>p' s'. pn_errs p' = pn_errs p \<and> step_on cp {?n} s s' \<and> turn (nr_puller nr) checks cp r0 ic p p' (root (rw_disk s'))) s"
    unfolding wp_conj
  proof (rule conjI)
    show "wp (converge_one nr ic p) (\<lambda>p' _. pn_errs p' = pn_errs p) s"
      by (rule converge_one_calm [OF src cp refl Cons.prems(3) c(1) ic(1) Cons.prems(4) c(2,3) ic(3) rd]) (use seeds in blast)
    have "wp (converge_one nr ic p) (\<lambda>p' s'. step_on cp {?n} s s' \<and> turn (nr_puller nr) checks cp r0 ic p p' (root (rw_disk s')) \<and> (p' = p \<longrightarrow> s' = s)) s"
      by (rule converge_one_spec [OF src cp refl Cons.prems(3) c(1) ic(1) calm_honest [OF Cons.prems(4)] c(2,3) ic(3) rd(1)]) (rule seeds)
    then show "wp (converge_one nr ic p) (\<lambda>p'. step_on cp {?n} s) s \<and>
        wp (converge_one nr ic p) (\<lambda>p' s'. turn (nr_puller nr) checks cp r0 ic p p' (root (rw_disk s'))) s"
      unfolding wp_conj by simp
  qed
  then show ?case
    unfolding converge.simps wp_bind
  proof (rule wp_mono, goal_cases)
    case (1 p1 s1)
    have seeded: "pn_seeded p1 = pn_seeded p" using 1 by (auto simp: turn_def add_err_def set_want_def)
    have d1: "dir_at (root (rw_disk s1)) cp" "calm (rw_disk s1)"
      using 1 Cons.prems(3,4) same_env_calm by (auto simp: step_on_def pass_frame_def)
    have "ready nr r0 (rw_disk s1) jc" if "jc \<in> set js" for jc
    proof (rule ready_step [of nr ?n s])
      show "ic_name jc \<noteq> ?n" using Cons.prems(2) imageI [OF that, of ic_name] by auto
    qed (use 1 that Cons.prems ic in \<open>auto simp: cp\<close>)
    then have "wp (converge nr js p1) (\<lambda>p' _. pn_errs p' = pn_errs p1) s1"
      by (intro Cons.IH) (use Cons.prems d1 seeded in auto)
    then show ?case using 1 by (auto elim: wp_mono)
  qed
qed

subsection \<open>The survey and the end of the pass\<close>

lemma read_record_calm:
  "faultless w \<Longrightarrow> expected_state checks (root w) cp n = (Complete, None) \<Longrightarrow> wp (read_record cp n) (\<lambda>x _. \<exists>rec. x = Inr rec) w"
  by (auto simp: read_record_def read_sentinel_def wp_rules wp_read_file expected_state_def split: sum.splits option.splits if_splits)

lemma survey_one_calm:
  assumes "clean_path cp" "plain n" "truthful_under cp w" "calm w" "snd (expected_state (memory w \<noteq> None) (root w) cp n) = None"
  shows "wp (survey_one cp n p) (\<lambda>p' _. pn_errs p' = pn_errs p) w"
proof -
  let ?c = "memory w \<noteq> None"
  have sd: "prefix cp (store_dir cp n)" using assms(1,2) by (simp add: store_dir_def join_plain)
  have "truthful_under (store_dir cp n) w" using assms(3) prefix_order.le_less_trans [OF sd] unfolding truthful_under_def by metis
  from state_of_faultless [OF calm_faultless [OF assms(4)] assms(1) this] show ?thesis
    unfolding survey_one_def Let_def wp_bind
  proof (rule wp_mono, goal_cases)
    case (1 x w1)
    then have w1: "root w1 = root w" "calm w1" using assms(4) same_env_calm by (auto simp: tends_def)
    then have x: "x = expected_state ?c (root w) cp n" using 1 calm_not_done by blast
    have "wp (read_record cp n) (\<lambda>x _. \<exists>rec. x = Inr rec) w1" if "fst x = Complete"
      by (rule read_record_calm [OF calm_faultless [OF w1(2)], of ?c]) (use x w1 assms(5) that in \<open>simp add: prod_eq_iff\<close>)
    moreover have "snd x = None" using x assms(5) by simp
    ultimately show ?case
      by (cases x) (auto simp: wp_rules set_want_def elim!: wp_mono)
  qed
qed

lemma survey_calm:
  "clean_path cp \<Longrightarrow> list_all (\<lambda>ic. plain (ic_name ic)) ics \<Longrightarrow> truthful_under cp w \<Longrightarrow> surveyed (memory w \<noteq> None) cp (root w) D p \<Longrightarrow> calm w \<Longrightarrow>
   \<forall>ic \<in> set ics. snd (expected_state (memory w \<noteq> None) (root w) cp (ic_name ic)) = None \<Longrightarrow>
   wp (survey cp ics p) (\<lambda>p' _. pn_errs p' = pn_errs p) w"
proof (induction ics arbitrary: p w D)
  case Nil
  then show ?case by (simp add: wp_rules)
next
  case (Cons ic ics)
  have ic: "plain (ic_name ic)" using Cons.prems by simp
  have "wp (survey_one cp (ic_name ic) p) (\<lambda>p' w'. pn_errs p' = pn_errs p \<and> tends w w' \<and> same_kind w w' \<and> truthful_under cp w' \<and>
      surveyed (memory w \<noteq> None) cp (root w) (insert (ic_name ic) D) p') w"
    unfolding wp_conj [of _ "\<lambda>p' _. pn_errs p' = pn_errs p"]
    using survey_one_calm [OF Cons.prems(1) ic Cons.prems(3,5)] survey_one_spec [OF Cons.prems(1) ic Cons.prems(3,4)] Cons.prems(6) by simp
  then show ?case
    unfolding survey.simps wp_bind
  proof (rule wp_mono, goal_cases)
    case (1 p1 w1)
    then have w1: "root w1 = root w" "(memory w1 \<noteq> None) = (memory w \<noteq> None)" "calm w1"
      using Cons.prems(5) same_env_calm by (auto simp: tends_def same_kind_def)
    have "wp (survey cp ics p1) (\<lambda>p' _. pn_errs p' = pn_errs p1) w1"
      by (rule Cons.IH) (use Cons.prems 1 w1 in auto)
    then show ?case using 1 by (auto elim: wp_mono)
  qed
qed

text \<open>A cache path with nothing left to collect.\<close>

definition collected_clean :: "path \<Rightarrow> string set \<Rightarrow> sworld \<Rightarrow> bool" where
  "collected_clean cp D w \<longleftrightarrow> orderly (root w) cp \<and> (\<forall>n v. lookup (root w) (cp @ [n]) = Some v \<longrightarrow>
     survives (locks w) (\<lambda>n. n \<in> D) n v \<and> \<not> unreadable (\<lambda>n. n \<in> D) n v)"

lemma collected_clean_looks: "looks w w' \<Longrightarrow> collected_clean cp D w' = collected_clean cp D w"
  by (simp add: collected_clean_def looks_def)

lemma gc_calm:
  assumes o: "orderly (root w) cp" and c: "calm w" and u: "\<And>n v. lookup (root w) (cp @ [n]) = Some v \<Longrightarrow> \<not> unreadable (\<lambda>n. n \<in> D) n v"
  shows "wp (gc cp (\<lambda>n. n \<in> D)) (\<lambda>(_, e) w'. e = None \<and> collected_clean cp D w') w"
proof (rule wpI)
  fix x w' assume run: "run_state (gc cp (\<lambda>n. n \<in> D)) w = (x, w')"
  obtain rm e where x: "x = (rm, e)" by (cases x)
  have d: "dir_at (root w) cp" using o by (simp add: orderly_def)
  have e: "e = None" and l: "\<And>n. lookup (root w') (cp @ [n]) = (if n \<in> set rm then None else lookup (root w) (cp @ [n]))"
    and ew: "elsewhere cp (set rm) (root w) (root w')" "locks w' = locks w"
    and rm: "rm = filter (\<lambda>n. \<not> survives (locks w) (\<lambda>n. n \<in> D) n (the (lookup (root w) (cp @ [n])))) (names (entries_at (root w) cp))"
    using gc_removes [OF o calm_faultless [OF c] run [unfolded x]] u by auto
  have d': "dir_at (root w') cp" using ew(1) d by (simp add: elsewhere_def)
  have old: "lookup (root w) (cp @ [n]) = Some v \<and> n \<notin> set rm" if "lookup (root w') (cp @ [n]) = Some v" for n v
    using that l by (simp split: if_splits)
  have "orderly (root w') cp"
    unfolding orderly_iff using d' o orderly_entry [OF o] old
    by (auto simp: orderly_def lookup_entry [OF d, symmetric] lookup_entry [OF d', symmetric])
  moreover have "survives (locks w') (\<lambda>n. n \<in> D) n v" if "lookup (root w') (cp @ [n]) = Some v" for n v
    using old [OF that] map_of_Some_name [of "entries_at (root w) cp" n v] unfolding rm ew(2) lookup_entry [OF d] by auto
  moreover have "\<not> unreadable (\<lambda>n. n \<in> D) n v" if "lookup (root w') (cp @ [n]) = Some v" for n v using old [OF that] u by simp
  ultimately have "collected_clean cp D w'" by (simp add: collected_clean_def)
  then show "(case x of (_, e) \<Rightarrow> \<lambda>w'. e = None \<and> collected_clean cp D w') w'" by (simp add: x e)
qed

text \<open>A server that accepts every patch and answers with the labels asked for; the labels the node then
  has are those of the last request.\<close>

definition accepts :: "('a, 'f) node_reconciler \<Rightarrow> bool" where
  "accepts nr \<longleftrightarrow> (\<forall>b l sv. fst (cl_patch (nr_client nr) (nr_node nr) b l sv) = Inr l)"

definition labels_now :: "labels \<Rightarrow> (labels \<times> labels) list \<Rightarrow> labels" where
  "labels_now node ps = (if ps = [] then node else snd (last ps))"

lemma labels_now_append: "labels_now node (ps @ qs) = labels_now (labels_now node ps) qs"
  by (simp add: labels_now_def)

lemma patch_calm:
  assumes "accepts nr" "named_values want" "distinct (map fst want)"
  shows "wp (patch_labels nr node want) (\<lambda>x s'. rw_disk s' = rw_disk s \<and> (\<exists>ps. rw_sent s' = rw_sent s @ ps \<and> x = (labels_now node ps, None)
    \<and> (\<forall>n. map_of (labels_now node ps) (label_prefix @ n) = map_of want n))) s"
proof -
  obtain l ch where a: "apply_status_labels node want = (l, ch)" by fastforce
  have m: "map_of l (label_prefix @ n) = map_of want n" for n using apply_status_labels_map [OF assms(2,3) a, of "label_prefix @ n"] by simp
  show ?thesis
  proof (cases ch)
    case False
    then have "map_of l = map_of node" using apply_status_labels_changed [OF assms(2,3) a] by simp
    with m False show ?thesis by (simp add: wp_patch_labels a) (auto simp: labels_now_def intro!: exI [of _ "[]"])
  next
    case True
    obtain r sv where r: "cl_patch (nr_client nr) (nr_node nr) node l (rw_server s) = (r, sv)" by fastforce
    then have "r = Inr l" using assms(1) unfolding accepts_def by (metis fst_conv)
    with m True r show ?thesis by (simp add: wp_patch_labels a) (auto simp: labels_now_def)
  qed
qed

lemma finish_calm:
  assumes o: "orderly (root (rw_disk s)) cp" and c: "calm (rw_disk s)" "accepts nr" and cp: "cp = nr_cache_path nr"
    and u: "\<And>n v. lookup (root (rw_disk s)) (cp @ [n]) = Some v \<Longrightarrow> \<not> unreadable (\<lambda>n. n \<in> set (pn_keep p)) n v"
    and p: "named_values (pn_want p)" "distinct (map fst (pn_want p))" "pn_errs p = []"
  shows "wp (do {
     (_, e2) \<leftarrow> on_disk (gc cp (\<lambda>n. n \<in> set (pn_keep p)));
     (_, e3) \<leftarrow> patch_labels nr node (pn_want p);
     set_watches nr;
     State_Monad.return (case new_aggregate (map Some (pn_errs p) @ [e2, e3]) of Some e \<Rightarrow> Inl e | None \<Rightarrow> Inr (nr_resync nr)) })
   (\<lambda>x s'. x = Inr (nr_resync nr) \<and> collected_clean cp (set (pn_keep p)) (rw_disk s') \<and> (\<exists>ps. rw_sent s' = rw_sent s @ ps \<and>
      (\<forall>n. map_of (labels_now node ps) (label_prefix @ n) = map_of (pn_want p) n))) s"
  unfolding wp_bind wp_on_disk
proof (rule wp_mono [OF gc_calm [OF o c(1) u]], assumption, goal_cases)
  case (1 y w3)
  then obtain rm where y: "y = (rm, None)" and cc: "collected_clean cp (set (pn_keep p)) w3" by (cases y) auto
  show ?case
    unfolding y prod.case wp_bind
  proof (rule wp_mono [OF patch_calm [OF c(2) p(1,2)]], goal_cases)
    case (1 z s3)
    then obtain ps where s3: "rw_sent s3 = rw_sent s @ ps" "z = (labels_now node ps, None)" "rw_disk s3 = w3"
      "\<forall>n. map_of (labels_now node ps) (label_prefix @ n) = map_of (pn_want p) n" by auto
    show ?case
      unfolding s3(2) prod.case wp_bind
      by (rule wp_mono [OF wp_set_watches]) (use s3 p(3) cc collected_clean_looks in \<open>auto simp: wp_return new_aggregate_def\<close>)
  qed
qed

text \<open>A world in which a pass can do its work.\<close>

definition able :: "('a, 'f) node_reconciler \<Rightarrow> image_cache list \<Rightarrow> sworld \<Rightarrow> bool" where
  "able nr ics w \<longleftrightarrow> calm w \<and> accepts nr
     \<and> (\<forall>ic \<in> set ics. serves (nr_puller nr) (ic_source ic) \<and> fresh_draws w (nr_cache_path nr) (ic_name ic)
          \<and> snd (expected_state (memory w \<noteq> None) (root w) (nr_cache_path nr) (ic_name ic)) = None)
     \<and> (\<forall>n v. lookup (root w) (nr_cache_path nr @ [n]) = Some v \<longrightarrow> \<not> unreadable (\<lambda>n. n \<in> ic_name ` set ics) n v)"

text \<open>What the loop leaves outside the resources is as readable as before.\<close>

lemma readable_frame:
  assumes "pass_frame cp D r r'" "\<And>n v. lookup r (cp @ [n]) = Some v \<Longrightarrow> \<not> unreadable (\<lambda>n. n \<in> D) n v" "lookup r' (cp @ [n]) = Some v"
  shows "\<not> unreadable (\<lambda>n. n \<in> D) n v"
proof (cases "n \<in> D")
  case True
  then show ?thesis by (simp add: unreadable_def named_def)
next
  case False
  show ?thesis
  proof (cases "lookup r (cp @ [n])")
    case None
    with assms(1,3) False obtain m k where "n = temp_name m k" by (auto simp: pass_frame_def)
    then show ?thesis by (simp add: unreadable_def split: node.split)
  next
    case (Some u)
    with assms(1,3) False have "u = v" by (auto simp: pass_frame_def)
    with Some assms(2) show ?thesis by blast
  qed
qed

lemma loop_calm:
  assumes src: "image_source (nr_puller nr)" and a: "admissible nr ics w" "able nr ics w" and cp: "cp = nr_cache_path nr" and r: "r = root w"
    and ch: "ch = (memory w \<noteq> None)" and w1: "root (rw_disk s) = r" "same_env w (rw_disk s)"
    and p: "surveyed ch cp r (ic_name ` set ics) p" "pn_errs p = []"
  shows "wp (converge nr ics p) (\<lambda>p' s'. pn_errs p' = [] \<and> step_on cp (ic_name ` set ics) s s' \<and>
    converging (nr_puller nr) ch cp r ics p' (root (rw_disk s')) \<and>
    (\<forall>ic \<in> set ics. map_of (pn_want p') (ic_name ic) = Some status_synced)) s"
proof -
  let ?P = "\<lambda>p' s'. step_on cp (ic_name ` set ics) s s' \<and> converging (nr_puller nr) ch cp r ics p' (root (rw_disk s')) \<and>
    (\<forall>m. map_of (pn_want p) m = Some status_synced \<longrightarrow> map_of (pn_want p') m = Some status_synced) \<and> (pn_errs p \<noteq> [] \<longrightarrow> pn_errs p' \<noteq> []) \<and>
    (pn_errs p' = [] \<longrightarrow> (\<forall>ic \<in> set ics. map_of (pn_want p') (ic_name ic) = Some status_synced))"
  have o: "dir_at r cp" "clean_path cp" "before_lock (nr_store nr) = None" "distinct (map ic_name ics)"
    and ok: "\<forall>ic \<in> set ics. plain (ic_name ic) \<and> \<not> is_temporary (ic_name ic) \<and> tidy (lookup r (cp @ [ic_name ic]))"
    using a(1) by (auto simp: admissible_def orderly_def cp r)
  have c: "calm (rw_disk s)" "honest (rw_disk s)" "dir_at (root (rw_disk s)) cp"
    using a(2) same_env_calm [OF w1(2)] calm_honest o(1) w1(1) by (auto simp: able_def)
  have rd: "\<forall>ic \<in> set ics. ready nr r (rw_disk s) ic"
    using a(2) w1 fresh_draws_cong [OF w1(2)] by (simp add: able_def ready_def r)
  have cv: "converging (nr_puller nr) ch cp r ics p (root (rw_disk s))" unfolding w1(1) by (rule surveyed_converging [OF p(1)])
  have "wp (converge nr ics p) ?P s"
    by (rule converge_spec [OF src cp o(2,3,1,4) ok subset_refl o(4) c(3,2) _ cv]) (simp add: w1(1))
  moreover have "wp (converge nr ics p) (\<lambda>p' _. pn_errs p' = pn_errs p) s"
    by (rule converge_calm [OF src cp o(2,3,1) ok o(4) c(3,1) rd, where checks = ch]) (use p(1) in \<open>simp add: surveyed_def\<close>)
  ultimately have "wp (converge nr ics p) (\<lambda>p' s'. pn_errs p' = pn_errs p \<and> ?P p' s') s" by (simp only: wp_conj)
  then show ?thesis by (rule wp_mono) (use p(2) in auto)
qed

lemma run_pass_calm:
  assumes src: "image_source (nr_puller nr)" and a: "admissible nr ics (rw_disk s)" "able nr ics (rw_disk s)"
  shows "wp (run_pass nr node ics) (\<lambda>x s'. x = Inr (nr_resync nr) \<and> collected_clean (nr_cache_path nr) (ic_name ` set ics) (rw_disk s') \<and>
    (\<exists>ps. rw_sent s' = rw_sent s @ ps \<and> (\<forall>n. map_of (labels_now node ps) (label_prefix @ n) =
      (if n \<in> ic_name ` set ics then Some status_synced else None)))) s"
proof -
  define cp where "cp = nr_cache_path nr"
  define r where "r = root (rw_disk s)"
  define ch where "ch = (memory (rw_disk s) \<noteq> None)"
  let ?pl = "nr_puller nr" and ?D = "ic_name ` set ics"
  have o: "orderly r cp" "clean_path cp" and t: "truthful_under cp (rw_disk s)" and ok: "\<forall>ic \<in> set ics. plain (ic_name ic)"
    using a(1) by (auto simp: admissible_def orderly_def cp_def r_def)
  have c: "calm (rw_disk s)" "accepts nr" and ex: "\<forall>ic \<in> set ics. snd (expected_state ch r cp (ic_name ic)) = None"
    and u: "\<And>n v. lookup r (cp @ [n]) = Some v \<Longrightarrow> \<not> unreadable (\<lambda>n. n \<in> ?D) n v"
    using a(2) unfolding able_def cp_def [symmetric] r_def [symmetric] ch_def [symmetric] by blast+
  have sv: "wp (survey cp ics empty_plan) (\<lambda>p w'. pn_errs p = pn_errs empty_plan \<and> tends (rw_disk s) w' \<and> same_kind (rw_disk s) w' \<and>
      truthful_under cp w' \<and> surveyed ch cp r ({} \<union> ?D) p) (rw_disk s)"
    unfolding wp_conj [of _ "\<lambda>p _. pn_errs p = pn_errs empty_plan"] ch_def r_def
    using survey_calm [OF o(2) _ t surveyed_empty c(1)] survey_spec [OF o(2) _ t surveyed_empty] ok ex
    by (simp add: list_all_iff ch_def r_def)
  show ?thesis
    unfolding run_pass_def wp_bind wp_on_disk cp_def [symmetric]
  proof (rule wp_mono [OF sv], goal_cases)
    case (1 p1 w1)
    then have w1: "root w1 = r" "same_env (rw_disk s) w1" and p1: "surveyed ch cp r ?D p1" "pn_errs p1 = []"
      by (auto simp: tends_def r_def empty_plan_def)
    note wv = wanted_values [OF surveyed_converging [OF p1(1), of ?pl]]
    show ?case
    proof (rule wp_mono [OF patch_calm [OF c(2) wv]], goal_cases)
      case (1 x s1)
      then obtain ps1 where s1: "rw_disk s1 = w1" "rw_sent s1 = rw_sent s @ ps1" "x = (labels_now node ps1, None)" by auto
      have "wp (converge nr ics p1) (\<lambda>p' s'. pn_errs p' = [] \<and> step_on cp ?D s1 s' \<and> converging ?pl ch cp r ics p' (root (rw_disk s')) \<and>
          (\<forall>ic \<in> set ics. map_of (pn_want p') (ic_name ic) = Some status_synced)) s1"
        by (rule loop_calm [OF src a cp_def r_def ch_def _ _ p1]) (simp_all add: s1(1) w1)
      then show ?case
        unfolding s1(3) prod.case wp_bind add_err_opt_def option.case
      proof (rule wp_mono, goal_cases)
        case (1 p2 s2)
        then have so: "step_on cp ?D s1 s2" and cv: "converging ?pl ch cp r ics p2 (root (rw_disk s2))" by auto
        have fr: "pass_frame cp ?D r (root (rw_disk s2))" and c2: "calm (rw_disk s2)"
          using so s1 w1 c same_env_calm [of "rw_disk s" w1] same_env_calm [of w1 "rw_disk s2"] by (auto simp: step_on_def)
        have K: "set (pn_keep p2) = ?D" using cv by (simp add: converging_def)
        have own: "\<forall>n \<in> ?D. plain n \<and> own_at cp n (root (rw_disk s2))"
          using so s1 w1 ok o orderly_entry [OF o(1)] by (auto simp: step_on_def own_at_def orderly_def lookup_entry split: option.splits)
        show ?case
          unfolding wp_bind [symmetric]
        proof (rule wp_mono [OF finish_calm [OF orderly_after [OF o(1) fr own] c2 c(2) cp_def _ wanted_values [OF cv]]], goal_cases)
          case (1 n v)
          then show ?case using readable_frame [OF fr u] by (simp add: K)
        next
          case (3 x s3)
          then obtain ps2 where ps2: "rw_sent s3 = rw_sent s2 @ ps2"
            "\<forall>n. map_of (labels_now (labels_now node ps1) ps2) (label_prefix @ n) = map_of (pn_want p2) n" by blast
          have "map_of (pn_want p2) n = (if n \<in> ?D then Some status_synced else None)" for n
            using \<open>pn_errs p2 = [] \<and> _\<close> cv by (auto simp: converging_def map_of_eq_None_iff)
          with ps2 3 so s1(2) show ?case
            by (intro conjI exI [of _ "ps1 @ ps2"]) (auto simp: labels_now_append step_on_def K cp_def)
        qed (use 1 in simp)
      qed
    qed
  qed
qed

subsection \<open>Properties\<close>

text \<open>C25: A pass that reports success has done its work: whatever calls failed on the way, the next pass is due
  after the resync interval, and every selected resource has its directory, kept, adopted or
  filled from the image its source names.\<close>

theorem reconcile_success:
  assumes "nr_puller nr = remote_puller lib rm" "cl_get (nr_client nr) (nr_node nr) (rw_server s) = Inr node"
    and "cl_list (nr_client nr) (rw_server s) = Inr items" "admissible nr (selected node items) (rw_disk s)"
    and run: "run_state (reconcile nr) s = (Inr t, s')"
  shows "t = nr_resync nr \<and> (\<forall>ic \<in> set (selected node items).
    settled (nr_puller nr) (memory (rw_disk s) \<noteq> None) (nr_cache_path nr) (root (rw_disk s)) ic (root (rw_disk s')))"
proof -
  have "image_source (nr_puller nr)" using assms(1) rp.image_source_axioms by simp
  from wpD [OF reconcile_spec [OF this assms(2-4)] run] show ?thesis by (simp add: pass_ends_def)
qed

text \<open>One pass is enough: when no call fails, the sources serve whole images, the server accepts the
  patches and nothing unreadable lies in the cache path.\<close>

lemma reconcile_calm:
  assumes "image_source (nr_puller nr)" "cl_get (nr_client nr) (nr_node nr) (rw_server s) = Inr node"
    and "cl_list (nr_client nr) (rw_server s) = Inr items" "admissible nr (selected node items) (rw_disk s)" "able nr (selected node items) (rw_disk s)"
  shows "wp (reconcile nr) (\<lambda>x s'. x = Inr (nr_resync nr) \<and>
    collected_clean (nr_cache_path nr) (ic_name ` set (selected node items)) (rw_disk s') \<and>
    (\<exists>ps. rw_sent s' = rw_sent s @ ps \<and> (\<forall>n. map_of (labels_now node ps) (label_prefix @ n) =
      (if n \<in> ic_name ` set (selected node items) then Some status_synced else None)))) s"
  using run_pass_calm [OF assms(1,4,5), of node] assms(2,3) by (simp add: reconcile_def wp_rules selected_def)

lemma sample_serves_remote: "source \<noteq> [] \<Longrightarrow> serves (remote_puller sample_library \<lparr>rm_transport = None, rm_plain_http = False\<rparr>) source"
  unfolding serves_def
proof (intro allI impI)
  fix w :: sworld
  let ?pl = "remote_puller sample_library \<lparr>rm_transport = None, rm_plain_http = False\<rparr>"
  assume "source \<noteq> []" "calm w"
  then have "wp (pl_pull ?pl source) (\<lambda>x _. \<exists>p i. x = Inr (p, i) \<and> whole (pd_entries p) (pd_end p)) w"
    using whole_sample
    by (simp add: remote_puller_def puller_of_def remote_open_def wp_rules identified_def sample_pulled [unfolded sample_library_def] sample_library_def)
  then show "\<exists>p i w'. run_state (pl_pull ?pl source) w = (Inr (p, i), w') \<and> whole (pd_entries p) (pd_end p)"
    by (cases "run_state (pl_pull ?pl source) w") (auto dest: wpD)
qed

lemma sample_able: "able sample_reconciler [boot_cache] (cache_world [] None)"
proof -
  have "snd (expected_state False (root (cache_world [] None)) [''cache''] ''boot'') = None"
    using wpD [OF state_of_faultless state_sample] by (auto simp: truthful_no_memory ctx_done_def cache_world_def faultless_def plain_def dest: sym)
  moreover have "serves (nr_puller sample_reconciler) (ic_source boot_cache)"
    using sample_serves_remote by (simp add: boot_cache_def)
  ultimately show ?thesis
    by (auto simp: able_def accepts_def fresh_draws_def sample_reconciler_def sample_cluster_def lookup_entry)
qed

theorem reconcile_success_witness:
  "\<exists>s'. run_state (reconcile sample_reconciler) (sample_pass []) = (Inr 3600, s') \<and>
     settled (nr_puller sample_reconciler) False [''cache''] (root (cache_world [] None)) boot_cache (root (rw_disk s'))"
proof -
  have a: "admissible sample_reconciler (selected [] [boot_cache]) (rw_disk (sample_pass []))"
    using sample_admissible [of "[]"] by (simp add: orderly_def plain_def)
  have b: "able sample_reconciler (selected [] [boot_cache]) (rw_disk (sample_pass []))" using sample_able by simp
  have src: "image_source (nr_puller sample_reconciler)" using rp.image_source_axioms by simp
  obtain x s' where run: "run_state (reconcile sample_reconciler) (sample_pass []) = (x, s')" by fastforce
  from wpD [OF reconcile_calm [OF src sample_pass_simps(2,3) a b] run] have x: "x = Inr 3600" by simp
  from reconcile_success [OF sample_pass_simps(1,2,3) a run [unfolded x]] run x show ?thesis by simp
qed

text \<open>C26: One pass is enough. When no call fails, each source serves a whole image, the server accepts what it is
  asked, and the cache path holds nothing that cannot be read, a pass reports success, and the labels
  of the node then say synced for every resource that selects it, and each has its directory.\<close>

theorem reconcile_converges:
  assumes "nr_puller nr = remote_puller lib rm" "cl_get (nr_client nr) (nr_node nr) (rw_server s) = Inr node"
    and "cl_list (nr_client nr) (rw_server s) = Inr items" "admissible nr (selected node items) (rw_disk s)" "able nr (selected node items) (rw_disk s)"
  shows "\<exists>s' ps. run_state (reconcile nr) s = (Inr (nr_resync nr), s') \<and> rw_sent s' = rw_sent s @ ps \<and>
    (\<forall>ic \<in> set (selected node items). map_of (labels_now node ps) (label_prefix @ ic_name ic) = Some status_synced \<and>
      settled (nr_puller nr) (memory (rw_disk s) \<noteq> None) (nr_cache_path nr) (root (rw_disk s)) ic (root (rw_disk s')))"
proof -
  have src: "image_source (nr_puller nr)" using assms(1) rp.image_source_axioms by simp
  obtain x s' where run: "run_state (reconcile nr) s = (x, s')" by fastforce
  from wpD [OF reconcile_calm [OF src assms(2-5)] run] wpD [OF reconcile_spec [OF src assms(2-4)] run] run
  show ?thesis by (auto simp: pass_ends_def)
qed

theorem reconcile_converges_witness:
  "\<exists>s' ps. run_state (reconcile sample_reconciler) (sample_pass []) = (Inr 3600, s') \<and> rw_sent s' = ps \<and>
     map_of (labels_now [] ps) (label_prefix @ ''boot'') = Some status_synced"
proof -
  have a: "admissible sample_reconciler (selected [] [boot_cache]) (rw_disk (sample_pass []))"
    using sample_admissible [of "[]"] by (simp add: orderly_def plain_def)
  have b: "able sample_reconciler (selected [] [boot_cache]) (rw_disk (sample_pass []))" using sample_able by simp
  from reconcile_converges [OF sample_pass_simps(1,2,3) a b] show ?thesis by auto
qed

end
