(* ===== verification/PassSteady.thy ===== *)
theory PassSteady
  imports PassLiveness
begin

section \<open>A converged node is left alone\<close>

text \<open>
  A node is at rest when every resource that selects it has its directory, complete and the agent's own, its
  labels say so and nothing else, and nothing in the cache path is left to collect. A pass over such a
  node looks and does nothing: it pulls nothing, writes nothing, requests nothing. And a pass that meets no
  failure brings the node there, so the next one is idle.
\<close>

subsection \<open>A collection with nothing to collect\<close>

lemma gc_entries_rest:
  assumes "root w = with_entries r0 cp rs" "dir_at r0 cp" "clean_path cp" "honest w" "distinct (map fst es)"
    "\<forall>(n, v) \<in> set es. map_of rs n = Some v \<and> plain n \<and> own_sentinel n v \<and> survives (locks w) keep n v"
  shows "wp (gc_entries cp keep es) (\<lambda>_ w'. root w' = root w) w"
  using assms
proof (induction es arbitrary: w)
  case Nil
  then show ?case by (simp add: wp_rules)
next
  case (Cons a es)
  obtain n v where a: "a = (n, v)" by (cases a)
  have nv: "map_of rs n = Some v" "plain n" "own_sentinel n v" "survives (locks w) keep n v" using Cons.prems(6) a by auto
  show ?case
    unfolding a gc_entries.simps wp_bind
  proof (rule wp_mono [OF gc_entry_in [OF Cons.prems(1-3) nv(2,1,3) Cons.prems(4)]], goal_cases)
    case (1 x w1)
    obtain ok e where x: "x = (ok, e)" by (cases x)
    with 1 nv have w1: "root w1 = root w" "same_env w w1" "locks w1 = locks w" by (auto simp: Cons.prems(1) update_triv)
    have "wp (gc_entries cp keep es) (\<lambda>_ w'. root w' = root w1) w1"
      by (rule Cons.IH) (use Cons.prems w1 same_env_honest in auto)
    then show ?case unfolding x prod.case wp_bind by (rule wp_mono) (simp add: wp_rules w1(1) split: prod.split)
  qed
qed

lemma gc_rest:
  assumes o: "orderly (root w) cp" and h: "honest w" and s: "\<And>n v. lookup (root w) (cp @ [n]) = Some v \<Longrightarrow> survives (locks w) keep n v"
  shows "wp (gc cp keep) (\<lambda>_ w'. root w' = root w) w"
proof -
  let ?rs = "entries_at (root w) cp"
  have d: "dir_at (root w) cp" "clean_path cp" using o by (simp_all add: orderly_def)
  have r: "root (tock w) = with_entries (root w) cp ?rs" using d(1) by simp
  have "wp (gc_entries cp keep (listing ?rs)) (\<lambda>_ w'. root w' = root (tock w)) (tock w)"
    by (rule gc_entries_rest [OF r d])
      (use d(1) h listing_facts [where es = ?rs] orderly_entry [OF o] s in \<open>auto simp: honest_def lookup_entry\<close>)
  then show ?thesis
    by (auto simp: gc_def wp_rules wp_read_dir wp_bind_eq readdir_entries [OF d] listing_def [symmetric] elim!: wp_mono
        split: option.split)
qed

text \<open>A collection at most forgets digests.\<close>

definition forgets :: "sworld \<Rightarrow> sworld \<Rightarrow> bool" where
  "forgets w w' \<longleftrightarrow> (case memory w of
     None \<Rightarrow> memory w' = None
   | Some c \<Rightarrow> (\<exists>c'. memory w' = Some c' \<and> sracy c' = sracy c \<and> sentries c' \<subseteq>\<^sub>m sentries c))"

interpretation fg: preorder_steps forgets
proof
  show "forgets w w" for w by (auto simp: forgets_def split: option.split)
  show "forgets u v \<Longrightarrow> forgets v w \<Longrightarrow> forgets u w" for u v w
    by (auto simp: forgets_def split: option.splits intro: map_le_trans)
qed

lemma along_forgets_quiet: "along quiet m \<Longrightarrow> along forgets m"
  by (auto simp: along_def quiet_def forgets_def split: option.split)

lemmas along_forgets_calls = along_quiet_queries [THEN along_forgets_quiet] along_quiet_changes [THEN along_forgets_quiet]

lemma along_forgets_locks: "along forgets (flock_nb i)" "along forgets (close_locked i)"
  by (auto simp: along_iff_wp flock_nb_def close_locked_def wp_mutate forgets_def split: option.split)

lemma along_forgets_forget: "along forgets (forget p)"
  by (auto simp: along_iff_wp forget_def wp_modify forgets_def map_le_def forget_under_def split: option.split)

lemma along_forgets_gc: "along forgets (gc cp keep)"
proof -
  have "along forgets (gc_entries cp keep es)" for es
    by (induction es) (auto simp: gc_entry_def gc_remove_def remove_temporary_def seeded_def
        intro!: fg.along_intros along_forgets_calls along_forgets_locks along_forgets_forget split: bool.split)
  then show ?thesis by (auto simp: gc_def intro!: fg.along_intros along_forgets_calls)
qed

lemma forgets_truthful: "forgets w w' \<Longrightarrow> root w' = root w \<Longrightarrow> truthful_under d w \<Longrightarrow> truthful_under d w'"
  by (auto simp: forgets_def truthful_under_def map_le_def split: option.splits) (metis domI)

subsection \<open>A pass over a node at rest\<close>

definition kept_own :: "bool \<Rightarrow> path \<Rightarrow> node \<Rightarrow> string \<Rightarrow> bool" where
  "kept_own checks cp r n \<longleftrightarrow> (\<exists>sn. found_complete checks r cp n sn \<and> rec_owner (sn_record sn) = owner_agent)"

definition at_rest :: "('a, 'f) node_reconciler \<Rightarrow> image_cache list \<Rightarrow> labels \<Rightarrow> sworld \<Rightarrow> bool" where
  "at_rest nr ics node w \<longleftrightarrow>
     (\<forall>ic \<in> set ics. kept_own (memory w \<noteq> None) (nr_cache_path nr) (root w) (ic_name ic))
     \<and> (\<forall>n. map_of node (label_prefix @ n) = (if n \<in> ic_name ` set ics then Some status_synced else None))
     \<and> collected_clean (nr_cache_path nr) (ic_name ` set ics) w"

lemma gc_rest_all:
  assumes cc: "collected_clean cp D w" and c: "calm w"
  shows "wp (gc cp (\<lambda>n. n \<in> D)) (\<lambda>x w'. snd x = None \<and> root w' = root w \<and> forgets w w' \<and> same_env w w' \<and> locks w' = locks w) w"
proof -
  have h: "honest w" by (rule calm_honest [OF c])
  have o: "orderly (root w) cp" and l: "\<And>n v. lookup (root w) (cp @ [n]) = Some v \<Longrightarrow> survives (locks w) (\<lambda>n. n \<in> D) n v \<and> \<not> unreadable (\<lambda>n. n \<in> D) n v"
    using cc by (auto simp: collected_clean_def)
  have "wp (gc cp (\<lambda>n. n \<in> D)) (\<lambda>x w'. snd x = None) w" by (rule wp_mono [OF gc_calm [OF o c]]) (use l in auto)
  moreover have "wp (gc cp (\<lambda>n. n \<in> D)) (\<lambda>x w'. root w' = root w) w" by (rule gc_rest [OF o h]) (simp add: l)
  moreover have "wp (gc cp (\<lambda>n. n \<in> D)) (\<lambda>x w'. same_env w w' \<and> locks w' = locks w) w" by (rule wp_mono [OF gc_in [OF o h]]) auto
  ultimately show ?thesis using fg.along_wp [OF along_forgets_gc] by (simp add: wp_conj)
qed

text \<open>What the survey makes of a complete directory.\<close>

lemma survey_one_found:
  assumes "clean_path cp" "plain n" "truthful_under cp w" "calm w" "found_complete (memory w \<noteq> None) (root w) cp n sn"
  shows "wp (survey_one cp n p) (\<lambda>p' _. p' = (let q = set_want n status_pending (p\<lparr>pn_keep := List.insert n (pn_keep p)\<rparr>) in
    if rec_owner (sn_record sn) \<noteq> owner_agent then q\<lparr>pn_seeded := AList.update n (sn_record sn) (pn_seeded q)\<rparr> else set_want n status_synced q)) w"
proof -
  let ?c = "memory w \<noteq> None"
  have sn: "expected_state ?c (root w) cp n = (Complete, None)" "recorded (root w) cp n = Some sn"
    using assms(5) by (auto simp: found_complete_def)
  have sd: "prefix cp (store_dir cp n)" using assms(1,2) by (simp add: store_dir_def join_plain)
  have "truthful_under (store_dir cp n) w" using assms(3) prefix_order.le_less_trans [OF sd] unfolding truthful_under_def by metis
  from state_of_faultless [OF calm_faultless [OF assms(4)] assms(1) this] show ?thesis
    unfolding survey_one_def Let_def wp_bind
  proof (rule wp_mono, goal_cases)
    case (1 x w1)
    then have w1: "root w1 = root w" "calm w1" using assms(4) same_env_calm by (auto simp: tends_def)
    then have x: "x = (Complete, None)" using 1 calm_not_done sn(1) by fastforce
    have "wp (read_record cp n) (\<lambda>x _. x = Inr (sn_record sn)) w1"
      using calm_faultless [OF w1(2)] sn(2) w1(1)
      by (auto simp: read_record_def read_sentinel_def wp_rules wp_read_file recorded_def split: sum.splits)
    then show ?case unfolding x by (auto simp: wp_rules elim!: wp_mono)
  qed
qed

lemma survey_one_rest:
  assumes "clean_path cp" "plain n" "truthful_under cp w" "calm w" "kept_own (memory w \<noteq> None) cp (root w) n"
  shows "wp (survey_one cp n p) (\<lambda>p' _. map_of (pn_want p') = (map_of (pn_want p))(n \<mapsto> status_synced)) w"
proof -
  obtain sn where "found_complete (memory w \<noteq> None) (root w) cp n sn" "rec_owner (sn_record sn) = owner_agent"
    using assms(5) by (auto simp: kept_own_def)
  then show ?thesis
    by (intro wp_mono [OF survey_one_found [OF assms(1-4)]]) (auto simp: set_want_def Let_def)
qed

lemma survey_rest:
  "clean_path cp \<Longrightarrow> list_all (\<lambda>ic. plain (ic_name ic)) ics \<Longrightarrow> truthful_under cp w \<Longrightarrow> calm w \<Longrightarrow> surveyed (memory w \<noteq> None) cp (root w) D p \<Longrightarrow>
   \<forall>ic \<in> set ics. kept_own (memory w \<noteq> None) cp (root w) (ic_name ic) \<Longrightarrow>
   wp (survey cp ics p) (\<lambda>p' _. \<forall>n. map_of (pn_want p') n = (if n \<in> ic_name ` set ics then Some status_synced else map_of (pn_want p) n)) w"
proof (induction ics arbitrary: p w D)
  case Nil
  then show ?case by (simp add: wp_rules)
next
  case (Cons ic ics)
  have ic: "plain (ic_name ic)" using Cons.prems by simp
  have "wp (survey_one cp (ic_name ic) p) (\<lambda>p' w'. map_of (pn_want p') = (map_of (pn_want p))(ic_name ic \<mapsto> status_synced) \<and> tends w w' \<and>
      same_kind w w' \<and> truthful_under cp w' \<and> surveyed (memory w \<noteq> None) cp (root w) (insert (ic_name ic) D) p') w"
    unfolding wp_conj [of _ "\<lambda>p' _. map_of (pn_want p') = _"]
    using survey_one_rest [OF Cons.prems(1) ic Cons.prems(3,4)] survey_one_spec [OF Cons.prems(1) ic Cons.prems(3,5)] Cons.prems(6) by simp
  then show ?case
    unfolding survey.simps wp_bind
  proof (rule wp_mono, goal_cases)
    case (1 p1 w1)
    then have w1: "root w1 = root w" "(memory w1 \<noteq> None) = (memory w \<noteq> None)" "calm w1"
      using Cons.prems(4) same_env_calm by (auto simp: tends_def same_kind_def)
    have "wp (survey cp ics p1) (\<lambda>p' _. \<forall>n. map_of (pn_want p') n =
        (if n \<in> ic_name ` set ics then Some status_synced else map_of (pn_want p1) n)) w1"
      by (rule Cons.IH) (use Cons.prems 1 w1 in auto)
    then show ?case by (rule wp_mono) (use 1 in auto)
  qed
qed

lemma converge_rest: "\<forall>ic \<in> set ics. map_get (pn_want p) (ic_name ic) = status_synced \<Longrightarrow> wp (converge nr ics p) (\<lambda>p' s'. p' = p \<and> s' = s) s"
  by (induction ics) (simp_all add: wp_rules converge_one_def)

lemma patch_rest:
  assumes "named_values want" "distinct (map fst want)" "\<And>n. map_of node (label_prefix @ n) = map_of want n"
  shows "wp (patch_labels nr node want) (\<lambda>x s'. x = (node, None) \<and> s' = s) s"
proof -
  obtain l ch where a: "apply_status_labels node want = (l, ch)" by fastforce
  have "map_of l = map_of node"
  proof
    fix k show "map_of l k = map_of node k"
      using apply_status_labels_map [OF assms(1,2) a, of k] assms(3) [of "trim_prefix k label_prefix"] has_prefix_trim [of k label_prefix] by auto
  qed
  then have "\<not> ch" using apply_status_labels_changed [OF assms(1,2) a] by simp
  then show ?thesis by (simp add: wp_patch_labels a)
qed

definition idle :: "('a, 'f) rworld \<Rightarrow> ('a, 'f) rworld \<Rightarrow> bool" where
  "idle s s' \<longleftrightarrow> same_env (rw_disk s) (rw_disk s') \<and> root (rw_disk s') = root (rw_disk s) \<and> locks (rw_disk s') = locks (rw_disk s)
     \<and> same_kind (rw_disk s) (rw_disk s') \<and> rw_sent s' = rw_sent s \<and> rw_server s' = rw_server s \<and> rw_events s' = rw_events s"

lemma along_kind_forgets: "forgets w w' \<Longrightarrow> same_kind w w'"
  by (auto simp: forgets_def same_kind_def split: option.splits)

lemma run_pass_rest:
  assumes a: "admissible nr ics (rw_disk s)" and c: "calm (rw_disk s)" and r: "at_rest nr ics node (rw_disk s)"
  shows "wp (run_pass nr node ics) (\<lambda>x s'. x = Inr (nr_resync nr) \<and> idle s s' \<and> truthful_under (nr_cache_path nr) (rw_disk s')) s"
proof -
  define cp where "cp = nr_cache_path nr"
  let ?w = "rw_disk s" and ?D = "ic_name ` set ics"
  let ?ch = "memory ?w \<noteq> None"
  have o: "orderly (root ?w) cp" "clean_path cp" and t: "truthful_under cp ?w" and ok: "list_all (\<lambda>ic. plain (ic_name ic)) ics"
    using a by (auto simp: admissible_def orderly_def cp_def list_all_iff)
  have own: "\<forall>ic \<in> set ics. kept_own ?ch cp (root ?w) (ic_name ic)"
    and node: "\<And>n. map_of node (label_prefix @ n) = (if n \<in> ?D then Some status_synced else None)"
    and left: "collected_clean cp ?D ?w"
    using r unfolding at_rest_def cp_def by blast+
  have ex: "\<forall>ic \<in> set ics. snd (expected_state ?ch (root ?w) cp (ic_name ic)) = None"
    using own by (auto simp: kept_own_def found_complete_def)
  have "wp (survey cp ics empty_plan) (\<lambda>p w'. (\<forall>n. map_of (pn_want p) n = (if n \<in> ?D then Some status_synced else map_of (pn_want empty_plan) n)) \<and>
      pn_errs p = pn_errs empty_plan \<and> tends ?w w' \<and> same_kind ?w w' \<and> truthful_under cp w' \<and> surveyed ?ch cp (root ?w) ({} \<union> ?D) p) ?w"
    unfolding wp_conj [of _ "\<lambda>p _. \<forall>n. map_of (pn_want p) n = _ n"] wp_conj [of _ "\<lambda>p _. pn_errs p = pn_errs empty_plan"]
    using survey_rest [OF o(2) ok t c surveyed_empty own] survey_calm [OF o(2) ok t surveyed_empty c ex] survey_spec [OF o(2) ok t surveyed_empty]
    by simp
  then show ?thesis
    unfolding run_pass_def wp_bind wp_on_disk cp_def [symmetric]
  proof (rule wp_mono, goal_cases)
    case (1 p w1)
    then have w1: "root w1 = root ?w" "same_env ?w w1" "locks w1 = locks ?w" "same_kind ?w w1" "truthful_under cp w1"
      and p: "surveyed ?ch cp (root ?w) ?D p" "pn_errs p = []" and want: "map_of (pn_want p) n = (if n \<in> ?D then Some status_synced else None)" for n
      by (auto simp: tends_def empty_plan_def)
    note wv = wanted_values [OF surveyed_converging [OF p(1)]]
    have nw: "map_of node (label_prefix @ n) = map_of (pn_want p) n" for n by (simp add: node want)
    have K: "set (pn_keep p) = ?D" using p(1) by (simp add: surveyed_def)
    have c1: "calm w1" using same_env_calm [OF w1(2)] c by simp
    have l1: "collected_clean cp ?D w1" using left w1(1,3) by (simp add: collected_clean_def)
    have fin: "wp (do {
       (_, e2) \<leftarrow> on_disk (gc cp (\<lambda>n. n \<in> set (pn_keep p)));
       (_, e3) \<leftarrow> patch_labels nr node (pn_want p);
       set_watches nr;
       State_Monad.return (case new_aggregate (map Some (pn_errs p) @ [e2, e3]) of Some e \<Rightarrow> Inl e | None \<Rightarrow> Inr (nr_resync nr)) })
      (\<lambda>x s'. x = Inr (nr_resync nr) \<and> idle s s' \<and> truthful_under cp (rw_disk s')) (s\<lparr>rw_disk := w1\<rparr>)"
      unfolding wp_bind wp_on_disk K
    proof (simp, rule wp_mono [OF gc_rest_all [OF l1 c1]], goal_cases)
      case (1 x w2)
      note w2 = this
      then obtain rm where x: "x = (rm, None)" by (cases x) auto
      show ?case
        unfolding x prod.case wp_bind
      proof (rule wp_mono [OF patch_rest [OF wv nw]], goal_cases)
        case (1 y s3)
        then have s3: "y = (node, None)" "s3 = s\<lparr>rw_disk := w2\<rparr>" by simp_all
        have t2: "truthful_under cp w2" using w2 forgets_truthful w1(5) by blast
        have sk: "same_kind ?w w2" using w2 along_kind_forgets w1(4) kd.step_trans by blast
        show ?case
          unfolding s3 prod.case wp_bind
        proof (rule wp_mono [OF wp_set_watches], goal_cases)
          case (1 z s4)
          then have l: "looks w2 (rw_disk s4)" by simp
          have "truthful_under cp (rw_disk s4)" using looks_truthful [OF l t2] .
          moreover have "same_kind ?w (rw_disk s4)" using sk l by (simp add: looks_def same_kind_def)
          moreover have "same_env ?w (rw_disk s4)" using l w2 w1(2) by (auto simp: looks_def intro: env.step_trans)
          ultimately show ?case
            using 1 w2 p(2) w1(1,3) by (simp add: wp_return new_aggregate_def idle_def looks_def)
        qed
      qed
    qed
    show ?case
    proof (rule wp_mono [OF patch_rest [OF wv nw]], goal_cases)
      case (1 x s1)
      then have s1: "x = (node, None)" "s1 = s\<lparr>rw_disk := w1\<rparr>" by simp_all
      have "wp (converge nr ics p) (\<lambda>p' s'. p' = p \<and> s' = s1) s1"
        by (rule converge_rest) (simp add: map_get_def want)
      then show ?case
        unfolding s1 prod.case wp_bind add_err_opt_def option.case
      proof (rule wp_mono, goal_cases)
        case (1 p' s')
        then show ?case using fin by (simp add: wp_bind)
      qed
    qed
  qed
qed

text \<open>On a node at rest the pass that leaves the convergence out is the pass; and it has no puller to call.\<close>

definition watch_only :: "('a, 'f) node_reconciler \<Rightarrow> labels \<Rightarrow> image_cache list \<Rightarrow> (('a, 'f) rworld, int res) state" where
  "watch_only nr node desired = do {
     p1 \<leftarrow> on_disk (survey (nr_cache_path nr) desired empty_plan);
     (node1, e1) \<leftarrow> patch_labels nr node (pn_want p1);
     let p2 = add_err_opt e1 p1;
     (_, e2) \<leftarrow> on_disk (gc (nr_cache_path nr) (\<lambda>n. n \<in> set (pn_keep p2)));
     (_, e3) \<leftarrow> patch_labels nr node1 (pn_want p2);
     set_watches nr;
     State_Monad.return (case new_aggregate (map Some (pn_errs p2) @ [e2, e3]) of Some e \<Rightarrow> Inl e | None \<Rightarrow> Inr (nr_resync nr))
   }"

lemma watch_only_puller: "watch_only (nr\<lparr>nr_puller := pl\<rparr>) node ics = watch_only nr node ics"
proof -
  have "patch_labels (nr\<lparr>nr_puller := pl\<rparr>) = patch_labels nr"
    by (intro ext) (simp add: patch_labels_def split: prod.split)
  moreover have "set_watches (nr\<lparr>nr_puller := pl\<rparr>) = set_watches nr"
    by (simp add: set_watches_def cong: option.case_cong)
  ultimately show ?thesis by (simp add: watch_only_def cong: prod.case_cong option.case_cong)
qed

lemma run_pass_watch_only:
  assumes a: "admissible nr ics (rw_disk s)" and c: "calm (rw_disk s)" and r: "at_rest nr ics node (rw_disk s)"
  shows "run_state (run_pass nr node ics) s = run_state (watch_only nr node ics) s"
proof -
  let ?cp = "nr_cache_path nr" and ?w = "rw_disk s"
  obtain p1 w1 where sv: "run_state (survey ?cp ics empty_plan) ?w = (p1, w1)" by fastforce
  have ok: "clean_path ?cp" "list_all (\<lambda>ic. plain (ic_name ic)) ics" "truthful_under ?cp ?w"
    using a by (auto simp: admissible_def orderly_def list_all_iff)
  have own: "\<forall>ic \<in> set ics. kept_own (memory ?w \<noteq> None) ?cp (root ?w) (ic_name ic)" using r by (simp add: at_rest_def)
  have want: "map_of (pn_want p1) n = (if n \<in> ic_name ` set ics then Some status_synced else map_of (pn_want empty_plan) n)" for n
    using wpD [OF survey_rest [OF ok c surveyed_empty own] sv] by simp
  have cv: "run_state (converge nr ics (add_err_opt e p1)) t = (add_err_opt e p1, t)" for e t
  proof -
    have "map_get (pn_want (add_err_opt e p1)) (ic_name ic) = status_synced" if "ic \<in> set ics" for ic
      using that want by (cases e) (simp_all add: add_err_opt_def add_err_def map_get_def)
    from converge_rest [OF ballI [OF this]] show ?thesis by (simp add: wp_run prod_eq_iff)
  qed
  show ?thesis
    by (simp add: run_pass_def watch_only_def bind_def on_disk_def sv cv Let_def split: prod.split)
qed

lemma reconcile_any_puller:
  assumes "cl_get (nr_client nr) (nr_node nr) (rw_server s) = Inr node" "cl_list (nr_client nr) (rw_server s) = Inr items"
    and "admissible nr (selected node items) (rw_disk s)" "calm (rw_disk s)" "at_rest nr (selected node items) node (rw_disk s)"
  shows "run_state (reconcile (nr\<lparr>nr_puller := pl\<rparr>)) s = run_state (reconcile nr) s"
proof -
  let ?nr = "nr\<lparr>nr_puller := pl\<rparr>"
  have "run_state (run_pass ?nr node (selected node items)) s = run_state (run_pass nr node (selected node items)) s"
    using run_pass_watch_only [OF assms(3-5)] run_pass_watch_only [of ?nr "selected node items" s node] assms(3-5)
    by (simp add: watch_only_puller admissible_def at_rest_def)
  then show ?thesis by (simp add: reconcile_def wp_rules bind_def State_Monad.get_def assms(1,2) selected_def)
qed

lemma idle_rest:
  assumes i: "idle s s'" "truthful_under (nr_cache_path nr) (rw_disk s')" and a: "admissible nr ics (rw_disk s)" "calm (rw_disk s)" "at_rest nr ics node (rw_disk s)"
  shows "admissible nr ics (rw_disk s') \<and> calm (rw_disk s') \<and> at_rest nr ics node (rw_disk s')"
  using assms same_env_calm [of "rw_disk s" "rw_disk s'"] calm_honest
  by (auto simp: idle_def admissible_def at_rest_def collected_clean_def same_kind_def)

subsection \<open>A pass brings the node to rest\<close>

text \<open>What the pass must find for that: images whose names and sizes JSON keeps, and directories of regular
  files, none of them named like the file an adoption writes through.\<close>

definition flat :: "(string \<times> node) list \<Rightarrow> bool" where
  "flat es \<longleftrightarrow> (\<forall>c m. map_of es c = Some m \<longrightarrow> is_regular m)"

definition plain_names :: "sentinel \<Rightarrow> bool" where
  "plain_names sn \<longleftrightarrow> list_all plain (list_of (sn_files sn)) \<and> sentinel_name \<notin> fr_name ` set (rec_content (sn_record sn))"

definition flat_at :: "node \<Rightarrow> path \<Rightarrow> string \<Rightarrow> bool" where
  "flat_at r cp n \<longleftrightarrow> (case lookup r (cp @ [n]) of
     Some (Dir i es) \<Rightarrow> flat es \<and> map_of es tmp_sentinel = None \<and>
       (case map_of es sentinel_name of Some (Reg g) \<Rightarrow> (case unmarshal (fdata g) of Some sn \<Rightarrow> plain_names sn | None \<Rightarrow> True) | _ \<Rightarrow> True)
   | _ \<Rightarrow> True)"

definition wholesome :: "('a, 'f) node_reconciler \<Rightarrow> image_cache list \<Rightarrow> node \<Rightarrow> bool" where
  "wholesome nr ics r \<longleftrightarrow> (\<forall>ic \<in> set ics. flat_at r (nr_cache_path nr) (ic_name ic) \<and>
     (\<forall>p i. gives (nr_puller nr) (ic_source ic) p i \<longrightarrow> names_valid (pd_entries p) \<and> sizes_small (pd_entries p)))"

text \<open>The state of a flat directory is a matter of its entries alone.\<close>

lemma flat_stat:
  assumes "dir_at r cp" "clean_path cp" "plain n" "plain c" "lookup r (cp @ [n]) = Some (Dir i es)" "flat es"
  shows "stat_in r (join (store_dir cp n) c) = (case map_of es c of None \<Rightarrow> Inl (Sys ENOENT) | Some m \<Rightarrow> Inr m)"
proof -
  have e: "map_of (entries_at r cp) n = Some (Dir i es)" using assms(1,5) by (simp add: lookup_entry)
  have "\<forall>l. map_of es c \<noteq> Some (Link l)" using assms(6) unfolding flat_def by (metis is_regular.simps(3))
  from node_at_below [OF assms(1-4) e this, of True] assms(2-4) show ?thesis
    by (simp add: stat_in_def lift_errno_def store_dir_def join_plain join_in split: option.split)
qed

lemma file_intact_cong:
  assumes "plain (fr_name f) \<Longrightarrow> stat_in r' (join dir (fr_name f)) = stat_in r (join dir (fr_name f))"
  shows "file_intact r' dir f = file_intact r dir f"
  unfolding file_intact_def using assms by (cases "plain (fr_name f)") simp_all

lemma found_complete_entries:
  assumes r: "dir_at r cp" "clean_path cp" "plain n" "lookup r (cp @ [n]) = Some (Dir i es)" "flat es"
    and g: "map_of es sentinel_name = Some (Reg g)" "unmarshal (fdata g) = Some sn"
  shows "found_complete checks r cp n sn \<longleftrightarrow> sentinel_state checks r (store_dir cp n) sn = Complete"
proof -
  have "read_in r (join (store_dir cp n) sentinel_name) = Inr (fdata g)"
    using flat_stat [OF r(1-3) plain_sentinel_name r(4,5)] g(1) by (simp add: read_in_def)
  then show ?thesis by (simp add: found_complete_def recorded_def expected_state_def g(2))
qed

lemma sentinel_state_cong:
  assumes "rec_content (sn_record sn') = rec_content (sn_record sn)" "sn_files sn' = sn_files sn" "plain_names sn"
    and "\<And>c. plain c \<Longrightarrow> c \<noteq> sentinel_name \<Longrightarrow> stat_in r' (join dir c) = stat_in r (join dir c)"
    and "present r' (join dir sentinel_name)"
  shows "sentinel_state checks r dir sn = Complete \<Longrightarrow> sentinel_state checks r' dir sn' = Complete"
proof -
  have "file_intact r' dir f = file_intact r dir f" if "f \<in> set (rec_content (sn_record sn))" for f
    using assms(3) that by (intro file_intact_cong assms(4)) (auto simp: plain_names_def dest: sym)
  moreover have "present r (join dir c) \<Longrightarrow> present r' (join dir c)" if "c \<in> set (list_of (sn_files sn))" for c
    using assms(3,5) that assms(4) [of c] by (cases "c = sentinel_name") (auto simp: plain_names_def list_all_iff present_def)
  ultimately show "sentinel_state checks r dir sn = Complete \<Longrightarrow> sentinel_state checks r' dir sn' = Complete"
    by (auto simp: sentinel_state_def assms(1,2) list_all_iff split: if_splits)
qed

lemma tidy_flat: "flat es \<Longrightarrow> map_of es tmp_sentinel = None \<Longrightarrow> tidy (Some (Dir i es))"
  unfolding tidy_def direct_def flat_def by (auto dest!: spec [of _ sentinel_name])

lemma published_tidy: "published rec ens es \<Longrightarrow> tidy (Some (Dir i es))"
proof -
  assume "published rec ens es"
  then have r: "is_regular m" if "map_of es c = Some m" for c m using published_regular that by blast
  then have "map_of es sentinel_name \<noteq> Some (Link l)" for l by (metis is_regular.simps(3))
  with r show ?thesis by (auto simp: tidy_def direct_def split: option.split)
qed

text \<open>Kept, adopted or filled: the directory is complete, and the agent's own.\<close>

lemma settled_rest:
  assumes d: "dir_at r0 cp" "dir_at r cp" "clean_path cp" "plain n" "tidy (lookup r0 (cp @ [n]))" and n: "n = ic_name ic"
    and s: "settled pl checks cp r0 ic r" and f: "flat_at r0 cp n"
    and im: "\<And>p i. gives pl (ic_source ic) p i \<Longrightarrow> names_valid (pd_entries p) \<and> sizes_small (pd_entries p)"
  shows "kept_own checks cp r n \<and> tidy (lookup r (cp @ [n]))"
proof -
  consider (kept) "kept_from checks cp r0 ic r" | (adopted) "adopted_from pl checks cp r0 ic r" | (filled) "filled_from pl cp ic r"
    using s by (auto simp: settled_def)
  then show ?thesis
  proof cases
    case kept
    then obtain sn where sn: "found_complete checks r0 cp n sn" "rec_owner (sn_record sn) = owner_agent"
      and l: "lookup r (cp @ [n]) = lookup r0 (cp @ [n])" by (auto simp: kept_from_def n)
    obtain i es g where e: "lookup r0 (cp @ [n]) = Some (Dir i es)" "map_of es sentinel_name = Some (Reg g)" "unmarshal (fdata g) = Some sn"
      using found_complete_dir [OF sn(1) d(1,3,4,5)] by blast
    have fl: "flat es" "plain_names sn" using f e by (auto simp: flat_at_def)
    have e': "lookup r (cp @ [n]) = Some (Dir i es)" using e(1) l by simp
    have "sentinel_state checks r (store_dir cp n) sn = Complete"
    proof (rule sentinel_state_cong [OF refl refl fl(2)])
      show "stat_in r (join (store_dir cp n) c) = stat_in r0 (join (store_dir cp n) c)" if "plain c" for c
        using flat_stat [OF d(2,3,4) that e' fl(1)] flat_stat [OF d(1,3,4) that e(1) fl(1)] by simp
      show "present r (join (store_dir cp n) sentinel_name)"
        using flat_stat [OF d(2,3,4) plain_sentinel_name e' fl(1)] e(2) by (simp add: present_def)
      show "sentinel_state checks r0 (store_dir cp n) sn = Complete"
        using sn(1) found_complete_entries [OF d(1,3,4) e(1) fl(1) e(2,3)] by simp
    qed
    then have "found_complete checks r cp n sn" using found_complete_entries [OF d(2,3,4) e' fl(1) e(2,3)] by simp
    with sn(2) l d(5) show ?thesis by (auto simp: kept_own_def)
  next
    case adopted
    then obtain sn i es es' g' where sn: "found_complete checks r0 cp n sn" and e0: "lookup r0 (cp @ [n]) = Some (Dir i es)"
      and e': "lookup r (cp @ [n]) = Some (Dir i es')" and same: "\<And>c. c \<noteq> sentinel_name \<Longrightarrow> c \<noteq> tmp_sentinel \<Longrightarrow> map_of es' c = map_of es c"
      and t': "map_of es' tmp_sentinel = None" and g': "map_of es' sentinel_name = Some (Reg g')" "fdata g' = marshal (set_owner owner_agent sn)"
      by (auto simp: adopted_from_def n)
    obtain g where e: "map_of es sentinel_name = Some (Reg g)" "unmarshal (fdata g) = Some sn"
      using found_complete_dir [OF sn d(1,3,4,5)] e0 by auto
    have fl: "flat es" "plain_names sn" "map_of es tmp_sentinel = None" using f e0 e by (auto simp: flat_at_def)
    have all: "map_of es' c = map_of es c" if "c \<noteq> sentinel_name" for c using that same t' fl(3) by (cases "c = tmp_sentinel") auto
    have fl': "flat es'"
      unfolding flat_def
    proof (intro allI impI)
      fix c m assume "map_of es' c = Some m"
      then show "is_regular m" using all [of c] fl(1) g'(1) by (cases "c = sentinel_name") (auto simp: flat_def)
    qed
    have u: "unmarshal (fdata g') = Some (set_owner owner_agent sn)" using unmarshal_set_owner [OF e(2) seeded_ascii(3)] g'(2) by simp
    have "sentinel_state checks r (store_dir cp n) (set_owner owner_agent sn) = Complete"
    proof (rule sentinel_state_cong [OF _ _ fl(2)])
      show "stat_in r (join (store_dir cp n) c) = stat_in r0 (join (store_dir cp n) c)" if "plain c" "c \<noteq> sentinel_name" for c
        using flat_stat [OF d(2,3,4) that(1) e' fl'] flat_stat [OF d(1,3,4) that(1) e0 fl(1)] all [OF that(2)] by simp
      show "present r (join (store_dir cp n) sentinel_name)"
        using flat_stat [OF d(2,3,4) plain_sentinel_name e' fl'] g'(1) by (simp add: present_def)
      show "sentinel_state checks r0 (store_dir cp n) sn = Complete"
        using sn found_complete_entries [OF d(1,3,4) e0 fl(1) e] by simp
    qed (simp_all add: set_owner_def)
    then have "found_complete checks r cp n (set_owner owner_agent sn)" using found_complete_entries [OF d(2,3,4) e' fl' g'(1) u] by simp
    moreover have "tidy (lookup r (cp @ [n]))" unfolding e' by (rule tidy_flat [OF fl' t'])
    ultimately show ?thesis by (auto simp: kept_own_def set_owner_def)
  next
    case filled
    then obtain p i where p: "gives pl (ic_source ic) p i" "whole (pd_entries p) (pd_end p)"
      "holds_image r cp n (fill_record owner_agent (ic_source ic) i) (pd_entries p)" by (auto simp: filled_from_def n)
    let ?rec = "fill_record owner_agent (ic_source ic) i"
    have a: "acceptable (pd_entries p) (pd_end p)" using p(2) by (simp add: whole_def)
    have ex: "expected_state checks r cp n = (Complete, None)" using image_complete [OF p(3) a d(3,4)] im [OF p(1)] by blast
    have "recorded r cp n = Some (sanitize_sentinel (sentinel_for ?rec (map file_of (wanted (pd_entries p)))))"
      using holds_image_read [OF p(3) a d(3,4)] image_sentinel im [OF p(1)] by (simp add: recorded_def)
    moreover have "rec_owner (sn_record (sanitize_sentinel (sentinel_for ?rec fs))) = owner_agent" for fs
      by (simp add: sanitize_sentinel_def sentinel_for_def Let_def sanitize_valid seeded_ascii)
    ultimately have "kept_own checks cp r n" using ex by (auto simp: kept_own_def found_complete_def)
    moreover obtain j es where "lookup r (cp @ [n]) = Some (Dir j es)" "published ?rec (pd_entries p) es"
      using p(3) by (auto simp: holds_image_def lookup_entry)
    ultimately show ?thesis using published_tidy by auto
  qed
qed

lemma admissible_rest:
  assumes a: "admissible nr ics w" and cc: "collected_clean (nr_cache_path nr) D w'"
    and t: "\<And>ic. ic \<in> set ics \<Longrightarrow> tidy (lookup (root w') (nr_cache_path nr @ [ic_name ic]))"
    and u: "root u = root w'" "calm u" "truthful_under (nr_cache_path nr) u"
  shows "admissible nr ics u"
  using assms calm_honest [OF u(2)] by (simp add: admissible_def collected_clean_def)

lemma comes_to_rest:
  assumes "nr_puller nr = remote_puller lib rm" "cl_get (nr_client nr) (nr_node nr) (rw_server s) = Inr node"
    and "cl_list (nr_client nr) (rw_server s) = Inr items" "admissible nr (selected node items) (rw_disk s)" "able nr (selected node items) (rw_disk s)"
    and w: "wholesome nr (selected node items) (root (rw_disk s))"
    and run: "run_state (reconcile nr) s = (x, s1)" "rw_sent s1 = rw_sent s @ ps"
    and t: "root (rw_disk t) = root (rw_disk s1)" "locks (rw_disk t) = locks (rw_disk s1)" "same_kind (rw_disk s) (rw_disk t)"
      "calm (rw_disk t)" "truthful_under (nr_cache_path nr) (rw_disk t)"
    and sel: "selected node' items' = selected node items" "\<And>n. map_of node' (label_prefix @ n) = map_of (labels_now node ps) (label_prefix @ n)"
  shows "x = Inr (nr_resync nr)" "admissible nr (selected node' items') (rw_disk t)" "at_rest nr (selected node' items') node' (rw_disk t)"
proof -
  let ?ics = "selected node items" and ?cp = "nr_cache_path nr"
  have src: "image_source (nr_puller nr)" using assms(1) rp.image_source_axioms by simp
  from wpD [OF reconcile_calm [OF src assms(2-5)] run(1)] run(2)
  have x: "x = Inr (nr_resync nr)" and cc: "collected_clean ?cp (ic_name ` set ?ics) (rw_disk s1)"
    and lb: "\<And>n. map_of (labels_now node ps) (label_prefix @ n) = (if n \<in> ic_name ` set ?ics then Some status_synced else None)" by auto
  from wpD [OF reconcile_spec [OF src assms(2-4)] run(1)] x
  have se: "\<And>ic. ic \<in> set ?ics \<Longrightarrow> settled (nr_puller nr) (memory (rw_disk s) \<noteq> None) ?cp (root (rw_disk s)) ic (root (rw_disk s1))"
    by (simp add: pass_ends_def)
  have d: "dir_at (root (rw_disk s)) ?cp" "dir_at (root (rw_disk s1)) ?cp" "clean_path ?cp"
    using assms(4) cc by (auto simp: admissible_def collected_clean_def orderly_def)
  have own: "kept_own (memory (rw_disk s) \<noteq> None) ?cp (root (rw_disk s1)) (ic_name ic) \<and> tidy (lookup (root (rw_disk s1)) (?cp @ [ic_name ic]))"
    if ic: "ic \<in> set ?ics" for ic
    by (rule settled_rest [OF d _ _ refl se [OF ic]]) (use assms(4) w ic in \<open>auto simp: admissible_def wholesome_def\<close>)
  show "x = Inr (nr_resync nr)" by (rule x)
  show "admissible nr (selected node' items') (rw_disk t)"
    unfolding sel(1) by (rule admissible_rest [OF assms(4) cc _ t(1,4,5)]) (use own in blast)
  show "at_rest nr (selected node' items') node' (rw_disk t)"
    unfolding at_rest_def sel using own lb t(1,2,3) cc by (auto simp: same_kind_def collected_clean_def)
qed

lemma reconcile_rest:
  assumes "cl_get (nr_client nr) (nr_node nr) (rw_server s) = Inr node" "cl_list (nr_client nr) (rw_server s) = Inr items"
    and a: "admissible nr (selected node items) (rw_disk s)" "calm (rw_disk s)" "at_rest nr (selected node items) node (rw_disk s)"
  shows "\<exists>s'. run_state (reconcile nr) s = (Inr (nr_resync nr), s') \<and> idle s s' \<and>
    admissible nr (selected node items) (rw_disk s') \<and> calm (rw_disk s') \<and> at_rest nr (selected node items) node (rw_disk s')"
proof -
  obtain x s' where run: "run_state (reconcile nr) s = (x, s')" by fastforce
  have "wp (reconcile nr) (\<lambda>x s'. x = Inr (nr_resync nr) \<and> idle s s' \<and> truthful_under (nr_cache_path nr) (rw_disk s')) s"
    using run_pass_rest [OF a] assms(1,2) by (simp add: reconcile_def wp_rules selected_def)
  from wpD [OF this run] idle_rest [OF _ _ a] run show ?thesis by auto
qed

text \<open>The sample node after its first pass, the agent restarted.\<close>

lemma sample_gives_remote: "gives (nr_puller sample_reconciler) source p i \<Longrightarrow> names_valid (pd_entries p) \<and> sizes_small (pd_entries p)"
proof -
  assume "gives (nr_puller sample_reconciler) source p i"
  then obtain w w' where run: "run_state (pl_pull (nr_puller sample_reconciler) source) w = (Inr (p, i), w')" by (auto simp: gives_def)
  have "wp (pl_pull (nr_puller sample_reconciler) source) (\<lambda>x _. \<forall>p i. x = Inr (p, i) \<longrightarrow> pd_entries p = [tar_file ''images/a.tar'' ''abc'']) w"
    by (cases source) (simp_all add: remote_puller_def puller_of_def remote_open_def wp_rules identified_def
        sample_pulled [unfolded sample_library_def] sample_library_def)
  from wpD [OF this run] sample_valid show ?thesis by simp
qed

lemma sample_admissible_empty: "admissible sample_reconciler (selected [] [boot_cache]) (rw_disk (sample_pass []))"
  using sample_admissible [of "[]"] by (simp add: orderly_def plain_def)

lemma sample_able_empty: "able sample_reconciler (selected [] [boot_cache]) (rw_disk (sample_pass []))"
  using sample_able by simp

lemma sample_wholesome: "wholesome sample_reconciler (selected [] [boot_cache]) (root (rw_disk (sample_pass [])))"
  using sample_gives_remote by (simp add: wholesome_def flat_at_def)

definition settled_labels :: labels where
  "settled_labels = [(label_prefix @ ''boot'', status_synced)]"

lemma sample_selected [simp]: "selected settled_labels [boot_cache] = [boot_cache]"
  by (simp add: selected_def boot_cache_def)

lemma sample_second:
  obtains x s1 ps where "run_state (reconcile sample_reconciler) (sample_pass []) = (x, s1)" "rw_sent s1 = rw_sent (sample_pass []) @ ps"
    "calm (rw_disk s1)" "\<forall>n. map_of settled_labels (label_prefix @ n) = map_of (labels_now [] ps) (label_prefix @ n)"
proof -
  obtain x s1 where run: "run_state (reconcile sample_reconciler) (sample_pass []) = (x, s1)" by fastforce
  note a = sample_admissible_empty and b = sample_able_empty
  have src: "image_source (nr_puller sample_reconciler)" using rp.image_source_axioms by simp
  from wpD [OF reconcile_calm [OF src sample_pass_simps(2,3) a b] run] obtain ps where ps: "rw_sent s1 = rw_sent (sample_pass []) @ ps"
    "\<And>n. map_of (labels_now [] ps) (label_prefix @ n) = (if n = ''boot'' then Some status_synced else None)" by auto
  have "same_env (cache_world [] None) (rw_disk s1)"
    using wpD [OF reconcile_spec [OF src sample_pass_simps(2,3) a] run] by (simp add: pass_ends_def)
  from same_env_calm [OF this] have "calm (rw_disk s1)" by (simp add: calm_def cache_world_def)
  from that [OF run ps(1) this] ps(2) show thesis by (simp add: settled_labels_def)
qed

definition restarted :: "(labels, path set) rworld \<Rightarrow> (labels, path set) rworld" where
  "restarted s = s\<lparr>rw_server := settled_labels, rw_disk := (rw_disk s)\<lparr>memory := None\<rparr>\<rparr>"

lemma restarted_simps [simp]:
  "root (rw_disk (restarted s)) = root (rw_disk s)" "locks (rw_disk (restarted s)) = locks (rw_disk s)"
  "calm (rw_disk (restarted s)) = calm (rw_disk s)" "truthful_under d (rw_disk (restarted s))" "same_kind (cache_world es None) (rw_disk (restarted s))"
  "cl_get (nr_client sample_reconciler) n (rw_server (restarted s)) = Inr settled_labels"
  "cl_list (nr_client sample_reconciler) (rw_server (restarted s)) = Inr [boot_cache]"
  by (simp_all add: restarted_def calm_def truthful_no_memory same_kind_def sample_reconciler_def sample_cluster_def)

lemmas sample_first = sample_pass_simps(1,2,3) sample_admissible_empty sample_able_empty sample_wholesome

subsection \<open>Properties\<close>

text \<open>C12: A converged node is left alone, for good. When every resource that selects the node has its complete directory,
  the agent's own, the labels say synced for these and for nothing else, and nothing is left to
  collect, a pass that meets no failure reports success, changes nothing on disk, asks the server for nothing and
  records no event, and pulls nothing: with any other puller it ends in the very same state. The node is again such
  that the next pass does the same.\<close>

theorem pass_at_rest:
  assumes "cl_get (nr_client nr) (nr_node nr) (rw_server s) = Inr node" "cl_list (nr_client nr) (rw_server s) = Inr items"
    and a: "admissible nr (selected node items) (rw_disk s)" "calm (rw_disk s)" "at_rest nr (selected node items) node (rw_disk s)"
  shows "\<exists>s'. run_state (reconcile nr) s = (Inr (nr_resync nr), s') \<and> idle s s' \<and>
    admissible nr (selected node items) (rw_disk s') \<and> calm (rw_disk s') \<and> at_rest nr (selected node items) node (rw_disk s') \<and>
    (\<forall>pl. run_state (reconcile (nr\<lparr>nr_puller := pl\<rparr>)) s = (Inr (nr_resync nr), s'))"
  using reconcile_rest [OF assms] reconcile_any_puller [OF assms] by auto

theorem pass_at_rest_witness:
  "\<exists>t t'. at_rest sample_reconciler [boot_cache] settled_labels (rw_disk t) \<and> run_state (reconcile sample_reconciler) t = (Inr 3600, t') \<and> idle t t'"
proof -
  obtain x s1 ps where s1: "run_state (reconcile sample_reconciler) (sample_pass []) = (x, s1)" "rw_sent s1 = rw_sent (sample_pass []) @ ps"
    "calm (rw_disk s1)" "\<forall>n. map_of settled_labels (label_prefix @ n) = map_of (labels_now [] ps) (label_prefix @ n)" using sample_second by blast
  have r: "admissible sample_reconciler [boot_cache] (rw_disk (restarted s1))" "at_rest sample_reconciler [boot_cache] settled_labels (rw_disk (restarted s1))"
    using comes_to_rest [OF sample_first s1(1,2), of "restarted s1" settled_labels "[boot_cache]"] s1(3,4) by simp_all
  from pass_at_rest [OF restarted_simps(6,7), of s1] r s1(3) show ?thesis by auto
qed

text \<open>C11: One pass settles a node. After a pass that met no failure, over images and directories whose names JSON can
  write, the next one, by the same agent or by one that was restarted, finds nothing to do, as long
  as nobody touched the disk, the server has the labels it was asked for and lists the same
  resources for the node: it writes nothing to disk, requests nothing, and leaves the node at rest. And it
  pulls and resolves nothing: whatever puller were put in the place of the agent's, one that fails, writes to
  the disk or only lets time pass included, the pass ends with the same result in the very same state of the world.\<close>

theorem second_pass_idle:
  assumes "nr_puller nr = remote_puller lib rm" "cl_get (nr_client nr) (nr_node nr) (rw_server s) = Inr node"
    and "cl_list (nr_client nr) (rw_server s) = Inr items" "admissible nr (selected node items) (rw_disk s)" "able nr (selected node items) (rw_disk s)"
    and w: "wholesome nr (selected node items) (root (rw_disk s))"
    and run: "run_state (reconcile nr) s = (x, s1)" "rw_sent s1 = rw_sent s @ ps"
    and t: "root (rw_disk t) = root (rw_disk s1)" "locks (rw_disk t) = locks (rw_disk s1)" "same_kind (rw_disk s) (rw_disk t)"
      "calm (rw_disk t)" "truthful_under (nr_cache_path nr) (rw_disk t)"
    and sv: "cl_get (nr_client nr) (nr_node nr) (rw_server t) = Inr node'" "cl_list (nr_client nr) (rw_server t) = Inr items'"
    and sel: "selected node' items' = selected node items" "\<And>n. map_of node' (label_prefix @ n) = map_of (labels_now node ps) (label_prefix @ n)"
  shows "x = Inr (nr_resync nr) \<and> (\<exists>t'. run_state (reconcile nr) t = (Inr (nr_resync nr), t') \<and> idle t t' \<and>
    at_rest nr (selected node' items') node' (rw_disk t') \<and>
    (\<forall>pl. run_state (reconcile (nr\<lparr>nr_puller := pl\<rparr>)) t = (Inr (nr_resync nr), t')))"
proof -
  note r = comes_to_rest [OF assms(1-6) run t sel]
  from reconcile_rest [OF sv r(2) t(4) r(3)] obtain t' where
    "run_state (reconcile nr) t = (Inr (nr_resync nr), t')" "idle t t'" "at_rest nr (selected node' items') node' (rw_disk t')" by blast
  with r(1) reconcile_any_puller [OF sv r(2) t(4) r(3)] show ?thesis by simp
qed

text \<open>In the witness the second pass also runs with a puller that would destroy the cache path.\<close>

definition wrecking_puller :: puller where
  "wrecking_puller = \<lparr>pl_pull = (\<lambda>_. do { w \<leftarrow> State_Monad.get; State_Monad.set (w\<lparr>root := Dir 0 []\<rparr>); State_Monad.return (Inl (Msg ''pulled'')) }),
     pl_resolve = (\<lambda>_. State_Monad.return (Inl (Msg ''pulled'')))\<rparr>"

theorem second_pass_idle_witness:
  "\<exists>s1 t'. run_state (reconcile sample_reconciler) (sample_pass []) = (Inr 3600, s1) \<and>
     run_state (reconcile sample_reconciler) (restarted s1) = (Inr 3600, t') \<and> idle (restarted s1) t' \<and>
     run_state (reconcile (sample_reconciler\<lparr>nr_puller := wrecking_puller\<rparr>)) (restarted s1) = (Inr 3600, t')"
proof -
  obtain x s1 ps where s1: "run_state (reconcile sample_reconciler) (sample_pass []) = (x, s1)" "rw_sent s1 = rw_sent (sample_pass []) @ ps"
    "calm (rw_disk s1)" "\<forall>n. map_of settled_labels (label_prefix @ n) = map_of (labels_now [] ps) (label_prefix @ n)" using sample_second by blast
  from second_pass_idle [OF sample_first s1(1,2), of "restarted s1" settled_labels "[boot_cache]"] s1 show ?thesis by auto
qed

end
