(* ===== verification/RawPath.thy ===== *)
theory RawPath
  imports Fill Collect
begin

section \<open>A cache path that is not clean\<close>

text \<open>
  The agent cleans its cache path when it starts, the command uses it as it is given. For a path
  without \<^verbatim>\<open>..\<close> that leads to a directory through no link, the operations of the store
  behave on it as on its clean form, so what is proved for clean paths holds for the command too.
\<close>

definition no_climb :: "path \<Rightarrow> bool" where
  "no_climb p \<longleftrightarrow> ''..'' \<notin> set p \<and> (\<forall>c \<in> set p. slash \<notin> set c)"

lemma clean_rooted_append: "clean_rooted acc (p @ q) = clean_rooted (rev (clean_rooted acc p)) q"
  by (induction acc p rule: clean_rooted.induct) auto

lemma clean_no_climb: "no_climb p \<Longrightarrow> clean p = filter (\<lambda>c. c \<noteq> [] \<and> c \<noteq> ''.'') p"
proof -
  have "''..'' \<notin> set p \<Longrightarrow> clean_rooted acc p = rev acc @ filter (\<lambda>c. c \<noteq> [] \<and> c \<noteq> ''.'') p" for acc
    by (induction acc p rule: clean_rooted.induct) auto
  from this [of "[]"] show "no_climb p \<Longrightarrow> ?thesis" by (simp add: no_climb_def clean_def)
qed

lemma clean_is_clean: "no_climb p \<Longrightarrow> clean_path (clean p)"
  by (rule clean_clean) (simp add: no_climb_def)

lemma join_clean: "no_climb p \<Longrightarrow> join (clean p) n = join p n"
  using clean_rooted_append [of "[]" p "split_on slash n"] clean_rooted_append [of "[]" "clean p" "split_on slash n"] clean_id [OF clean_is_clean]
  by (simp add: join_def clean_def)

lemma store_dir_clean: "no_climb p \<Longrightarrow> store_dir (clean p) n = store_dir p n"
  by (simp add: store_dir_def join_clean)

lemma walk_raw:
  "dir_at r (cur @ filter (\<lambda>c. c \<noteq> [] \<and> c \<noteq> ''.'') p) \<Longrightarrow> no_climb p \<Longrightarrow>
   walk links r follow cur p = Inr (cur @ filter (\<lambda>c. c \<noteq> [] \<and> c \<noteq> ''.'') p)"
proof (induction p arbitrary: cur)
  case (Cons c p)
  have n: "no_climb p" "c \<noteq> ''..''" using Cons.prems(2) by (auto simp: no_climb_def)
  have dc: "dir_at r cur" using dir_at_prefix [OF Cons.prems(1)] .
  show ?case
  proof (cases "c = [] \<or> c = ''.''")
    case True
    with Cons.prems(1) have "dir_at r (cur @ filter (\<lambda>c. c \<noteq> [] \<and> c \<noteq> ''.'') p)" by auto
    from Cons.IH [OF this n(1)] show ?thesis using True dc by (auto simp: walk.simps(2))
  next
    case False
    with Cons.prems(1) have d: "dir_at r ((cur @ [c]) @ filter (\<lambda>c. c \<noteq> [] \<and> c \<noteq> ''.'') p)" by simp
    then obtain i es where "lookup r (cur @ [c]) = Some (Dir i es)" using dir_at_prefix dir_at_iff by metis
    with Cons.IH [OF d n(1)] show ?thesis using False dc n(2) by (simp add: walk.simps(2))
  qed
qed simp

lemma resolve_raw:
  assumes "dir_at r (clean p)" "no_climb p"
  shows "resolve r follow p = Inr (clean p)"
  using walk_raw [of r "[]" p 40 follow] assms clean_no_climb [OF assms(2)] by (simp add: resolve_def)

lemma at_raw:
  assumes "dir_at r (clean p)" "no_climb p"
  shows "stat_in r p = stat_in r (clean p)" "readdir_in r p = readdir_in r (clean p)"
proof -
  show "stat_in r p = stat_in r (clean p)"
    using resolve_raw [OF assms] resolve_dir [OF assms(1) clean_is_clean [OF assms(2)]] by (simp add: stat_in_def node_at_def)
  then show "readdir_in r p = readdir_in r (clean p)" by (simp add: readdir_in_def)
qed

text \<open>Two programs that agree on a world.\<close>

lemma run_bind_cong: "run_state m w = run_state m' w \<Longrightarrow> (\<And>x w'. run_state m w = (x, w') \<Longrightarrow> run_state (f x) w' = run_state (g x) w') \<Longrightarrow>
   run_state (m \<bind> f) w = run_state (m' \<bind> g) w"
  by (cases "run_state m w") (auto split: prod.split)

lemma run_query_cong: "q (tock w) = q' (tock w) \<Longrightarrow> run_state (query q) w = run_state (query q') w"
  by (simp add: query_def enter_def tock_def split: option.split)

lemma check_cache_path_raw:
  assumes "dir_at (root w) (clean p)" "no_climb p"
  shows "run_state (check_cache_path p) w = run_state (check_cache_path (clean p)) w"
  unfolding check_cache_path_def stat_def
  by (intro run_bind_cong run_query_cong) (use at_raw [OF assms] in simp_all)

lemma state_of_raw: "no_climb p \<Longrightarrow> state_of (clean p) name = state_of p name"
  unfolding state_of_def by (simp only: store_dir_clean)

lemma sweep_entries_raw: "no_climb p \<Longrightarrow> sweep_entries (clean p) pre es = sweep_entries p pre es"
  by (induction p pre es rule: sweep_entries.induct) (simp_all add: join_clean)

lemma sweep_raw:
  assumes "dir_at (root w) (clean p)" "no_climb p"
  shows "run_state (sweep_temporaries p name) w = run_state (sweep_temporaries (clean p) name) w"
  unfolding sweep_temporaries_def sweep_entries_raw [OF assms(2)] read_dir_def
  by (intro run_bind_cong run_query_cong) (use at_raw [OF assms] in simp_all)

lemma stat_raw: "dir_at (root w) (clean p) \<Longrightarrow> no_climb p \<Longrightarrow> run_state (stat p) w = run_state (stat (clean p)) w"
  unfolding stat_def by (intro run_query_cong) (simp add: at_raw)

lemma mkdir_error_root: "run_state (mkdir q) w = (Inl e, w') \<Longrightarrow> root w' = root w"
proof -
  have "wp (mkdir q) (\<lambda>x w'. \<forall>e. x = Inl e \<longrightarrow> root w' = root w) w"
    by (auto simp: mkdir_def wp_mutate split: option.split sum.split)
  then show "run_state (mkdir q) w = (Inl e, w') \<Longrightarrow> root w' = root w" by (auto dest: wpD)
qed

lemma mkdir_temp_raw:
  assumes "no_climb p"
  shows "dir_at (root w) (clean p) \<Longrightarrow> run_state (mkdir_temp_from n p pre) w = run_state (mkdir_temp_from n (clean p) pre) w"
proof (induction n arbitrary: w rule: less_induct)
  case (less n)
  obtain a w1 where m: "run_state (mkdir (join p (pre @ digits (rnd w (tick w))))) w = (a, w1)" by fastforce
  show ?case
  proof (cases a)
    case (Inl e)
    have d: "dir_at (root w1) (clean p)" using mkdir_error_root [OF m [unfolded Inl]] less.prems by simp
    have "run_state (mkdir_temp_from (n - 1) p pre) w1 = run_state (mkdir_temp_from (n - 1) (clean p) pre) w1" if "n \<noteq> 0"
      using less.IH [OF _ d] that by simp
    then show ?thesis
      using stat_raw [OF d assms]
      by (subst (1 2) mkdir_temp_from.simps) (simp add: join_clean [OF assms] Let_def m Inl)
  qed (subst (1 2) mkdir_temp_from.simps, simp add: join_clean [OF assms] Let_def m)
qed

lemma create_temporary_raw:
  assumes "no_climb p" "dir_at (root w) (clean p)" "plain name" "honest w" "before_lock st = None"
  shows "run_state (create_temporary st p name) w = run_state (create_temporary st (clean p) name) w"
proof -
  let ?c = "clean p"
  have c: "clean_path ?c" by (rule clean_is_clean [OF assms(1)])
  have ns: "slash \<notin> set (temp_prefix name)" using assms(3) by (simp add: temp_prefix_def plain_def)
  obtain x w1 where m: "run_state (mkdir_temp_from 9999 ?c (temp_prefix name)) w = (x, w1)" by fastforce
  have mp: "run_state (mkdir_temp_from 9999 p (temp_prefix name)) w = (x, w1)" using mkdir_temp_raw [OF assms(1,2)] m by simp
  show ?thesis
  proof (cases x)
    case (Inl e)
    then show ?thesis by (simp add: create_temporary_def temporary_tries_def numeral_3_eq_3 mkdir_temp_def ns m mp)
  next
    case (Inr n)
    from wpD [OF mkdir_temp_in [OF assms(2) c assms(3)] m] Inr obtain k i where
      n: "n = temp_name name k" "root w1 = put (?c @ [n]) (Some (Dir i [])) (root w)" and q: "quiet w w1" by auto
    have h1: "honest w1" using q assms(4) same_env_honest by (auto simp: quiet_def)
    have pn: "plain n" using plain_temp [OF assms(3)] n(1) by simp
    have j: "join p n = ?c @ [n]" using join_plain [OF c pn] join_clean [OF assms(1)] by simp
    obtain l w2 where l: "run_state (lock_temporary (?c @ [n])) w1 = (l, w2)" by fastforce
    have "\<not> is_not_exist e" if "l = Inl e" for e
      using wpD [OF lock_temporary_in [OF n(2) assms(2) c pn h1] l] that by simp
    then show ?thesis
      using Inr l
      by (cases l) (simp_all add: create_temporary_def temporary_tries_def numeral_3_eq_3 mkdir_temp_def ns m mp run_hook_def assms(5) j
          join_clean [OF assms(1)])
  qed
qed

lemma fill_temporary_raw: "no_climb p \<Longrightarrow> fill_temporary (clean p) name rec tmp ens fin = fill_temporary p name rec tmp ens fin"
  unfolding fill_temporary_def publish_def by (simp only: store_dir_clean)

lemma store_extract_raw:
  assumes "no_climb p" "dir_at (root w) (clean p)" "plain name" "honest w" "before_lock st = None"
  shows "run_state (store_extract st p name rec ens fin) w = run_state (store_extract st (clean p) name rec ens fin) w"
  unfolding store_extract_def fill_temporary_raw [OF assms(1)] join_clean [OF assms(1)]
  by (rule run_bind_cong [OF create_temporary_raw [OF assms]]) simp

lemma fill_raw:
  assumes src: "image_source pl" and a: "no_climb p" "dir_at (root w) (clean p)" "plain name" "honest w" "before_lock st = None"
  shows "run_state (fill st pl p name source owner oc) w = run_state (fill st pl (clean p) name source owner oc) w"
proof -
  have x: "run_state (store_extract st p name rec ens fin) w' = run_state (store_extract st (clean p) name rec ens fin) w'"
    if "looks w w'" for w' rec ens fin
    using looks_facts [OF that] a by (intro store_extract_raw) simp_all
  obtain r w1 where r: "run_state (store_replaceable p name owner) w = (r, w1)" by fastforce
  have l1: "looks w w1" using r unfolding store_replaceable_def by (rule alongD [OF along_looks_replaceable])
  obtain y w2 where y: "run_state (pl_pull pl source) w1 = (y, w2)" by fastforce
  have "looks w w2" using look.step_trans [OF l1 alongD [OF image_source.pull_looks [OF src] y]] .
  note x = x [OF this]
  have "store_replaceable (clean p) name owner = store_replaceable p name owner"
    by (simp add: store_replaceable_def store_dir_clean [OF a(1)])
  with r y x show ?thesis by (cases r; cases y) (auto simp: fill_def split: prod.split)
qed

text \<open>What \<^verbatim>\<open>ValidCachePath\<close> admits is such a path.\<close>

lemma valid_path_no_climb:
  assumes "valid_cache_path p"
  shows "no_climb (path_of p)"
proof -
  have "''..'' \<notin> set (path_of p)"
  proof
    assume "''..'' \<in> set (path_of p)"
    moreover have "f \<in> set (split_on sep s) \<Longrightarrow> sublist f s" for f sep s
    proof (induction s arbitrary: f)
      case (Cons c s)
      obtain g gs where g: "split_on sep s = g # gs" by (cases "split_on sep s") auto
      have pre: "prefix g s"
        using g by (metis join_split join_with.elims list.inject list.distinct(1) not_Cons_self2 prefix_def prefix_order.order_refl)
      show ?case
      proof (cases "c = sep")
        case True
        with Cons show ?thesis by (auto simp: sublist_Cons_right)
      next
        case False
        with Cons.prems g consider "f = c # g" | "f \<in> set gs" by auto
        then show ?thesis using pre Cons.IH g by cases (auto simp: sublist_Cons_right)
      qed
    qed simp
    ultimately have "sublist ''..'' p" by (simp add: path_of_def)
    with assms show False by (simp add: valid_cache_path_def str_contains_iff_sublist)
  qed
  then show ?thesis using split_on_fields by (auto simp: no_climb_def path_of_def)
qed

end
