(* ===== verification/Cli.thy ===== *)
theory Cli
  imports RawPath StateSound
begin

section \<open>The one-shot command (cli/cli.go)\<close>

text \<open>
  \<^verbatim>\<open>imagecachectl import\<close> fills one directory, once. Cobra, which reads the command line,
  is a parameter: given the commands the program declares and the arguments, it refuses these, answers
  them itself (help), or says which flags were given and what the one argument left is. \<^verbatim>\<open>validation.IsDNS1123Subdomain\<close> is a parameter too. What is
  printed is a list of messages per stream, one constructor per format string of the source; that a
  message could not be written is ignored there and here.
\<close>

datatype message =
    AlreadyHolds string string
  | Cleared nat
  | Extracted string path
  | NotVerified
  | PlainAllowed
  | ClosingStream err

record cli_world =
  cw_disk :: sworld
  cw_out :: "message list"
  cw_err :: "message list"

definition on_node :: "(sworld, 'x) state \<Rightarrow> (cli_world, 'x) state" where
  "on_node m = do {
     s \<leftarrow> State_Monad.get;
     (case run_state m (cw_disk s) of (x, w) \<Rightarrow> do { State_Monad.set (s\<lparr>cw_disk := w\<rparr>); State_Monad.return x })
   }"

definition printf_out :: "message \<Rightarrow> (cli_world, unit) state" where
  "printf_out m = do { s \<leftarrow> State_Monad.get; State_Monad.set (s\<lparr>cw_out := cw_out s @ [m]\<rparr>) }"

definition printf_err :: "message \<Rightarrow> (cli_world, unit) state" where
  "printf_err m = do { s \<leftarrow> State_Monad.get; State_Monad.set (s\<lparr>cw_err := cw_err s @ [m]\<rparr>) }"

definition exit_interrupted :: int where
  "exit_interrupted = 130"

definition cli_owner :: string where
  "cli_owner = ''imagecachectl''"

definition resource_name_max :: nat where
  "resource_name_max = 63"

subsection \<open>Validation\<close>

definition name_problems :: "(string \<Rightarrow> string list) \<Rightarrow> string \<Rightarrow> string list" where
  "name_problems dns name = dns name @
     (if resource_name_max < length name
      then [''must be '' @ digits resource_name_max @ '' characters or fewer, it becomes a node label''] else [])"

definition validate :: "(string \<Rightarrow> string list) \<Rightarrow> string \<Rightarrow> string \<Rightarrow> err option" where
  "validate dns name cache_path =
     (if 0 < length (name_problems dns name) then Some (Msg ''--name is not a resource name'')
      else if \<not> valid_cache_path cache_path then Some (Msg ''--cache-path is not a cache path: must be absolute and must not contain ..'')
      else None)"

subsection \<open>The source\<close>

text \<open>Which type of puller a source gets.\<close>

datatype 'c source = Archive | Registry "'c remote"

definition looks_like_path :: "string \<Rightarrow> bool" where
  "looks_like_path source \<longleftrightarrow> has_prefix source [slash] \<or> has_prefix source ''.'' \<or> has_suffix source ''.tar''"

definition puller_for :: "('r, 'c) image_library \<Rightarrow> string \<Rightarrow> tls \<Rightarrow> (sworld, 'c source res) state" where
  "puller_for lib source cfg =
     (if looks_like_path source then State_Monad.return (Inr Archive)
      else do {
        r \<leftarrow> new_remote lib cfg;
        State_Monad.return (case r of Inl e \<Rightarrow> Inl e | Inr rm \<Rightarrow> Inr (Registry rm)) })"

definition source_puller :: "('r, 'c) image_library \<Rightarrow> 'c source \<Rightarrow> puller" where
  "source_puller lib src = (case src of Archive \<Rightarrow> tarball_puller lib | Registry r \<Rightarrow> remote_puller lib r)"

definition warn :: "'c source \<Rightarrow> tls \<Rightarrow> (cli_world, unit) state" where
  "warn src cfg = (case src of
     Archive \<Rightarrow> State_Monad.return ()
   | Registry _ \<Rightarrow> do {
       (if tls_skip_verify cfg then printf_err NotVerified else State_Monad.return ());
       (if tls_plain_http cfg then printf_err PlainAllowed else State_Monad.return ()) })"

subsection \<open>The import\<close>

text \<open>\<^verbatim>\<open>cache.Store{}\<close>: a store of its own, with no memory of digests.\<close>

definition plain_store :: "(sworld, store) state" where
  "plain_store = do {
     w \<leftarrow> State_Monad.get;
     State_Monad.set (w\<lparr>memory := None\<rparr>);
     State_Monad.return \<lparr>before_lock = None\<rparr> }"

definition import_missing :: "('r, 'c) image_library \<Rightarrow> store \<Rightarrow> 'c source \<Rightarrow> string \<Rightarrow> string \<Rightarrow> string \<Rightarrow> (cli_world, err option) state" where
  "import_missing lib st src cache_path name source = do {
     (swept, e) \<leftarrow> on_node (sweep_temporaries (path_of cache_path) name);
     case e of
       Some x \<Rightarrow> State_Monad.return (Some x)
     | None \<Rightarrow> do {
         (if 0 < length swept then printf_out (Cleared (length swept)) else State_Monad.return ());
         (x, heard) \<leftarrow> on_node (fill st (source_puller lib src) (path_of cache_path) name source cli_owner True);
         (case heard of None \<Rightarrow> State_Monad.return () | Some c \<Rightarrow> printf_err (ClosingStream c));
         case x of
           Some e \<Rightarrow> State_Monad.return (Some e)
         | None \<Rightarrow> do {
             printf_out (Extracted name (join (path_of cache_path) name));
             State_Monad.return None } }
   }"

definition import_into :: "('r, 'c) image_library \<Rightarrow> store \<Rightarrow> 'c source \<Rightarrow> string \<Rightarrow> string \<Rightarrow> string \<Rightarrow> (cli_world, err option) state" where
  "import_into lib st src cache_path name source = do {
     c \<leftarrow> on_node (check_cache_path (path_of cache_path));
     case c of
       Some e \<Rightarrow> State_Monad.return (Some e)
     | None \<Rightarrow> do {
         (s, e) \<leftarrow> on_node (state_of (path_of cache_path) name);
         case e of
           Some x \<Rightarrow> State_Monad.return (Some x)
         | None \<Rightarrow>
             if s = Complete then do {
               printf_out (AlreadyHolds cache_path name);
               State_Monad.return None }
             else import_missing lib st src cache_path name source }
   }"

definition do_import :: "('r, 'c) image_library \<Rightarrow> string \<Rightarrow> string \<Rightarrow> string \<Rightarrow> tls \<Rightarrow> (cli_world, err option) state" where
  "do_import lib cache_path name source cfg = do {
     st \<leftarrow> on_node plain_store;
     p \<leftarrow> on_node (puller_for lib source cfg);
     case p of
       Inl e \<Rightarrow> State_Monad.return (Some e)
     | Inr src \<Rightarrow> do { warn src cfg; import_into lib st src cache_path name source }
   }"

subsection \<open>The command line\<close>

record flags =
  fl_name :: string
  fl_cache_path :: string
  fl_ca_file :: string
  fl_skip_verify :: bool
  fl_plain_http :: bool

datatype command = Rejected err | Answered | Import flags string

text \<open>What the program declares to cobra: its commands, their flags with the defaults, which of them are
  required, how many arguments a command takes. Only the texts for the reader are left out.\<close>

datatype flag_value = StringFlag string | BoolFlag bool

record import_command =
  im_use :: string
  im_exact_args :: nat
  im_flags :: "(string \<times> flag_value) list"
  im_required :: "string list"

record root_command =
  ro_use :: string
  ro_silence_usage :: bool
  ro_err_prefix :: string
  ro_default_completion :: bool
  ro_import :: import_command

definition import_cmd :: import_command where
  "import_cmd = \<lparr>im_use = ''import'', im_exact_args = 1,
     im_flags = [(''name'', StringFlag []), (''cache-path'', StringFlag default_path), (''ca-file'', StringFlag []),
       (''insecure-skip-tls-verify'', BoolFlag False), (''plain-http'', BoolFlag False)],
     im_required = [''name'']\<rparr>"

definition root_cmd :: root_command where
  "root_cmd = \<lparr>ro_use = ''imagecachectl'', ro_silence_usage = True, ro_err_prefix = ''imagecachectl:'',
     ro_default_completion = False, ro_import = import_cmd\<rparr>"

text \<open>What cobra makes of a command line. A flag that was not given keeps its default; one argument is left,
  as \<^verbatim>\<open>cobra.ExactArgs(1)\<close> asks.\<close>

datatype parsed = Refused err | Helped | Accepted "(string \<times> flag_value) list" string

definition string_flag :: "(string \<times> flag_value) list \<Rightarrow> string \<Rightarrow> string" where
  "string_flag given n = (case map_of (given @ im_flags import_cmd) n of Some (StringFlag v) \<Rightarrow> v | _ \<Rightarrow> [])"

definition bool_flag :: "(string \<times> flag_value) list \<Rightarrow> string \<Rightarrow> bool" where
  "bool_flag given n = (case map_of (given @ im_flags import_cmd) n of Some (BoolFlag v) \<Rightarrow> v | _ \<Rightarrow> False)"

definition flags_from :: "(string \<times> flag_value) list \<Rightarrow> flags" where
  "flags_from given = \<lparr>fl_name = string_flag given ''name'', fl_cache_path = string_flag given ''cache-path'',
     fl_ca_file = string_flag given ''ca-file'', fl_skip_verify = bool_flag given ''insecure-skip-tls-verify'',
     fl_plain_http = bool_flag given ''plain-http''\<rparr>"

definition parse_line :: "(root_command \<Rightarrow> string list \<Rightarrow> parsed) \<Rightarrow> string list \<Rightarrow> command" where
  "parse_line cobra args = (case cobra root_cmd args of
     Refused e \<Rightarrow> Rejected e
   | Helped \<Rightarrow> Answered
   | Accepted given source \<Rightarrow> Import (flags_from given) source)"

definition run_e :: "('r, 'c) image_library \<Rightarrow> (string \<Rightarrow> string list) \<Rightarrow> flags \<Rightarrow> string \<Rightarrow> (cli_world, err option) state" where
  "run_e lib dns fl source = (case validate dns (fl_name fl) (fl_cache_path fl) of
     Some e \<Rightarrow> State_Monad.return (Some e)
   | None \<Rightarrow>
       if fl_ca_file fl \<noteq> [] \<and> fl_skip_verify fl then
         State_Monad.return (Some (Msg ''--ca-file and --insecure-skip-tls-verify exclude each other''))
       else if fl_plain_http fl \<and> fl_ca_file fl \<noteq> [] then
         State_Monad.return (Some (Msg ''--ca-file and --plain-http exclude each other''))
       else if fl_plain_http fl \<and> fl_skip_verify fl then
         State_Monad.return (Some (Msg ''--insecure-skip-tls-verify and --plain-http exclude each other''))
       else do {
         e \<leftarrow> do_import lib (fl_cache_path fl) (fl_name fl) source
           \<lparr>tls_ca_file = fl_ca_file fl, tls_skip_verify = fl_skip_verify fl, tls_plain_http = fl_plain_http fl\<rparr>;
         State_Monad.return (case e of
           None \<Rightarrow> None
         | Some x \<Rightarrow> Some (if is_canceled x then Fmt ''interrupted, it was not filled'' Canceled else x)) })"

definition run_cli :: "('r, 'c) image_library \<Rightarrow> (string \<Rightarrow> string list) \<Rightarrow> (root_command \<Rightarrow> string list \<Rightarrow> parsed) \<Rightarrow> string list \<Rightarrow> (cli_world, int) state" where
  "run_cli lib dns cobra args = do {
     e \<leftarrow> (case parse_line cobra args of
        Rejected x \<Rightarrow> State_Monad.return (Some x)
      | Answered \<Rightarrow> State_Monad.return None
      | Import fl source \<Rightarrow> run_e lib dns fl source);
     State_Monad.return (case e of None \<Rightarrow> 0 | Some x \<Rightarrow> if is_canceled x then exit_interrupted else 1)
   }"

subsection \<open>What validation admits\<close>

text \<open>A DNS-1123 subdomain, as Kubernetes documents it: labels of lower-case letters, digits and
  \<^verbatim>\<open>-\<close> that start and end with a letter or a digit, joined by dots, at most 253 characters.\<close>

definition lower_alnum :: "char \<Rightarrow> bool" where
  "lower_alnum c \<longleftrightarrow> is_digit c \<or> CHR ''a'' \<le> c \<and> c \<le> CHR ''z''"

definition dns_label :: "string \<Rightarrow> bool" where
  "dns_label l \<longleftrightarrow> l \<noteq> [] \<and> lower_alnum (hd l) \<and> lower_alnum (last l) \<and> list_all (\<lambda>c. lower_alnum c \<or> c = CHR ''-'') l"

definition dns_subdomain :: "string \<Rightarrow> bool" where
  "dns_subdomain n \<longleftrightarrow> length n \<le> 253 \<and> list_all dns_label (split_on (CHR ''.'') n)"

definition dns_law :: "(string \<Rightarrow> string list) \<Rightarrow> bool" where
  "dns_law dns \<longleftrightarrow> (\<forall>n. dns n = [] \<longleftrightarrow> dns_subdomain n)"

lemma not_lower_alnum [simp]: "\<not> lower_alnum slash" "\<not> lower_alnum (CHR ''.'')"
  by (simp_all add: lower_alnum_def is_digit_def less_eq_char_def)

lemma dns_chars:
  assumes "dns_subdomain n" "c \<in> set n"
  shows "lower_alnum c \<or> c = CHR ''-'' \<or> c = CHR ''.''"
proof -
  have "n = join_with (CHR ''.'') (split_on (CHR ''.'') n)" by simp
  moreover have "c \<in> set (join_with sep fs) \<Longrightarrow> c = sep \<or> (\<exists>f \<in> set fs. c \<in> set f)" for sep fs
    by (induction sep fs rule: join_with.induct) auto
  ultimately consider "c = CHR ''.''" | f where "f \<in> set (split_on (CHR ''.'') n)" "c \<in> set f" using assms(2) by metis
  then show ?thesis using assms(1) by cases (auto simp: dns_subdomain_def dns_label_def list_all_iff)
qed

lemma dns_head: "dns_subdomain n \<Longrightarrow> n \<noteq> [] \<and> hd n \<noteq> CHR ''.''"
  by (cases n) (auto simp: dns_subdomain_def dns_label_def split: list.splits)

lemma dns_plain:
  assumes "dns_subdomain n"
  shows "plain n" "\<not> is_temporary n"
proof -
  have "slash \<notin> set n" using dns_chars [OF assms, of slash] by (auto simp: lower_alnum_def is_digit_def less_eq_char_def)
  with dns_head [OF assms] show "plain n" by (auto simp: plain_def)
  show "\<not> is_temporary n" using dns_head [OF assms] by (cases n) (auto simp: is_temporary_def)
qed

lemma validate_None: "validate dns name cp = None \<longleftrightarrow> dns name = [] \<and> length name \<le> resource_name_max \<and> valid_cache_path cp"
  by (auto simp: validate_def name_problems_def)

subsection \<open>Properties\<close>

text \<open>C28: What validation admits cannot climb out. The name is one component that is neither hidden nor a
  temporary name, and short enough for a label; the cache path loses nothing but empty and
  dot components when it is cleaned, and the directory of the resource is its child.\<close>

theorem validate_confines:
  assumes "dns_law dns" "validate dns name cache_path = None"
  shows "plain name \<and> \<not> is_temporary name \<and> length name \<le> 63
    \<and> clean (path_of cache_path) = filter (\<lambda>c. c \<noteq> [] \<and> c \<noteq> ''.'') (path_of cache_path) \<and> clean_path (clean (path_of cache_path))
    \<and> store_dir (path_of cache_path) name = clean (path_of cache_path) @ [name]"
proof -
  have v: "dns_subdomain name" "valid_cache_path cache_path" "length name \<le> 63"
    using assms by (auto simp: validate_None dns_law_def resource_name_max_def)
  note n = valid_path_no_climb [OF v(2)]
  show ?thesis
    using dns_plain [OF v(1)] v(3) clean_no_climb [OF n] clean_is_clean [OF n] store_dir_clean [OF n, of name]
    by (simp add: store_dir_def join_plain)
qed

definition sample_dns :: "string \<Rightarrow> string list" where
  "sample_dns n = (if dns_subdomain n then [] else [''a lowercase RFC 1123 subdomain''])"

lemma sample_dns_law: "dns_law sample_dns"
  by (simp add: dns_law_def sample_dns_def)

lemma sample_validate: "validate sample_dns ''boot'' ''//cache/.'' = None" "validate sample_dns ''boot'' ''/cache'' = None"
  by (simp_all add: validate_None sample_dns_def dns_subdomain_def dns_label_def lower_alnum_def is_digit_def less_eq_char_def
      resource_name_max_def valid_cache_path_def)

theorem validate_confines_witness: "store_dir (path_of ''//cache/.'') ''boot'' = [''cache'', ''boot'']"
  using validate_confines [OF sample_dns_law sample_validate(1)] by (simp add: path_of_def)

end
