(* ===== verification/CliSpec.thy ===== *)
theory CliSpec
  imports Cli
begin

section \<open>What an import does\<close>

text \<open>
  The command under any schedule of failing calls, and with nothing in its way. The cache path it is
  given need not be clean: \<open>RawPath\<close> reduces it to its clean form.
\<close>

subsection \<open>The import, whatever fails\<close>

lemma wp_on_node [wp_rules]: "wp (on_node m) Q s = wp m (\<lambda>x w. Q x (s\<lparr>cw_disk := w\<rparr>)) (cw_disk s)"
  by (simp add: on_node_def wp_rules) (simp add: wp_def wp_rules split: prod.split)

lemma wp_printf [wp_rules]:
  "wp (printf_out m) Q s = Q () (s\<lparr>cw_out := cw_out s @ [m]\<rparr>)" "wp (printf_err m) Q s = Q () (s\<lparr>cw_err := cw_err s @ [m]\<rparr>)"
  by (simp_all add: printf_out_def printf_err_def wp_rules)

lemma wp_at: "run_state m w = (x, w') \<Longrightarrow> wp m Q w = Q x w'"
  by (simp add: wp_def)

text \<open>What an import may touch: the entry of its resource and the temporary directories of it.\<close>

definition own_names :: "string \<Rightarrow> string set" where
  "own_names name = {n. n = name \<or> has_prefix n (temp_prefix name)}"

definition imported :: "puller \<Rightarrow> path \<Rightarrow> string \<Rightarrow> string \<Rightarrow> node \<Rightarrow> bool" where
  "imported pl cp name source r \<longleftrightarrow> (\<exists>p i. gives pl source p i \<and> whole (pd_entries p) (pd_end p)
     \<and> holds_image r cp name (fill_record cli_owner source i) (pd_entries p))"

definition import_outcome :: "puller \<Rightarrow> path \<Rightarrow> string \<Rightarrow> string \<Rightarrow> node \<Rightarrow> err option \<Rightarrow> node \<Rightarrow> bool" where
  "import_outcome pl cp name source r x r' \<longleftrightarrow> elsewhere cp (own_names name) r r'
     \<and> (case x of
          None \<Rightarrow> expected_state False r cp name = (Complete, None) \<and> r' = r
            \<or> imported pl cp name source r' \<and> (\<forall>n. n \<noteq> name \<longrightarrow> lookup r (cp @ [n]) = None \<longrightarrow> lookup r' (cp @ [n]) = None)
        | Some e \<Rightarrow> leaves (lookup r (cp @ [name])) (lookup r' (cp @ [name]))
            \<and> (direct (lookup r (cp @ [name])) \<longrightarrow> \<not> may_replace (lookup r (cp @ [name])) cli_owner
                \<longrightarrow> lookup r' (cp @ [name]) = lookup r (cp @ [name])))"

lemma import_outcome_same: "import_outcome pl cp name source r (Some e) r"
  by (simp add: import_outcome_def leaves_refl)

lemma temp_name_own: "temp_name name k \<in> own_names name" "name \<in> own_names name"
  by (simp_all add: own_names_def temp_name_def)

lemma plain_not_swept: "hd name \<noteq> CHR ''.'' \<Longrightarrow> plain name \<Longrightarrow> \<not> has_prefix name (temp_prefix name)"
  by (cases name) (auto simp: temp_prefix_def plain_def)

lemma source_puller_source: "image_source (source_puller lib src)"
  by (auto simp: source_puller_def rp.image_source_axioms tp.image_source_axioms split: source.split)

text \<open>The sweep, then the fill. The entry itself is not one the sweep removes.\<close>

lemma import_missing_spec:
  assumes c: "c = clean (path_of cache_path)" "no_climb (path_of cache_path)" and n: "plain name" "hd name \<noteq> CHR ''.''"
    and o: "orderly (root (cw_disk s)) c" "honest (cw_disk s)" "before_lock st = None"
  shows "wp (import_missing lib st src cache_path name source)
    (\<lambda>x s'. import_outcome (source_puller lib src) c name source (root (cw_disk s)) x (root (cw_disk s'))) s"
proof -
  let ?pl = "source_puller lib src" and ?w = "cw_disk s" and ?p = "path_of cache_path"
  have d: "dir_at (root ?w) c" "clean_path c" using o(1) by (simp_all add: orderly_def)
  obtain removed e w1 where sw: "run_state (sweep_temporaries ?p name) ?w = ((removed, e), w1)" by (metis prod.exhaust)
  then have "run_state (sweep_temporaries c name) ?w = ((removed, e), w1)" using sweep_raw [OF _ c(2)] d(1) c(1) by simp
  from wpD [OF sweep_in [OF o(1,2)] this] have el0: "elsewhere c {n. \<exists>v. lookup (root ?w) (c @ [n]) = Some v \<and> swept (locks ?w) name n v} (root ?w) (root w1)"
    and env: "same_env ?w w1" by auto
  have sub: "{n. \<exists>v. lookup (root ?w) (c @ [n]) = Some v \<and> swept (locks ?w) name n v} \<subseteq> own_names name"
    by (auto simp: swept_def own_names_def)
  have el: "elsewhere c (own_names name) (root ?w) (root w1)" by (rule elsewhere_mono [OF el0 sub])
  have same: "lookup (root w1) (c @ [name]) = lookup (root ?w) (c @ [name])"
    using el0 plain_not_swept [OF n(2,1)] by (auto simp: elsewhere_def swept_def)
  have w1: "dir_at (root w1) c" "honest w1" using el d(1) same_env_honest [OF env] o(2) by (auto simp: elsewhere_def)
  have raw: "run_state (fill st ?pl ?p name source cli_owner True) w1 = run_state (fill st ?pl c name source cli_owner True) w1"
    unfolding c(1) by (rule fill_raw [OF source_puller_source c(2) _ n(1) w1(2) o(3)]) (use w1(1) c(1) in simp)
  obtain y heard w2 where f: "run_state (fill st ?pl ?p name source cli_owner True) w1 = ((y, heard), w2)" by (metis prod.exhaust)
  have fo: "fill_outcome ?pl c name source cli_owner True w1 (y, heard) w2"
    by (rule wpD [OF image_source.fill_spec [OF source_puller_source w1(1) d(2) n(1) w1(2) o(3)]]) (use raw f in simp)
  have "import_outcome ?pl c name source (root ?w) y (root w2)"
  proof (cases y)
    case None
    with fo have "elsewhere c {name} (root w1) (root w2)" "imported ?pl c name source (root w2)"
      by (auto simp: fill_outcome_def imported_def)
    moreover have "lookup (root w1) (c @ [n]) = None" if "lookup (root ?w) (c @ [n]) = None" for n using el0 that by (simp add: elsewhere_def)
    ultimately have "\<forall>n. n \<noteq> name \<longrightarrow> lookup (root ?w) (c @ [n]) = None \<longrightarrow> lookup (root w2) (c @ [n]) = None"
      and "elsewhere c {name} (root w1) (root w2)" "imported ?pl c name source (root w2)" by (auto simp: elsewhere_def)
    then show ?thesis
      using None elsewhere_trans [OF el elsewhere_mono] temp_name_own(2) by (auto simp: import_outcome_def)
  next
    case (Some e')
    with fo have sp: "spared c name cli_owner (root w1) (root w2)" by (auto simp: fill_outcome_def)
    then obtain k where "elsewhere c {name, temp_name name k} (root w1) (root w2)" by (auto simp: spared_def)
    then have "elsewhere c (own_names name) (root w1) (root w2)" by (rule elsewhere_mono) (use temp_name_own in auto)
    with sp Some elsewhere_trans [OF el] same show ?thesis by (simp add: import_outcome_def spared_def)
  qed
  moreover have "import_outcome ?pl c name source (root ?w) (Some x) (root w1)" for x
    using el same by (simp add: import_outcome_def leaves_refl)
  ultimately show ?thesis
    by (auto simp: import_missing_def wp_rules wp_at [OF sw] wp_at [OF f] split: option.split)
qed

lemma along_puller_for: "along looks (puller_for lib source cfg)"
  by (auto simp: puller_for_def new_remote_def new_remote_on_def ca_pool_def Let_def intro!: look.along_intros along_queries along_ask)

lemma import_into_spec:
  assumes c: "c = clean (path_of cache_path)" "no_climb (path_of cache_path)" and n: "plain name" "hd name \<noteq> CHR ''.''"
    and o: "orderly (root (cw_disk s)) c" "honest (cw_disk s)" "before_lock st = None" "memory (cw_disk s) = None"
  shows "wp (import_into lib st src cache_path name source)
    (\<lambda>x s'. import_outcome (source_puller lib src) c name source (root (cw_disk s)) x (root (cw_disk s'))) s"
proof -
  let ?p = "path_of cache_path" and ?w = "cw_disk s"
  have cl: "clean_path c" using o(1) by (simp add: orderly_def)
  obtain x w1 where x: "run_state (check_cache_path ?p) ?w = (x, w1)" by fastforce
  have "along looks (check_cache_path ?p)" by (auto simp: check_cache_path_def intro!: look.along_intros along_queries)
  then have l1: "looks ?w w1" using x by (rule alongD)
  note f1 = looks_facts [OF l1]
  obtain st' e w2 where y: "run_state (state_of ?p name) w1 = ((st', e), w2)" by (metis prod.exhaust)
  have t: "truthful_under c w1" using f1 o(4) by (simp add: truthful_no_memory)
  have pre: "prefix c (store_dir c name)" using cl n(1) by (simp add: store_dir_def join_plain)
  have y': "run_state (state_of c name) w1 = ((st', e), w2)" using y state_of_raw [OF c(2)] c(1) by simp
  from wpD [OF state_of_sound [OF cl pre t] y'] f1 o(4)
  have s2: "tends w1 w2" "st' = Complete \<Longrightarrow> (st', e) = expected_state False (root ?w) c name" by auto
  have r2: "root w2 = root ?w" "honest w2" using s2(1) f1 o(2) same_env_honest [of w1 w2] by (auto simp: tends_def)
  have m: "wp (import_missing lib st src cache_path name source)
    (\<lambda>x s'. import_outcome (source_puller lib src) c name source (root ?w) x (root (cw_disk s'))) (s\<lparr>cw_disk := w2\<rparr>)"
    using import_missing_spec [OF c n, of "s\<lparr>cw_disk := w2\<rparr>" st lib src source] r2 o(1,3) by simp
  have same: "import_outcome (source_puller lib src) c name source (root ?w) (Some e) (root w)" if "root w = root ?w" for e w
    using that import_outcome_same by simp
  show ?thesis
    using m s2(2) r2(1) f1 same
    by (auto simp: import_into_def wp_rules wp_at [OF x] wp_at [OF y] import_outcome_def [of _ _ _ _ _ None] split: option.split)
qed

lemma wp_warn: "(\<And>es. Q () (s\<lparr>cw_err := es\<rparr>)) \<Longrightarrow> wp (warn src cfg) Q s"
proof -
  assume q: "\<And>es. Q () (s\<lparr>cw_err := es\<rparr>)"
  from q [of "cw_err s"] have "Q () s" by simp
  with q show ?thesis by (auto simp: warn_def wp_rules split: source.split)
qed

lemma some_source: "\<exists>src. (src = Archive) = looks_like_path source"
  by (cases "looks_like_path source") (auto intro: exI [of _ "Registry _"])

lemma do_import_spec:
  assumes c: "c = clean (path_of cache_path)" "no_climb (path_of cache_path)" and n: "plain name" "hd name \<noteq> CHR ''.''"
    and o: "orderly (root (cw_disk s)) c" "honest (cw_disk s)"
  shows "wp (do_import lib cache_path name source cfg) (\<lambda>x s'. \<exists>src. (src = Archive \<longleftrightarrow> looks_like_path source) \<and>
    import_outcome (source_puller lib src) c name source (root (cw_disk s)) x (root (cw_disk s'))) s"
proof -
  let ?w = "(cw_disk s)\<lparr>memory := None\<rparr>"
  obtain p w1 where p: "run_state (puller_for lib source cfg) ?w = (p, w1)" by fastforce
  have l: "looks ?w w1" by (rule alongD [OF along_puller_for p])
  have f: "root w1 = root (cw_disk s)" "honest w1" "memory w1 = None"
    using looks_facts [OF l] o(2) by (simp_all add: honest_def)
  have k: "(src = Archive) = looks_like_path source" if "p = Inr src" for src
  proof -
    have "wp (puller_for lib source cfg) (\<lambda>x _. \<forall>src. x = Inr src \<longrightarrow> (src = Archive) = looks_like_path source) ?w"
    proof (cases "looks_like_path source")
      case False
      have "wp (new_remote lib cfg) (\<lambda>_ _. True) w" for w by (simp add: wp_def split: prod.split)
      then show ?thesis unfolding puller_for_def if_not_P [OF False] wp_bind
        by (rule wp_mono) (use False in \<open>auto simp: wp_return split: sum.splits\<close>)
    qed (simp add: puller_for_def wp_rules)
    with p that show ?thesis by (auto dest: wpD)
  qed
  let ?Q = "\<lambda>x s'. \<exists>src. (src = Archive \<longleftrightarrow> looks_like_path source) \<and>
    import_outcome (source_puller lib src) c name source (root (cw_disk s)) x (root (cw_disk s'))"
  have i: "wp (import_into lib \<lparr>before_lock = None\<rparr> src cache_path name source) ?Q s'" if "p = Inr src" "cw_disk s' = w1" for src s'
  proof -
    have "wp (import_into lib \<lparr>before_lock = None\<rparr> src cache_path name source)
      (\<lambda>x s''. import_outcome (source_puller lib src) c name source (root (cw_disk s)) x (root (cw_disk s''))) s'"
      using import_into_spec [OF c n, of s' "\<lparr>before_lock = None\<rparr>" lib src source] that f o(1) by simp
    then show ?thesis by (rule wp_mono) (use k [OF that(1)] in blast)
  qed
  have ps: "wp plain_store Q (cw_disk s) = Q \<lparr>before_lock = None\<rparr> ?w" for Q by (simp add: plain_store_def wp_rules)
  have "?Q (Some e) (s\<lparr>cw_disk := w1\<rparr>)" for e
    using import_outcome_same f(1) some_source by simp
  then show ?thesis
    using i by (auto simp: do_import_def wp_bind wp_on_node ps wp_at [OF p] wp_return split: sum.split intro!: wp_warn)
qed

text \<open>The whole command: what it admits goes to the import.\<close>

lemma run_e_spec:
  assumes dns: "dns_law dns" and c: "c = clean (path_of (fl_cache_path fl))" and o: "orderly (root (cw_disk s)) c" "honest (cw_disk s)"
  shows "wp (run_e lib dns fl source) (\<lambda>x s'. \<exists>src. (src = Archive \<longleftrightarrow> looks_like_path source) \<and>
    import_outcome (source_puller lib src) c (fl_name fl) source (root (cw_disk s)) x (root (cw_disk s'))) s"
proof -
  show ?thesis
  proof (cases "validate dns (fl_name fl) (fl_cache_path fl)")
    case (Some e)
    then show ?thesis using some_source import_outcome_same by (simp add: run_e_def wp_rules)
  next
    case None
    then have v: "dns_subdomain (fl_name fl)" "valid_cache_path (fl_cache_path fl)" using dns by (auto simp: validate_None dns_law_def)
    note i = do_import_spec [OF c valid_path_no_climb [OF v(2)] dns_plain(1) [OF v(1)] conjunct2 [OF dns_head [OF v(1)]] o]
    have e: "import_outcome pl c n src r (case x of None \<Rightarrow> None | Some y \<Rightarrow> Some (f y)) r' = import_outcome pl c n src r x r'" for pl n src r x f r'
      by (cases x) (simp_all add: import_outcome_def)
    show ?thesis
      using some_source import_outcome_same by (auto simp: run_e_def None wp_rules e intro!: wp_mono [OF i])
  qed
qed

lemma run_cli_spec:
  assumes "dns_law dns" "parse_line cobra args = Import fl source" "c = clean (path_of (fl_cache_path fl))"
    and "orderly (root (cw_disk s)) c" "honest (cw_disk s)"
  shows "wp (run_cli lib dns cobra args) (\<lambda>code s'. code \<in> {0, 1, exit_interrupted} \<and>
    (\<exists>src x. (src = Archive \<longleftrightarrow> looks_like_path source) \<and> (code = 0 \<longleftrightarrow> x = None) \<and>
      import_outcome (source_puller lib src) c (fl_name fl) source (root (cw_disk s)) x (root (cw_disk s')))) s"
  unfolding run_cli_def assms(2) command.case wp_bind
proof (rule wp_mono [OF run_e_spec [OF assms(1,3,4,5)]], goal_cases)
  case (1 x s')
  then obtain src where src: "(src = Archive) = looks_like_path source"
    "import_outcome (source_puller lib src) c (fl_name fl) source (root (cw_disk s)) x (root (cw_disk s'))" by blast
  have "((case x of None \<Rightarrow> 0 | Some y \<Rightarrow> if is_canceled y then exit_interrupted else 1) = 0) = (x = None)"
    by (simp add: exit_interrupted_def split: option.split)
  with src show ?case unfolding wp_return by (intro conjI exI [of _ src] exI [of _ x]) (simp_all split: option.split)
qed

subsection \<open>An import with nothing in its way\<close>

text \<open>A source whose puller needs no certificate file.\<close>

definition needs_no_ca :: "string \<Rightarrow> tls \<Rightarrow> bool" where
  "needs_no_ca source cfg \<longleftrightarrow> looks_like_path source \<or> tls_ca_file cfg = []"

lemma puller_for_calm:
  assumes "needs_no_ca source cfg" "\<not> (tls_plain_http cfg \<and> tls_skip_verify cfg)"
  shows "\<exists>src. run_state (puller_for lib source cfg) w = (Inr src, w) \<and> (src = Archive \<longleftrightarrow> looks_like_path source)"
  using assms by (auto simp: puller_for_def needs_no_ca_def new_remote_def new_remote_on_def)

lemma check_calm:
  assumes "dir_at (root w) (clean p)" "no_climb p" "calm w"
  shows "run_state (check_cache_path p) w = (None, tock w)"
proof -
  have "stat_in (root w) p = stat_in (root w) (clean p)" by (rule at_raw [OF assms(1,2)])
  moreover obtain i es where "stat_in (root w) (clean p) = Inr (Dir i es)"
    using assms(1) clean_is_clean [OF assms(2)] by (auto simp: stat_in_def lift_errno_def node_at_def resolve_dir dir_at_iff)
  ultimately have "wp (check_cache_path p) (\<lambda>x w'. x = None \<and> w' = tock w) w"
    using assms(3) by (simp add: check_cache_path_def wp_rules wp_stat)
  then show ?thesis by (auto simp: wp_def split: prod.splits)
qed

lemma state_calm:
  assumes "calm w" "no_climb p" "memory w = None"
  shows "\<exists>w'. run_state (state_of p name) w = (expected_state False (root w) (clean p) name, w') \<and> tends w w'"
proof -
  obtain x w' where y: "run_state (state_of p name) w = (x, w')" by fastforce
  then have "run_state (state_of (clean p) name) w = (x, w')" using state_of_raw [OF assms(2)] by simp
  from wpD [OF state_of_faultless [OF calm_faultless [OF assms(1)] clean_is_clean [OF assms(2)] truthful_no_memory [OF assms(3)]] this]
  have "tends w w'" "x = expected_state False (root w) (clean p) name \<or> ctx_done w'" using assms(3) by auto
  moreover have "\<not> ctx_done w'" using \<open>tends w w'\<close> assms(1) same_env_calm calm_not_done by (auto simp: tends_def)
  ultimately show ?thesis using y by auto
qed

text \<open>A complete directory is left as it is and no source is asked.\<close>

lemma do_import_complete:
  assumes c: "c = clean (path_of cache_path)" "no_climb (path_of cache_path)" "dir_at (root (cw_disk s)) c" "calm (cw_disk s)"
    and p: "needs_no_ca source cfg" "\<not> (tls_plain_http cfg \<and> tls_skip_verify cfg)"
    and e: "expected_state False (root (cw_disk s)) c name = (Complete, None)"
  shows "wp (do_import lib cache_path name source cfg) (\<lambda>x s'. x = None \<and> root (cw_disk s') = root (cw_disk s) \<and>
    cw_out s' = cw_out s @ [AlreadyHolds cache_path name]) s"
proof -
  let ?w = "(cw_disk s)\<lparr>memory := None\<rparr>" and ?p = "path_of cache_path"
  obtain src where pf: "run_state (puller_for lib source cfg) ?w = (Inr src, ?w)" using puller_for_calm [OF p] by blast
  have w: "calm ?w" "dir_at (root ?w) (clean ?p)" using c by (simp_all add: calm_def)
  note ck = check_calm [OF w(2) c(2) w(1)]
  have "calm (tock ?w)" "memory (tock ?w) = None" using w(1) by simp_all
  from state_calm [OF this(1) c(2) this(2), of name] e c(1) obtain w' where
    so: "run_state (state_of ?p name) (tock ?w) = ((Complete, None), w')" "tends (tock ?w) w'" by auto
  have ps: "wp plain_store Q (cw_disk s) = Q \<lparr>before_lock = None\<rparr> ?w" for Q by (simp add: plain_store_def wp_rules)
  have r: "root w' = root (cw_disk s)" using so(2) by (simp add: tends_def)
  show ?thesis
    by (simp add: do_import_def wp_bind wp_on_node ps wp_at [OF pf])
      (rule wp_warn, simp add: import_into_def wp_rules wp_at [OF ck] wp_at [OF so(1)] r)
qed

text \<open>An import that finds nothing complete fills the directory when the source serves.\<close>

lemma do_import_fills:
  assumes c: "c = clean (path_of cache_path)" "no_climb (path_of cache_path)" and o: "orderly (root (cw_disk s)) c" "calm (cw_disk s)"
    and n: "plain name" and p: "needs_no_ca source cfg" "\<not> (tls_plain_http cfg \<and> tls_skip_verify cfg)"
    and e: "snd (expected_state False (root (cw_disk s)) c name) = None"
    and v: "direct (lookup (root (cw_disk s)) (c @ [name]))" "may_replace (lookup (root (cw_disk s)) (c @ [name])) cli_owner"
      "\<not> has_prefix name (temp_prefix name)" "fresh_draws (cw_disk s) c name" "\<And>src. (src = Archive) = looks_like_path source \<Longrightarrow> serves (source_puller lib src) source"
  shows "wp (do_import lib cache_path name source cfg) (\<lambda>x s'. x = None) s"
proof -
  let ?w = "(cw_disk s)\<lparr>memory := None\<rparr>" and ?p = "path_of cache_path" and ?st = "\<lparr>before_lock = None\<rparr>"
  have d: "dir_at (root (cw_disk s)) c" "clean_path c" using o(1) by (simp_all add: orderly_def)
  obtain src where pf: "run_state (puller_for lib source cfg) ?w = (Inr src, ?w)" and src: "(src = Archive) = looks_like_path source"
    using puller_for_calm [OF p] by blast
  have w: "calm ?w" "dir_at (root ?w) (clean ?p)" using c o d by (simp_all add: calm_def)
  note ck = check_calm [OF w(2) c(2) w(1)]
  have "calm (tock ?w)" "memory (tock ?w) = None" using w(1) by simp_all
  from state_calm [OF this(1) c(2) this(2), of name] e c(1) obtain sc w1 where
    so: "run_state (state_of ?p name) (tock ?w) = ((sc, None), w1)" "tends (tock ?w) w1" by (auto simp: prod_eq_iff)
  have w1: "root w1 = root (cw_disk s)" "calm w1" "same_env (cw_disk s) w1"
    using so(2) w(1) same_env_calm [of "tock ?w" w1] by (auto simp: tends_def same_env_def)
  obtain removed e' w2 where sw: "run_state (sweep_temporaries ?p name) w1 = ((removed, e'), w2)" by (metis prod.exhaust)
  have "run_state (sweep_temporaries c name) w1 = ((removed, e'), w2)" using sw sweep_raw [OF _ c(2)] d(1) c(1) w1(1) by simp
  from wpD [OF sweep_in [OF _ calm_honest [OF w1(2)]] this] o(1) w1(1) calm_faultless [OF w1(2)]
  have s2: "elsewhere c {n. \<exists>v. lookup (root w1) (c @ [n]) = Some v \<and> swept (locks w1) name n v} (root w1) (root w2)" "e' = None" "same_env w1 w2"
    by auto
  have w2: "dir_at (root w2) c" "calm w2" "same_env (cw_disk s) w2"
    using s2 d(1) w1 same_env_calm env.step_trans by (auto simp: elsewhere_def)
  have kept: "lookup (root w2) (c @ [m]) = lookup (root w1) (c @ [m])" if "lookup (root w1) (c @ [m]) = None \<or> \<not> has_prefix m (temp_prefix name)" for m
    using s2(1) that by (auto simp: elsewhere_def swept_def)
  have fresh: "fresh_draws w2 c name"
    using v(4) w2 w1(1) d(1) kept by (auto simp: fresh_draws_def lookup_entry [symmetric] same_env_def)
  have "wp (fill ?st (source_puller lib src) c name source cli_owner True) (\<lambda>(x, heard) w'. x = None) w2"
    by (rule image_source.fill_calm [OF source_puller_source w2(1) d(2) n w2(2)])
      (use v(1-4) v(5) [OF src] fresh kept [of name] w1(1) in \<open>simp_all add: serves_def\<close>)
  moreover have "run_state (fill ?st (source_puller lib src) ?p name source cli_owner True) w2 = run_state (fill ?st (source_puller lib src) c name source cli_owner True) w2"
    unfolding c(1) by (rule fill_raw [OF source_puller_source c(2) _ n calm_honest [OF w2(2)]]) (use w2(1) c(1) in simp_all)
  ultimately obtain heard w3 where f: "run_state (fill ?st (source_puller lib src) ?p name source cli_owner True) w2 = ((None, heard), w3)"
    by (auto simp: wp_def split: prod.splits)
  have ps: "wp plain_store Q (cw_disk s) = Q ?st ?w" for Q by (simp add: plain_store_def wp_rules)
  show ?thesis
    by (simp add: do_import_def wp_bind wp_on_node ps wp_at [OF pf])
      (rule wp_warn, simp add: import_into_def import_missing_def s2(2) wp_rules wp_at [OF ck] wp_at [OF so(1)] wp_at [OF sw [unfolded s2(2)]] wp_at [OF f] split: option.split)
qed

subsection \<open>Properties\<close>

text \<open>C29: An import is confined and honest. Whatever fails, an import touches nothing but the entry of its
  resource and the temporary directories of it. When it exits with 0, the directory was found
  complete and nothing changed, or it now holds the whole image of the source, an archive if the
  source looks like a path and a registry otherwise, and it left no temporary directory. When it fails, the entry is what it was, or gone,
  or partly removed, and content that another writer left without a sentinel is untouched.\<close>

theorem import_confined:
  assumes "dns_law dns" "parse_line cobra args = Import fl source" "c = clean (path_of (fl_cache_path fl))"
    and "orderly (root (cw_disk s)) c" "honest (cw_disk s)"
    and run: "run_state (run_cli lib dns cobra args) s = (code, s')"
  shows "code \<in> {0, 1, exit_interrupted} \<and>
    (\<exists>src x. (src = Archive \<longleftrightarrow> looks_like_path source) \<and> (code = 0 \<longleftrightarrow> x = None) \<and>
      import_outcome (source_puller lib src) c (fl_name fl) source (root (cw_disk s)) x (root (cw_disk s')))"
  using wpD [OF run_cli_spec [of dns cobra args, OF assms(1-5)] run] .

definition sample_flags :: flags where
  "sample_flags = \<lparr>fl_name = ''boot'', fl_cache_path = ''/cache'', fl_ca_file = [], fl_skip_verify = False, fl_plain_http = False\<rparr>"

definition sample_cli :: cli_world where
  "sample_cli = \<lparr>cw_disk = cache_world [] None, cw_out = [], cw_err = []\<rparr>"

definition sample_cobra :: "root_command \<Rightarrow> string list \<Rightarrow> parsed" where
  "sample_cobra cmd args = Accepted [(''cache-path'', StringFlag ''/cache''), (''name'', StringFlag ''boot'')] ''/a.tar''"

lemma sample_parse [simp]: "parse_line sample_cobra args = Import sample_flags ''/a.tar''"
  by (simp add: parse_line_def sample_cobra_def flags_from_def string_flag_def bool_flag_def import_cmd_def sample_flags_def)

abbreviation sample_run :: "(cli_world, int) state" where
  "sample_run \<equiv> run_cli sample_library sample_dns sample_cobra []"

lemma sample_cli_simps [simp]:
  "clean (path_of (fl_cache_path sample_flags)) = [''cache'']" "no_climb (path_of ''/cache'')" "clean (path_of ''/cache'') = [''cache'']"
  "cw_disk sample_cli = cache_world [] None" "orderly (root (cache_world [] m)) [''cache'']"
  by (simp_all add: sample_flags_def path_of_def no_climb_def clean_def sample_cli_def orderly_def plain_def)

lemma sample_run_zero: "\<exists>s'. run_state sample_run sample_cli = (0, s')"
proof -
  have e: "snd (expected_state False (root (cache_world [] None)) [''cache''] ''boot'') = None"
    using wpD [OF state_of_faultless state_sample] by (auto simp: truthful_no_memory ctx_done_def cache_world_def faultless_def plain_def dest: sym)
  have sv: "serves (source_puller sample_library src) ''/a.tar''" if "(src = Archive) = looks_like_path ''/a.tar''" for src
    using that sample_serves by (simp add: looks_like_path_def source_puller_def serves_def)
  have "wp (do_import sample_library ''/cache'' ''boot'' ''/a.tar'' \<lparr>tls_ca_file = [], tls_skip_verify = False, tls_plain_http = False\<rparr>)
      (\<lambda>x s'. x = None) sample_cli"
    by (rule do_import_fills [OF refl _ _ _ _ _ _ _ _ _ _ _ sv])
      (use e in \<open>simp_all add: needs_no_ca_def looks_like_path_def direct_def may_replace_def fresh_draws_def plain_def temp_prefix_def\<close>)
  then have "wp sample_run (\<lambda>x s'. x = 0) sample_cli"
    using sample_validate(2) by (simp add: run_cli_def run_e_def sample_flags_def wp_rules) (erule wp_mono, simp add: wp_return)
  then show ?thesis by (auto simp: wp_def split: prod.splits)
qed

theorem import_confined_witness:
  "\<exists>s'. run_state sample_run sample_cli = (0, s') \<and> elsewhere [''cache''] (own_names ''boot'') (root (cache_world [] None)) (root (cw_disk s'))"
proof -
  obtain s' where run: "run_state sample_run sample_cli = (0, s')" using sample_run_zero by blast
  from import_confined [OF sample_dns_law sample_parse refl _ _ run] run show ?thesis
    by (auto simp: import_outcome_def sample_flags_def path_of_def clean_def)
qed

text \<open>C30: Importing again is free. After an import that exited with 0, whatever failed on its way, a later one in a
  world where no call fails and on the same tree exits with 0, says that the directory already holds
  the resource, and changes nothing. That is for an image whose file names are valid UTF-8 and whose sizes fit JSON, which State needs to find
  the files it lists, and for a run that need not read a CA file, which the second run does first.\<close>

theorem import_again:
  assumes dns: "dns_law dns" and args: "parse_line cobra args = Import fl source" and c: "c = clean (path_of (fl_cache_path fl))"
    and o: "orderly (root (cw_disk s)) c" "honest (cw_disk s)" and ca: "looks_like_path source \<or> fl_ca_file fl = []"
    and names: "\<And>src p i. (src = Archive) = looks_like_path source \<Longrightarrow> gives (source_puller lib src) source p i \<Longrightarrow> names_valid (pd_entries p) \<and> sizes_small (pd_entries p)"
    and first: "run_state (run_cli lib dns cobra args) s = (0, s1)"
    and t: "root (cw_disk t) = root (cw_disk s1)" "calm (cw_disk t)"
    and second: "run_state (run_cli lib dns cobra args) t = (code, t')"
  shows "code = 0 \<and> root (cw_disk t') = root (cw_disk s1) \<and> cw_out t' = cw_out t @ [AlreadyHolds (fl_cache_path fl) (fl_name fl)]"
proof -
  let ?cfg = "\<lparr>tls_ca_file = fl_ca_file fl, tls_skip_verify = fl_skip_verify fl, tls_plain_http = fl_plain_http fl\<rparr>"
  have ok: "validate dns (fl_name fl) (fl_cache_path fl) = None" "\<not> (fl_ca_file fl \<noteq> [] \<and> fl_skip_verify fl)"
    "\<not> (fl_plain_http fl \<and> fl_ca_file fl \<noteq> [])" "\<not> (fl_plain_http fl \<and> fl_skip_verify fl)"
    using first args by (auto simp: run_cli_def run_e_def exit_interrupted_def split: option.splits if_splits)
  have v: "dns_subdomain (fl_name fl)" "valid_cache_path (fl_cache_path fl)" using dns ok(1) by (auto simp: validate_None dns_law_def)
  note nc = valid_path_no_climb [OF v(2)]
  from wpD [OF run_cli_spec [of dns cobra args, OF dns args c o] first] obtain src where src: "(src = Archive) = looks_like_path source" and
    io: "import_outcome (source_puller lib src) c (fl_name fl) source (root (cw_disk s)) None (root (cw_disk s1))" by auto
  have d: "dir_at (root (cw_disk t)) c" "clean_path c" using io o(1) t(1) by (auto simp: import_outcome_def elsewhere_def orderly_def)
  have "expected_state False (root (cw_disk t)) c (fl_name fl) = (Complete, None)"
    using io names [OF src] image_complete [OF _ _ d(2) dns_plain(1) [OF v(1)]] t(1)
    by (auto simp: import_outcome_def imported_def whole_def)
  then have "wp (do_import lib (fl_cache_path fl) (fl_name fl) source ?cfg) (\<lambda>x s'. x = None \<and> root (cw_disk s') = root (cw_disk t) \<and>
      cw_out s' = cw_out t @ [AlreadyHolds (fl_cache_path fl) (fl_name fl)]) t"
    by (intro do_import_complete [OF c nc d(1) t(2)]) (use ca ok(4) in \<open>auto simp: needs_no_ca_def\<close>)
  then have "wp (run_cli lib dns cobra args) (\<lambda>code s'. code = 0 \<and> root (cw_disk s') = root (cw_disk t) \<and>
      cw_out s' = cw_out t @ [AlreadyHolds (fl_cache_path fl) (fl_name fl)]) t"
    using ok args by (simp add: run_cli_def run_e_def wp_rules) (erule wp_mono, simp add: wp_return)
  from wpD [OF this second] t(1) show ?thesis by simp
qed

theorem import_again_witness:
  "\<exists>s' s''. run_state sample_run sample_cli = (0, s') \<and>
     run_state sample_run (s'\<lparr>cw_disk := (cw_disk s')\<lparr>faults := (\<lambda>_. None), cancel := None\<rparr>\<rparr>) = (0, s'') \<and> root (cw_disk s'') = root (cw_disk s')"
proof -
  obtain s' where run: "run_state sample_run sample_cli = (0, s')" using sample_run_zero by blast
  let ?t = "s'\<lparr>cw_disk := (cw_disk s')\<lparr>faults := (\<lambda>_. None), cancel := None\<rparr>\<rparr>"
  obtain code t' where run2: "run_state sample_run ?t = (code, t')" by fastforce
  have "names_valid (pd_entries p) \<and> sizes_small (pd_entries p)"
    if "(src = Archive) = looks_like_path ''/a.tar''" "gives (source_puller sample_library src) ''/a.tar'' p i" for src p i
    using that sample_valid sample_gives by (simp add: looks_like_path_def source_puller_def)
  note second = import_again [OF sample_dns_law sample_parse refl _ _ _ this run _ _ run2]
  from second run run2 show ?thesis by (auto simp: looks_like_path_def calm_def)
qed

end
