(* ===== verification/Seeding.thy ===== *)
theory Seeding
  imports PassSteady CliSpec
begin

section \<open>What the command seeds, the agent adopts\<close>

text \<open>
  The command and the agent meet on disk only: the command fills a directory and leaves its name in the
  sentinel; a later pass of the agent finds the directory complete, compares the layers its record lists
  with those of the image the resource names now, and takes it over. Here both are put together: an
  import that exited with 0, then a pass that meets no failure and a registry that has the same image.
\<close>

subsection \<open>The survey finds the seeded directory\<close>

lemma survey_one_plan:
  "wp (survey_one cp n p) (\<lambda>p' _. \<forall>m. m \<noteq> n \<longrightarrow> map_of (pn_seeded p') m = map_of (pn_seeded p) m \<and> map_of (pn_want p') m = map_of (pn_want p) m) w"
  unfolding survey_one_def Let_def
  by (auto simp: wp_bind wp_run [of "state_of cp n"] wp_run [of "read_record cp n"] wp_return set_want_def add_err_def
      split: option.split sum.split prod.split)

lemma survey_plan:
  "n \<notin> ic_name ` set ics \<Longrightarrow> wp (survey cp ics p) (\<lambda>p' _. map_of (pn_seeded p') n = map_of (pn_seeded p) n \<and> map_of (pn_want p') n = map_of (pn_want p) n) w"
proof (induction ics arbitrary: p w)
  case (Cons ic ics)
  show ?case
    unfolding survey.simps wp_bind
  proof (rule wp_mono [OF survey_one_plan], goal_cases)
    case (1 p1 w1)
    then have e: "map_of (pn_seeded p1) n = map_of (pn_seeded p) n \<and> map_of (pn_want p1) n = map_of (pn_want p) n" using Cons.prems by auto
    have "n \<notin> ic_name ` set ics" using Cons.prems by simp
    then show ?case by (rule wp_mono [OF Cons.IH]) (use e in simp)
  qed
qed (simp add: wp_rules)

lemma survey_one_seeded:
  assumes "clean_path cp" "plain n" "truthful_under cp w" "calm w"
    and f: "found_complete (memory w \<noteq> None) (root w) cp n sn" "rec_owner (sn_record sn) \<noteq> owner_agent"
  shows "wp (survey_one cp n p) (\<lambda>p' _. map_of (pn_seeded p') n = Some (sn_record sn) \<and> map_of (pn_want p') n = Some status_pending) w"
  by (rule wp_mono [OF survey_one_found [OF assms(1-5)]]) (auto simp: f(2) set_want_def Let_def)

lemma survey_seeded:
  "ic \<in> set ics \<Longrightarrow> distinct (map ic_name ics) \<Longrightarrow> clean_path cp \<Longrightarrow> list_all (\<lambda>ic. plain (ic_name ic)) ics \<Longrightarrow> truthful_under cp w \<Longrightarrow> calm w \<Longrightarrow>
   surveyed (memory w \<noteq> None) cp (root w) D p \<Longrightarrow>
   found_complete (memory w \<noteq> None) (root w) cp (ic_name ic) sn \<Longrightarrow> rec_owner (sn_record sn) \<noteq> owner_agent \<Longrightarrow>
   wp (survey cp ics p) (\<lambda>p' _. map_of (pn_seeded p') (ic_name ic) = Some (sn_record sn) \<and> map_of (pn_want p') (ic_name ic) = Some status_pending) w"
proof (induction ics arbitrary: p w D)
  case (Cons jc ics)
  show ?case
  proof (cases "ic_name jc = ic_name ic")
    case True
    then have out: "ic_name ic \<notin> ic_name ` set ics" using Cons.prems(2) by auto
    have "plain (ic_name ic)" using Cons.prems(4) True by simp
    from survey_one_seeded [OF Cons.prems(3) this Cons.prems(5,6,8,9)] show ?thesis
      unfolding survey.simps wp_bind True
      by (rule wp_mono) (rule wp_mono [OF survey_plan [OF out]], simp)
  next
    case False
    have jc: "plain (ic_name jc)" using Cons.prems(4) by simp
    from survey_one_spec [OF Cons.prems(3) jc Cons.prems(5,7)] show ?thesis
      unfolding survey.simps wp_bind
    proof (rule wp_mono, goal_cases)
      case (1 p1 w1)
      then have w1: "root w1 = root w" "(memory w1 \<noteq> None) = (memory w \<noteq> None)" "calm w1"
        using Cons.prems(6) same_env_calm by (auto simp: tends_def same_kind_def)
      show ?case by (rule Cons.IH) (use Cons.prems 1 w1 False in auto)
    qed
  qed
qed simp

subsection \<open>The loop adopts it\<close>

text \<open>A source that names an image of these layers whenever nothing fails.\<close>

definition resolves :: "puller \<Rightarrow> string \<Rightarrow> string list \<Rightarrow> bool" where
  "resolves pl source layers \<longleftrightarrow> (\<forall>w. calm w \<longrightarrow> (\<exists>img w'. run_state (pl_resolve pl source) w = (Inr img, w') \<and> id_layers img = layers))"

lemma adopt_seeded_match:
  assumes src: "image_source (nr_puller nr)" and cp: "cp = nr_cache_path nr" and n: "n = ic_name ic"
    and d: "dir_at (root (rw_disk s)) cp" "clean_path cp" "plain n" "calm (rw_disk s)"
    and m: "resolves (nr_puller nr) (ic_source ic) (rec_layers (sn_record sn))" "rec_layers (sn_record sn) \<noteq> []"
    and f: "found_complete checks r0 cp n sn" "dir_at r0 cp" "tidy (lookup r0 (cp @ [n]))"
    and l: "lookup (root (rw_disk s)) (cp @ [n]) = lookup r0 (cp @ [n])"
  shows "wp (adopt_seeded nr ic (sn_record sn)) (\<lambda>x _. x = Inr True) s"
proof -
  obtain i es g where e: "lookup r0 (cp @ [n]) = Some (Dir i es)" "map_of es sentinel_name = Some (Reg g)" "unmarshal (fdata g) = Some sn"
    using found_complete_dir [OF f(1,2) d(2,3) f(3)] by blast
  obtain img w where r: "run_state (pl_resolve (nr_puller nr) (ic_source ic)) (rw_disk s) = (Inr img, w)" "id_layers img = rec_layers (sn_record sn)"
    using m(1) d(4) unfolding resolves_def by blast
  have lw: "looks (rw_disk s) w" by (rule alongD [OF image_source.resolve_looks [OF src] r(1)])
  note w = looks_facts [OF lw]
  have "calm w" using lw d(4) same_env_calm by (auto simp: looks_def)
  have "wp (adopt cp n) (\<lambda>x _. x = None) w"
    by (rule adopt_calm [OF _ d(2,3) _ _ e(2,3)]) (use w d l e(1) f(3) \<open>calm w\<close> in simp_all)
  then show ?thesis
    unfolding adopt_seeded_def wp_bind wp_on_disk cp [symmetric] n [symmetric]
    by (subst wp_run, simp add: r m(2) wp_rules) (erule wp_mono, simp add: wp_rules)
qed

lemma sync_one_plan:
  "wp (sync_one nr ic p) (\<lambda>p' _. pn_seeded p' = pn_seeded p \<and> pn_unread p' = pn_unread p \<and>
    (\<forall>m. m \<noteq> ic_name ic \<longrightarrow> map_of (pn_want p') m = map_of (pn_want p) m)) s"
  by (auto simp: sync_one_def wp_bind wp_run [of "sync nr ic"] wp_rules add_err_def set_want_def split: option.split)

lemma converge_one_plan:
  "wp (converge_one nr ic p) (\<lambda>p' _. pn_seeded p' = pn_seeded p \<and> pn_unread p' = pn_unread p \<and>
    (\<forall>m. m \<noteq> ic_name ic \<longrightarrow> map_of (pn_want p') m = map_of (pn_want p) m)) s"
  by (auto simp: converge_one_def wp_bind wp_run [of "adopt_seeded nr ic _"] wp_rules sync_one_plan add_err_def set_want_def
      split: option.split sum.split)

lemma adopted_from_cong:
  "lookup r' (cp @ [ic_name ic]) = lookup r (cp @ [ic_name ic]) \<Longrightarrow> adopted_from pl checks cp r0 ic r' = adopted_from pl checks cp r0 ic r"
  by (simp add: adopted_from_def)

text \<open>The turns of other resources leave the entry of this one alone.\<close>

definition seeds_found :: "bool \<Rightarrow> path \<Rightarrow> node \<Rightarrow> plan \<Rightarrow> bool" where
  "seeds_found checks cp r0 p \<longleftrightarrow> (\<forall>n rec. map_of (pn_seeded p) n = Some rec \<longrightarrow>
     (\<exists>sn. found_complete checks r0 cp n sn \<and> rec = sn_record sn \<and> rec_owner rec \<noteq> owner_agent))"

lemma converge_turn:
  assumes src: "image_source (nr_puller nr)" and cp: "cp = nr_cache_path nr" and c: "clean_path cp" "before_lock (nr_store nr) = None" "dir_at r0 cp"
    and ic: "plain (ic_name ic)" "\<not> is_temporary (ic_name ic)" "tidy (lookup r0 (cp @ [ic_name ic]))"
    and s: "dir_at (root (rw_disk s)) cp" "calm (rw_disk s)" "lookup (root (rw_disk s)) (cp @ [ic_name ic]) = lookup r0 (cp @ [ic_name ic])"
      "seeds_found checks cp r0 p"
  shows "wp (converge_one nr ic p) (\<lambda>p' s'. dir_at (root (rw_disk s')) cp \<and> calm (rw_disk s') \<and>
    (\<forall>m. m \<noteq> ic_name ic \<longrightarrow> \<not> is_temporary m \<longrightarrow> lookup (root (rw_disk s')) (cp @ [m]) = lookup (root (rw_disk s)) (cp @ [m])) \<and>
    seeds_found checks cp r0 p' \<and> pn_seeded p' = pn_seeded p \<and> pn_unread p' = pn_unread p \<and>
    (\<forall>m. m \<noteq> ic_name ic \<longrightarrow> map_of (pn_want p') m = map_of (pn_want p) m)) s"
proof -
  have one: "wp (converge_one nr ic p) (\<lambda>p' s'. step_on cp {ic_name ic} s s') s"
    by (rule wp_mono [OF converge_one_spec [OF src cp refl s(1) c(1) ic(1) calm_honest [OF s(2)] c(2,3) ic(3) s(3)]])
      (use s(4) in \<open>auto simp: seeds_found_def\<close>)
  then have "wp (converge_one nr ic p) (\<lambda>p' s'. step_on cp {ic_name ic} s s' \<and> pn_seeded p' = pn_seeded p \<and> pn_unread p' = pn_unread p \<and>
      (\<forall>m. m \<noteq> ic_name ic \<longrightarrow> map_of (pn_want p') m = map_of (pn_want p) m)) s"
    using converge_one_plan [of nr ic p s] by (simp add: wp_conj)
  then show ?thesis
  proof (rule wp_mono, goal_cases)
    case (1 p1 s1)
    then have st: "step_on cp {ic_name ic} s s1" by simp
    then have "calm (rw_disk s1)" "dir_at (root (rw_disk s1)) cp"
      using s(1,2) same_env_calm by (auto simp: step_on_def pass_frame_def)
    then show ?case using 1 st pass_frame_other [of cp "ic_name ic"] s(4) by (auto simp: step_on_def seeds_found_def)
  qed
qed

definition loop_ok :: "path \<Rightarrow> node \<Rightarrow> image_cache \<Rightarrow> bool" where
  "loop_ok cp r0 ic \<longleftrightarrow> plain (ic_name ic) \<and> \<not> is_temporary (ic_name ic) \<and> tidy (lookup r0 (cp @ [ic_name ic]))"

lemma later_name: "distinct (map ic_name (ic # js)) \<Longrightarrow> jc \<in> set js \<Longrightarrow> ic_name jc \<noteq> ic_name ic"
  by (metis distinct.simps(2) image_eqI list.set_map list.simps(9))

lemma converge_others:
  assumes src: "image_source (nr_puller nr)" and cp: "cp = nr_cache_path nr" and c: "clean_path cp" "before_lock (nr_store nr) = None" "dir_at r0 cp"
  shows "\<forall>ic \<in> set js. loop_ok cp r0 ic \<Longrightarrow> distinct (map ic_name js) \<Longrightarrow> dir_at (root (rw_disk s)) cp \<Longrightarrow> calm (rw_disk s) \<Longrightarrow>
    \<forall>ic \<in> set js. lookup (root (rw_disk s)) (cp @ [ic_name ic]) = lookup r0 (cp @ [ic_name ic]) \<Longrightarrow> seeds_found checks cp r0 p \<Longrightarrow>
    m \<notin> ic_name ` set js \<Longrightarrow> \<not> is_temporary m \<Longrightarrow>
    wp (converge nr js p) (\<lambda>_ s'. lookup (root (rw_disk s')) (cp @ [m]) = lookup (root (rw_disk s)) (cp @ [m])) s"
proof (induction js arbitrary: p s)
  case Nil
  then show ?case by (simp add: wp_rules)
next
  case (Cons ic js)
  have ic: "loop_ok cp r0 ic" and l: "lookup (root (rw_disk s)) (cp @ [ic_name ic]) = lookup r0 (cp @ [ic_name ic])" using Cons.prems(1,5) by auto
  have dj: "ic_name jc \<noteq> ic_name ic" "\<not> is_temporary (ic_name jc)" if "jc \<in> set js" for jc
    using Cons.prems(1) later_name [OF Cons.prems(2) that] that by (auto simp: loop_ok_def)
  show ?case
    unfolding converge.simps wp_bind
  proof (rule wp_mono [OF converge_turn [OF src cp c _ _ _ Cons.prems(3,4) l Cons.prems(6)]], goal_cases)
    case (4 p1 s1)
    have "wp (converge nr js p1) (\<lambda>_ s'. lookup (root (rw_disk s')) (cp @ [m]) = lookup (root (rw_disk s1)) (cp @ [m])) s1"
      by (rule Cons.IH) (use Cons.prems 4 dj in auto)
    then show ?case by (rule wp_mono) (use 4 Cons.prems(7,8) in auto)
  qed (use ic in \<open>auto simp: loop_ok_def\<close>)
qed

lemma converge_match:
  assumes src: "image_source (nr_puller nr)" and cp: "cp = nr_cache_path nr" and c: "clean_path cp" "before_lock (nr_store nr) = None" "dir_at r0 cp"
    and m: "resolves (nr_puller nr) (ic_source ic) (rec_layers (sn_record sn))" "rec_layers (sn_record sn) \<noteq> []"
    and f: "found_complete checks r0 cp (ic_name ic) sn"
  shows "ic \<in> set js \<Longrightarrow> \<forall>ic \<in> set js. loop_ok cp r0 ic \<Longrightarrow> distinct (map ic_name js) \<Longrightarrow> dir_at (root (rw_disk s)) cp \<Longrightarrow> calm (rw_disk s) \<Longrightarrow>
    \<forall>ic \<in> set js. lookup (root (rw_disk s)) (cp @ [ic_name ic]) = lookup r0 (cp @ [ic_name ic]) \<Longrightarrow> seeds_found checks cp r0 p \<Longrightarrow>
    map_of (pn_seeded p) (ic_name ic) = Some (sn_record sn) \<Longrightarrow> map_of (pn_want p) (ic_name ic) = Some status_pending \<Longrightarrow> ic_name ic \<notin> set (pn_unread p) \<Longrightarrow>
    wp (converge nr js p) (\<lambda>_ s'. adopted_from (nr_puller nr) checks cp r0 ic (root (rw_disk s'))) s"
proof (induction js arbitrary: p s)
  case (Cons jc js)
  have jc: "loop_ok cp r0 jc" and l: "lookup (root (rw_disk s)) (cp @ [ic_name jc]) = lookup r0 (cp @ [ic_name jc])" using Cons.prems(2,6) by auto
  have dj: "ic_name kc \<noteq> ic_name jc" "\<not> is_temporary (ic_name kc)" if "kc \<in> set js" for kc
    using Cons.prems(2) later_name [OF Cons.prems(3) that] that by (auto simp: loop_ok_def)
  have turn: "wp (converge_one nr jc p) (\<lambda>p' s'. dir_at (root (rw_disk s')) cp \<and> calm (rw_disk s') \<and>
    (\<forall>m. m \<noteq> ic_name jc \<longrightarrow> \<not> is_temporary m \<longrightarrow> lookup (root (rw_disk s')) (cp @ [m]) = lookup (root (rw_disk s)) (cp @ [m])) \<and>
    seeds_found checks cp r0 p' \<and> pn_seeded p' = pn_seeded p \<and> pn_unread p' = pn_unread p \<and>
    (\<forall>m. m \<noteq> ic_name jc \<longrightarrow> map_of (pn_want p') m = map_of (pn_want p) m)) s"
    by (rule converge_turn [OF src cp c _ _ _ Cons.prems(4,5) l Cons.prems(7)]) (use jc in \<open>auto simp: loop_ok_def\<close>)
  show ?case
  proof (cases "ic = jc")
    case True
    have ok: "plain (ic_name ic)" "\<not> is_temporary (ic_name ic)" "tidy (lookup r0 (cp @ [ic_name ic]))" using jc True by (auto simp: loop_ok_def)
    have out: "ic_name ic \<notin> ic_name ` set js" using Cons.prems(3) True by auto
    have owner: "rec_owner (sn_record sn) \<noteq> owner_agent" using Cons.prems(7,8) by (auto simp: seeds_found_def)
    have "wp (adopt_seeded nr ic (sn_record sn)) (\<lambda>x s'. x = Inr True \<and> (x = Inr True \<longrightarrow> adopted_from (nr_puller nr) checks cp r0 ic (root (rw_disk s')))) s"
      unfolding wp_conj
      using adopt_seeded_match [OF src cp refl Cons.prems(4) c(1) ok(1) Cons.prems(5) m f c(3) ok(3) l [folded True]]
        adopt_seeded_spec [OF src cp refl Cons.prems(4) c(1) ok(1) f c(3) ok(3) owner l [folded True]]
      by (auto elim: wp_mono)
    then have "wp (converge_one nr jc p) (\<lambda>_ s'. adopted_from (nr_puller nr) checks cp r0 ic (root (rw_disk s'))) s"
      using Cons.prems(8-10) unfolding True [symmetric]
      by (auto simp: converge_one_def map_get_def wp_bind wp_rules elim!: wp_mono)
    with turn have "wp (converge_one nr jc p) (\<lambda>p' s'. (dir_at (root (rw_disk s')) cp \<and> calm (rw_disk s') \<and>
      (\<forall>m. m \<noteq> ic_name jc \<longrightarrow> \<not> is_temporary m \<longrightarrow> lookup (root (rw_disk s')) (cp @ [m]) = lookup (root (rw_disk s)) (cp @ [m])) \<and>
      seeds_found checks cp r0 p' \<and> pn_seeded p' = pn_seeded p \<and> pn_unread p' = pn_unread p \<and>
      (\<forall>m. m \<noteq> ic_name jc \<longrightarrow> map_of (pn_want p') m = map_of (pn_want p) m)) \<and> adopted_from (nr_puller nr) checks cp r0 ic (root (rw_disk s'))) s"
      by (simp only: wp_conj)
    then show ?thesis
      unfolding converge.simps wp_bind
    proof (rule wp_mono, goal_cases)
      case (1 p1 s1)
      have "wp (converge nr js p1) (\<lambda>_ s'. lookup (root (rw_disk s')) (cp @ [ic_name ic]) = lookup (root (rw_disk s1)) (cp @ [ic_name ic])) s1"
        by (rule converge_others [OF src cp c, where checks = checks]) (use Cons.prems 1 dj out ok in auto)
      then show ?case by (rule wp_mono) (use 1 adopted_from_cong in blast)
    qed
  next
    case False
    then have i: "ic \<in> set js" using Cons.prems(1) by simp
    show ?thesis
      unfolding converge.simps wp_bind
    proof (rule wp_mono [OF turn], goal_cases)
      case (1 p1 s1)
      show ?case by (rule Cons.IH) (use Cons.prems 1 dj i in auto)
    qed
  qed
qed simp

subsection \<open>The pass\<close>

lemma run_pass_adopts:
  assumes src: "image_source (nr_puller nr)" and a: "admissible nr ics (rw_disk s)" "able nr ics (rw_disk s)" and ic: "ic \<in> set ics"
    and f: "found_complete (memory (rw_disk s) \<noteq> None) (root (rw_disk s)) (nr_cache_path nr) (ic_name ic) sn" "rec_owner (sn_record sn) \<noteq> owner_agent"
    and m: "resolves (nr_puller nr) (ic_source ic) (rec_layers (sn_record sn))" "rec_layers (sn_record sn) \<noteq> []"
  shows "wp (run_pass nr node ics) (\<lambda>_ s'. adopted_from (nr_puller nr) (memory (rw_disk s) \<noteq> None) (nr_cache_path nr) (root (rw_disk s)) ic (root (rw_disk s'))) s"
proof -
  define cp where "cp = nr_cache_path nr"
  define r where "r = root (rw_disk s)"
  define ch where "ch = (memory (rw_disk s) \<noteq> None)"
  let ?D = "ic_name ` set ics" and ?pl = "nr_puller nr"
  have o: "orderly r cp" "dir_at r cp" "clean_path cp" "before_lock (nr_store nr) = None" "distinct (map ic_name ics)"
    and t: "truthful_under cp (rw_disk s)" and ok: "\<forall>ic \<in> set ics. loop_ok cp r ic" and ok': "list_all (\<lambda>ic. plain (ic_name ic)) ics"
    using a(1) by (auto simp: admissible_def orderly_def loop_ok_def cp_def r_def list_all_iff)
  have c: "calm (rw_disk s)" "accepts nr" and ex: "\<forall>ic \<in> set ics. snd (expected_state ch r cp (ic_name ic)) = None"
    using a(2) unfolding able_def cp_def [symmetric] r_def [symmetric] ch_def [symmetric] by blast+
  have sv: "wp (survey cp ics empty_plan) (\<lambda>p w'. (map_of (pn_seeded p) (ic_name ic) = Some (sn_record sn) \<and> map_of (pn_want p) (ic_name ic) = Some status_pending) \<and>
      pn_errs p = pn_errs empty_plan \<and> tends (rw_disk s) w' \<and> same_kind (rw_disk s) w' \<and> truthful_under cp w' \<and> surveyed ch cp r ({} \<union> ?D) p) (rw_disk s)"
    unfolding wp_conj [of _ "\<lambda>p _. map_of (pn_seeded p) (ic_name ic) = _ \<and> _ p"] wp_conj [of _ "\<lambda>p _. pn_errs p = pn_errs empty_plan"]
    using survey_seeded [OF ic o(5,3) ok' t c(1) surveyed_empty f [folded cp_def]]
      survey_calm [OF o(3) ok' t surveyed_empty c(1) ex [unfolded ch_def r_def]] survey_spec [OF o(3) ok' t surveyed_empty]
    by (simp add: ch_def r_def)
  show ?thesis
    unfolding run_pass_def wp_bind wp_on_disk cp_def [symmetric] r_def [symmetric] ch_def [symmetric]
  proof (rule wp_mono [OF sv], goal_cases)
    case (1 p1 w1)
    then have w1: "root w1 = r" "same_env (rw_disk s) w1" and p1: "surveyed ch cp r ?D p1" "pn_errs p1 = []"
      and found: "map_of (pn_seeded p1) (ic_name ic) = Some (sn_record sn)" "map_of (pn_want p1) (ic_name ic) = Some status_pending"
      by (auto simp: tends_def r_def empty_plan_def)
    have unread: "pn_unread p1 = []" using p1 by (auto simp: surveyed_def)
    have c1: "calm w1" using same_env_calm [OF w1(2)] c(1) by simp
    show ?case
    proof (rule wp_mono [OF patch_calm [OF c(2) wanted_values [OF surveyed_converging [OF p1(1), of ?pl]]]], goal_cases)
      case (1 x s1)
      then obtain nd where s1: "rw_disk s1 = w1" "x = (nd, None)" by auto
      have sp: "seeds_found ch cp r p1" using p1(1) by (simp add: surveyed_def seeds_found_def)
      have "wp (converge nr ics p1) (\<lambda>_ s'. adopted_from ?pl ch cp r ic (root (rw_disk s'))) s1"
        by (rule converge_match [OF src cp_def o(3,4,2) m f(1) [folded cp_def r_def ch_def] ic ok o(5)])
          (use s1(1) w1 c1 o sp found unread in simp_all)
      moreover have "wp (converge nr ics p1) (\<lambda>p' s'. pn_errs p' = [] \<and> step_on cp ?D s1 s' \<and>
          converging ?pl ch cp r ics p' (root (rw_disk s')) \<and> (\<forall>ic \<in> set ics. map_of (pn_want p') (ic_name ic) = Some status_synced)) s1"
        by (rule loop_calm [OF src a cp_def r_def ch_def _ _ p1]) (simp_all add: s1(1) w1)
      ultimately have "wp (converge nr ics p1) (\<lambda>p' s'. adopted_from ?pl ch cp r ic (root (rw_disk s')) \<and> pn_errs p' = [] \<and> step_on cp ?D s1 s' \<and>
          converging ?pl ch cp r ics p' (root (rw_disk s')) \<and> (\<forall>ic \<in> set ics. map_of (pn_want p') (ic_name ic) = Some status_synced)) s1"
        by (simp only: wp_conj)
      then show ?case
        unfolding s1(2) prod.case wp_bind add_err_opt_def option.case
      proof (rule wp_mono, goal_cases)
        case (1 p2 s2)
        then have so: "step_on cp ?D s1 s2" and cv: "converging ?pl ch cp r ics p2 (root (rw_disk s2))" by auto
        have fr: "pass_frame cp ?D r (root (rw_disk s2))" and h2: "honest (rw_disk s2)"
          using so s1 w1 c same_env_calm [of "rw_disk s" w1] same_env_calm [of w1 "rw_disk s2"] calm_honest by (auto simp: step_on_def)
        have K: "set (pn_keep p2) = ?D" using cv by (simp add: converging_def)
        have own: "\<forall>n \<in> ?D. plain n \<and> own_at cp n (root (rw_disk s2))"
          using so s1 w1 ok o orderly_entry [OF o(1)] by (auto simp: step_on_def own_at_def loop_ok_def lookup_entry split: option.splits)
        show ?case
          unfolding wp_bind [symmetric]
        proof (rule wp_mono [OF pass_finish [OF orderly_after [OF o(1) fr own] h2 K cp_def]], goal_cases)
          case (1 y s3)
          then have "lookup (root (rw_disk s3)) (cp @ [ic_name ic]) = lookup (root (rw_disk s2)) (cp @ [ic_name ic])" using ic by blast
          with \<open>adopted_from _ _ _ _ _ _ \<and> _\<close> adopted_from_cong show ?case by blast
        qed
      qed
    qed
  qed
qed

subsection \<open>Properties\<close>

lemma imported_found:
  assumes i: "imported pl cp name source r" and d: "clean_path cp" "plain name" and l: "list_all valid_utf8 layers"
    and im: "\<And>p i. gives pl source p i \<Longrightarrow> names_valid (pd_entries p) \<and> sizes_small (pd_entries p) \<and> id_layers i = layers"
  shows "\<exists>sn. found_complete checks r cp name sn \<and> rec_owner (sn_record sn) = cli_owner \<and> rec_layers (sn_record sn) = layers"
proof -
  obtain p i where p: "gives pl source p i" "whole (pd_entries p) (pd_end p)" "holds_image r cp name (fill_record cli_owner source i) (pd_entries p)"
    using i by (auto simp: imported_def)
  let ?sn = "sanitize_sentinel (sentinel_for (fill_record cli_owner source i) (map file_of (wanted (pd_entries p))))"
  have a: "acceptable (pd_entries p) (pd_end p)" using p(2) by (simp add: whole_def)
  have "expected_state checks r cp name = (Complete, None)" using image_complete [OF p(3) a d] im [OF p(1)] by blast
  moreover have "recorded r cp name = Some ?sn" using holds_image_read [OF p(3) a d] image_sentinel im [OF p(1)] by (simp add: recorded_def)
  moreover have "map sanitize layers = layers" using l by (intro map_idI) (auto simp: sanitize_valid list_all_iff)
  moreover have "sanitize cli_owner = cli_owner" by (simp add: cli_owner_def sanitize_valid seeded_ascii)
  ultimately show ?thesis
    using im [OF p(1)] by (intro exI [of _ ?sn]) (simp add: found_complete_def sanitize_sentinel_def sentinel_for_def Let_def)
qed

text \<open>The sample node, on whose disk the sample command has run.\<close>

definition node_of :: "cli_world \<Rightarrow> (labels, path set) rworld" where
  "node_of s = (sample_pass [])\<lparr>rw_disk := (cw_disk s)\<lparr>faults := (\<lambda>_. None), cancel := None, memory := None\<rparr>\<rparr>"

lemma node_of_simps [simp]:
  "root (rw_disk (node_of s)) = root (cw_disk s)" "memory (rw_disk (node_of s)) = None" "calm (rw_disk (node_of s))" "rw_sent (node_of s) = []"
  "cl_get (nr_client sample_reconciler) n (rw_server (node_of s)) = Inr []"
  "cl_list (nr_client sample_reconciler) (rw_server (node_of s)) = Inr [boot_cache]"
  by (simp_all add: node_of_def calm_def sample_pass_def sample_reconciler_def sample_cluster_def)

lemma sample_not_there: "expected_state False (root (cache_world [] None)) [''cache''] ''boot'' = (Absent, None)"
  using wpD [OF state_of_faultless state_sample] by (auto simp: truthful_no_memory ctx_done_def cache_world_def faultless_def plain_def dest: sym)

lemma sample_layers:
  assumes "(src = Archive) = looks_like_path ''/a.tar''" "gives (source_puller sample_library src) ''/a.tar'' p i"
  shows "names_valid (pd_entries p) \<and> sizes_small (pd_entries p) \<and> id_layers i = [''sha256:2'']"
proof -
  have g: "gives (tarball_puller sample_library) ''/a.tar'' p i" using assms by (simp add: looks_like_path_def source_puller_def)
  then obtain w w1 where "run_state (pl_pull (tarball_puller sample_library) ''/a.tar'') w = (Inr (p, i), w1)" by (auto simp: gives_def)
  moreover have "wp (pl_pull (tarball_puller sample_library) ''/a.tar'') (\<lambda>x _. \<forall>p i. x = Inr (p, i) \<longrightarrow> id_layers i = [''sha256:2'']) w"
    by (auto simp: tarball_puller_def puller_of_def tarball_open_def wp_rules identified_def sample_pulled [unfolded sample_library_def] sample_library_def)
  ultimately have "id_layers i = [''sha256:2'']" by (auto dest: wpD)
  with sample_gives [OF g] sample_valid show ?thesis by simp
qed

lemma sample_resolves: "resolves (nr_puller sample_reconciler) (ic_source boot_cache) [''sha256:2'']"
  unfolding resolves_def
proof (intro allI impI)
  fix w :: sworld
  have "wp (pl_resolve (nr_puller sample_reconciler) (ic_source boot_cache)) (\<lambda>x _. \<exists>img. x = Inr img \<and> id_layers img = [''sha256:2'']) w"
    by (simp add: boot_cache_def remote_puller_def puller_of_def remote_open_def wp_rules identified_def
        sample_pulled [unfolded sample_library_def] sample_library_def)
  then show "\<exists>img w'. run_state (pl_resolve (nr_puller sample_reconciler) (ic_source boot_cache)) w = (Inr img, w') \<and> id_layers img = [''sha256:2'']"
    by (cases "run_state (pl_resolve (nr_puller sample_reconciler) (ic_source boot_cache)) w") (auto dest: wpD)
qed

lemma sample_imported:
  assumes "run_state sample_run sample_cli = (0, s1)"
  shows "admissible sample_reconciler (selected [] [boot_cache]) (rw_disk (node_of s1))" "able sample_reconciler (selected [] [boot_cache]) (rw_disk (node_of s1))"
proof -
  let ?r = "root (cw_disk s1)"
  have out: "\<exists>src. (src = Archive) = looks_like_path ''/a.tar'' \<and>
      import_outcome (source_puller sample_library src) [''cache''] ''boot'' ''/a.tar'' (root (cache_world [] None)) None ?r"
    using wpD [OF run_cli_spec [of sample_dns sample_cobra "[]", OF sample_dns_law sample_parse refl] assms]
    by (auto simp: sample_flags_def)
  then obtain src where src: "(src = Archive) = looks_like_path ''/a.tar''"
    and im: "imported (source_puller sample_library src) [''cache''] ''boot'' ''/a.tar'' ?r"
      "\<And>n. n \<noteq> ''boot'' \<Longrightarrow> lookup ?r ([''cache''] @ [n]) = None"
    using sample_not_there by (auto simp: import_outcome_def)
  from im(1) obtain p i where p: "gives (source_puller sample_library src) ''/a.tar'' p i" "whole (pd_entries p) (pd_end p)"
    "holds_image ?r [''cache''] ''boot'' (fill_record cli_owner ''/a.tar'' i) (pd_entries p)" by (auto simp: imported_def)
  then obtain j es where d: "dir_at ?r [''cache'']" and e: "map_of (entries_at ?r [''cache'']) ''boot'' = Some (Dir j es)"
    "published (fill_record cli_owner ''/a.tar'' i) (pd_entries p) es" by (auto simp: holds_image_def)
  have l: "lookup ?r [''cache'', n] = map_of (entries_at ?r [''cache'']) n" for n using lookup_entry [OF d, of n] by simp
  have no: "map_of (entries_at ?r [''cache'']) n = None" if "n \<noteq> ''boot''" for n using im(2) [OF that] l by simp
  have own: "own_sentinel ''boot'' (Dir j es)"
    using published_tidy [OF e(2)] by (simp add: tidy_def direct_def own_sentinel_def)
  have only: "n = ''boot'' \<and> v = Dir j es" if "map_of (entries_at ?r [''cache'']) n = Some v" for n v
    using that no e(1) by (cases "n = ''boot''") auto
  have o: "orderly ?r [''cache'']" unfolding orderly_iff using d own by (auto simp: plain_def dest!: only)
  show "admissible sample_reconciler (selected [] [boot_cache]) (rw_disk (node_of s1))"
    using o published_tidy [OF e(2)] calm_honest [OF node_of_simps(3)]
    by (simp add: admissible_def truthful_no_memory l e(1) plain_def is_temporary_def)
  have a: "acceptable (pd_entries p) (pd_end p)" using p(2) by (simp add: whole_def)
  have "snd (expected_state False ?r [''cache''] ''boot'') = None"
    using image_complete [OF p(3) a] sample_layers [OF src p(1)] by (simp add: plain_def)
  moreover have "fresh_draws (rw_disk (node_of s1)) [''cache''] ''boot''"
    using no by (simp add: fresh_draws_def temp_name_def temp_prefix_def)
  moreover have "\<not> unreadable (\<lambda>n. n \<in> {''boot''}) n v" if "lookup ?r [''cache'', n] = Some v" for n v
    using that no l by (cases "n = ''boot''") (auto simp: unreadable_def named_def)
  moreover have "serves (nr_puller sample_reconciler) (ic_source boot_cache)"
    using sample_serves_remote by (simp add: boot_cache_def)
  ultimately show "able sample_reconciler (selected [] [boot_cache]) (rw_disk (node_of s1))"
    by (auto simp: able_def accepts_def sample_reconciler_def sample_cluster_def)
qed

text \<open>C10: What the command imports the agent adopts. After an import that exited with 0, and filled the directory of
  the resource, a pass that meets no failure takes it over when the image the resource names has the
  same layers, which it learns by resolving the image: it is the same directory, every entry as it was but for the owner
  in its sentinel and for an entry named like the sentinel's temporary file, which is gone; and its label is synced.\<close>

theorem import_then_adopted:
  assumes dns: "dns_law dns" and args: "parse_line cobra args = Import fl source" and c: "c = clean (path_of (fl_cache_path fl))"
    and o: "orderly (root (cw_disk s)) c" "honest (cw_disk s)" "expected_state False (root (cw_disk s)) c (fl_name fl) \<noteq> (Complete, None)"
    and import: "run_state (run_cli lib dns cobra args) s = (0, s1)"
    and image: "\<And>src p i. (src = Archive) = looks_like_path source \<Longrightarrow> gives (source_puller lib src) source p i \<Longrightarrow>
        names_valid (pd_entries p) \<and> sizes_small (pd_entries p) \<and> id_layers i = layers"
    and layers: "layers \<noteq> []" "list_all valid_utf8 layers"
    and agent: "nr_puller nr = remote_puller lib' rm" "nr_cache_path nr = c"
      "cl_get (nr_client nr) (nr_node nr) (rw_server t) = Inr node" "cl_list (nr_client nr) (rw_server t) = Inr items"
      "admissible nr (selected node items) (rw_disk t)" "able nr (selected node items) (rw_disk t)" "root (rw_disk t) = root (cw_disk s1)"
    and ic: "ic \<in> set (selected node items)" "ic_name ic = fl_name fl" "resolves (nr_puller nr) (ic_source ic) layers"
  shows "\<exists>t' ps. run_state (reconcile nr) t = (Inr (nr_resync nr), t') \<and> rw_sent t' = rw_sent t @ ps \<and>
    map_of (labels_now node ps) (label_prefix @ fl_name fl) = Some status_synced \<and>
    adopted_from (nr_puller nr) (memory (rw_disk t) \<noteq> None) c (root (cw_disk s1)) ic (root (rw_disk t'))"
proof -
  have src: "image_source (nr_puller nr)" using agent(1) rp.image_source_axioms by simp
  obtain src' where s: "(src' = Archive) = looks_like_path source" "import_outcome (source_puller lib src') c (fl_name fl) source (root (cw_disk s)) None (root (cw_disk s1))"
    using wpD [OF run_cli_spec [of dns cobra args, OF dns args c o(1,2)] import] by auto
  have im: "imported (source_puller lib src') c (fl_name fl) source (root (cw_disk s1))"
    using s(2) o(3) by (auto simp: import_outcome_def)
  have d: "clean_path c" "plain (fl_name fl)" using agent(2,5) ic(1,2) by (auto simp: admissible_def orderly_def)
  obtain sn where sn: "found_complete (memory (rw_disk t) \<noteq> None) (root (rw_disk t)) c (fl_name fl) sn"
    "rec_owner (sn_record sn) = cli_owner" "rec_layers (sn_record sn) = layers"
    using imported_found [OF im d layers(2) image [OF s(1)]] unfolding agent(7) by blast
  have own: "rec_owner (sn_record sn) \<noteq> owner_agent" by (simp add: sn(2) cli_owner_def owner_agent_def)
  have "wp (reconcile nr) (\<lambda>_ t'. adopted_from (nr_puller nr) (memory (rw_disk t) \<noteq> None) c (root (rw_disk t)) ic (root (rw_disk t'))) t"
    using run_pass_adopts [OF src agent(5,6) ic(1) _ own, of node] sn(1,3) layers(1) ic(2,3) agent(2-4)
    by (simp add: reconcile_def wp_rules selected_def)
  moreover obtain x t' where run: "run_state (reconcile nr) t = (x, t')" by fastforce
  ultimately have "adopted_from (nr_puller nr) (memory (rw_disk t) \<noteq> None) c (root (cw_disk s1)) ic (root (rw_disk t'))"
    using wpD agent(7) by metis
  moreover obtain ps where "x = Inr (nr_resync nr)" "rw_sent t' = rw_sent t @ ps"
    "map_of (labels_now node ps) (label_prefix @ fl_name fl) = Some status_synced"
    using wpD [OF reconcile_calm [OF src agent(3-6)] run] ic(1) ic(2) [symmetric] by auto
  ultimately show ?thesis using run by blast
qed

theorem import_then_adopted_witness:
  "\<exists>s1 t'. run_state sample_run sample_cli = (0, s1) \<and> run_state (reconcile sample_reconciler) (node_of s1) = (Inr 3600, t') \<and>
     adopted_from (nr_puller sample_reconciler) False [''cache''] (root (cw_disk s1)) boot_cache (root (rw_disk t'))"
proof -
  obtain s1 where run: "run_state sample_run sample_cli = (0, s1)" using sample_run_zero by blast
  note a = sample_imported [OF run]
  have "expected_state False (root (cw_disk sample_cli)) [''cache''] (fl_name sample_flags) \<noteq> (Complete, None)"
    using sample_not_there by (simp add: sample_flags_def)
  note adopts = import_then_adopted [OF sample_dns_law sample_parse _ _ _ this run, where layers = "[''sha256:2'']" and nr = sample_reconciler
      and t = "node_of s1" and ic = boot_cache, OF _ _ _ _ _ _ sample_pass_simps(1) _ node_of_simps(5,6) a]
  have "\<exists>t' ps. run_state (reconcile sample_reconciler) (node_of s1) = (Inr (nr_resync sample_reconciler), t') \<and> rw_sent t' = rw_sent (node_of s1) @ ps \<and>
      map_of (labels_now [] ps) (label_prefix @ fl_name sample_flags) = Some status_synced \<and>
      adopted_from (nr_puller sample_reconciler) (memory (rw_disk (node_of s1)) \<noteq> None) [''cache''] (root (cw_disk s1)) boot_cache (root (rw_disk t'))"
    by (rule adopts; (rule sample_layers sample_resolves)?) (auto simp: ascii_valid ascii_def byte_def sample_flags_def calm_honest)
  with run show ?thesis by auto
qed

end
