(* ===== verification/Unmounted.thy ===== *)
theory Unmounted
  imports PassSafety
begin

section \<open>A node without the cache path\<close>

text \<open>
  When the host mount is missing, or something other than a directory is at the cache path, a pass
  writes nothing anywhere: it must not fill the file system of the container. It reports the failure
  and keeps every label at pending.
\<close>

definition unusable :: "node \<Rightarrow> path \<Rightarrow> bool" where
  "unusable r cp \<longleftrightarrow> (\<forall>i es. stat_in r cp \<noteq> Inr (Dir i es))"

text \<open>The kernel gets past a path only if it is a directory.\<close>

lemma walk_through:
  "walk l r f cur (p @ q) = Inr x \<Longrightarrow> q \<noteq> [] \<Longrightarrow> \<exists>y. walk l r True cur p = Inr y \<and> dir_at r y"
proof (induction l r f cur "p @ q" arbitrary: p rule: walk.induct)
  case (2 l r f cur c cs)
  show ?case
  proof (cases p)
    case Nil
    with 2 show ?thesis by (auto simp: walk.simps(2) split: if_splits)
  next
    case (Cons d p')
    then have p: "p = c # p'" "cs = p' @ q" using "2.hyps"(7) by simp_all
    have d: "dir_at r cur" using "2.prems"(1) p by (auto simp: walk.simps(2) split: if_splits)
    consider (dot) "c = [] \<or> c = ''.''" | (up) "c = ''..''" | (name) "\<not> (c = [] \<or> c = ''.'')" "c \<noteq> ''..''" by blast
    then show ?thesis
    proof cases
      case dot
      with "2.hyps"(1) [OF _ dot p(2)] "2.prems" d p show ?thesis by (simp add: walk.simps(2))
    next
      case up
      with "2.hyps"(2) [OF _ _ up p(2)] "2.prems" d p show ?thesis by (auto simp: walk.simps(2))
    next
      case name
      show ?thesis
      proof (cases "lookup r (cur @ [c])")
        case None
        with "2.prems" d name p show ?thesis by (simp add: walk.simps(2))
      next
        case (Some n)
        show ?thesis
        proof (cases n)
          case (Link t)
          with "2.prems" d name p Some have l: "l \<noteq> 0" "walk (l - 1) r f (if has_prefix t [slash] then [] else cur) ((split_on slash t @ p') @ q) = Inr x"
            by (auto simp: walk.simps(2) split: if_splits)
          have "\<exists>y. walk (l - 1) r True (if has_prefix t [slash] then [] else cur) (split_on slash t @ p') = Inr y \<and> dir_at r y"
            by (rule "2.hyps"(5)) (use l "2.prems"(2) d name p Some Link in auto)
          with d name p Some Link l(1) show ?thesis by (simp add: walk.simps(2))
        qed (use "2.hyps"(3,4,6) "2.prems" d name p Some in \<open>auto simp: walk.simps(2)\<close>)
      qed
    qed
  qed
qed simp

lemma nothing_below:
  assumes "unusable r cp" "q \<noteq> []"
  shows "\<exists>e. stat_in r (cp @ q) = Inl e"
proof (rule ccontr)
  assume "\<nexists>e. stat_in r (cp @ q) = Inl e"
  then obtain x where "resolve r True (cp @ q) = Inr x"
    by (auto simp: stat_in_def node_at_def lift_errno_def split: sum.splits)
  then obtain y where "resolve r True cp = Inr y" "dir_at r y"
    using walk_through assms(2) unfolding resolve_def by blast
  then show False using assms(1) by (auto simp: unusable_def stat_in_def node_at_def lift_errno_def dir_at_iff)
qed

lemma never_complete:
  assumes "unusable r cp" "clean_path cp" "plain n"
  shows "\<not> found_complete checks r cp n sn"
proof -
  have "join (store_dir cp n) sentinel_name = cp @ [n, sentinel_name]"
    using assms(2,3) by (simp add: store_dir_def join_plain)
  then show ?thesis
    using nothing_below [OF assms(1), of "[n, sentinel_name]"] by (auto simp: found_complete_def recorded_def read_in_def)
qed

lemma check_unusable:
  "unusable (root w) cp \<Longrightarrow> wp (check_cache_path cp) (\<lambda>x w'. (\<exists>e. x = Some e) \<and> looks w w') w"
  by (auto simp: check_cache_path_def wp_rules wp_stat unusable_def split: option.split sum.split elim: is_dir.elims)

lemma gc_unusable:
  "unusable (root w) cp \<Longrightarrow> wp (gc cp keep) (\<lambda>_ w'. looks w w') w"
  by (auto simp: gc_def wp_rules wp_read_dir readdir_in_def unusable_def split: option.split sum.splits node.splits)

lemma converge_one_unusable:
  assumes "unusable (root (rw_disk s)) (nr_cache_path nr)" "map_of (pn_seeded p) (ic_name ic) = None" "map_of (pn_want p) (ic_name ic) \<noteq> Some status_synced"
  shows "wp (converge_one nr ic p) (\<lambda>p' s'. looks (rw_disk s) (rw_disk s') \<and> rw_sent s' = rw_sent s \<and>
    (ic_name ic \<in> set (pn_unread p) \<and> p' = p \<or> (\<exists>e. p' = add_err e p))) s"
proof -
  have "wp (sync_one nr ic p) (\<lambda>p' s'. looks (rw_disk s) (rw_disk s') \<and> rw_sent s' = rw_sent s \<and> (\<exists>e. p' = add_err e p)) s"
    unfolding sync_one_def sync_def wp_bind wp_on_disk
    by (rule wp_mono [OF check_unusable [OF assms(1)]]) (auto simp: wp_rules)
  then show ?thesis
    using assms(2,3) by (auto simp: converge_one_def wp_rules map_get_synced look.step_refl elim: wp_mono)
qed

lemma converge_unusable:
  "unusable (root (rw_disk s)) (nr_cache_path nr) \<Longrightarrow> \<forall>ic \<in> set js. map_of (pn_seeded p) (ic_name ic) = None \<Longrightarrow>
   \<forall>ic \<in> set js. map_of (pn_want p) (ic_name ic) \<noteq> Some status_synced \<Longrightarrow> pn_unread p \<noteq> [] \<longrightarrow> pn_errs p \<noteq> [] \<Longrightarrow>
   wp (converge nr js p) (\<lambda>p' s'. looks (rw_disk s) (rw_disk s') \<and> rw_sent s' = rw_sent s \<and> pn_want p' = pn_want p \<and>
     (pn_errs p \<noteq> [] \<or> js \<noteq> [] \<longrightarrow> pn_errs p' \<noteq> [])) s"
proof (induction js arbitrary: p s)
  case Nil
  then show ?case by (simp add: wp_rules look.step_refl)
next
  case (Cons ic js)
  have "wp (converge_one nr ic p) (\<lambda>p' s'. looks (rw_disk s) (rw_disk s') \<and> rw_sent s' = rw_sent s \<and>
      (ic_name ic \<in> set (pn_unread p) \<and> p' = p \<or> (\<exists>e. p' = add_err e p))) s"
    by (rule converge_one_unusable) (use Cons.prems in simp_all)
  then show ?case
    unfolding converge.simps wp_bind
  proof (rule wp_mono, goal_cases)
    case (1 p1 s1)
    then have p1: "pn_want p1 = pn_want p" "pn_seeded p1 = pn_seeded p" "pn_errs p1 \<noteq> []" "looks (rw_disk s) (rw_disk s1)"
      using Cons.prems(4) by (auto simp: add_err_def)
    have "unusable (root (rw_disk s1)) (nr_cache_path nr)" using p1(4) Cons.prems(1) by (simp add: looks_def)
    from Cons.IH [OF this, of p1] show ?case
      by (rule wp_mono) (use Cons.prems p1 1 in \<open>auto intro: look.step_trans\<close>)
  qed
qed

text \<open>Labels asked for that call nothing synced.\<close>

definition only_pending :: "(labels \<times> labels) list \<Rightarrow> bool" where
  "only_pending ps \<longleftrightarrow> (\<forall>(b, l) \<in> set ps. \<forall>n v. map_of l (label_prefix @ n) = Some v \<longrightarrow> v = status_pending)"

lemma follow_pending:
  assumes f: "follow p ps" and c: "converging pl checks cp r ics p r1" and none: "\<And>n. map_of (pn_want p) n \<noteq> Some status_synced"
  shows "only_pending ps"
  unfolding only_pending_def
proof (intro ballI, clarify)
  fix b l n v assume bl: "(b, l) \<in> set ps" and m: "map_of l (label_prefix @ n) = Some v"
  obtain ch where "apply_status_labels b (pn_want p) = (l, ch)" using f bl by (auto simp: follow_def)
  then have w: "map_of (pn_want p) n = Some v" using wanted_label [OF c] m by metis
  from converging_want(2) [OF c w] none [of n] w show "v = status_pending" by auto
qed

lemma finish_unusable:
  assumes "unusable (root (rw_disk s)) (nr_cache_path nr)"
  shows "wp (do {
     (_, e2) \<leftarrow> on_disk (gc (nr_cache_path nr) keep);
     (_, e3) \<leftarrow> patch_labels nr node (pn_want p);
     set_watches nr;
     State_Monad.return (case new_aggregate (map Some (pn_errs p) @ [e2, e3]) of Some e \<Rightarrow> Inl e | None \<Rightarrow> Inr (nr_resync nr)) })
   (\<lambda>x s'. looks (rw_disk s) (rw_disk s') \<and> (\<exists>ps. rw_sent s' = rw_sent s @ ps \<and> follow p ps) \<and> (pn_errs p \<noteq> [] \<longrightarrow> (\<exists>e. x = Inl e))) s"
  unfolding wp_bind wp_on_disk
proof (rule wp_mono [OF gc_unusable [OF assms]], goal_cases)
  case (1 y w3)
  obtain rm e2 where y: "y = (rm, e2)" by (cases y)
  have l: "looks (rw_disk s) w3" using 1 .
  show ?case
    unfolding y prod.case wp_bind
  proof (rule wp_mono [OF patch_labels_spec], goal_cases)
    case (1 z s3)
    then obtain ps where s3: "rw_disk s3 = w3" "rw_sent s3 = rw_sent s @ ps" "follow p ps" by auto
    obtain nd e3 where z: "z = (nd, e3)" by (cases z)
    show ?case
      unfolding z prod.case wp_bind
      by (rule wp_mono [OF wp_set_watches])
        (use s3 l in \<open>auto simp: wp_return intro: look.step_trans split: option.split\<close>)
  qed
qed

lemma run_pass_unusable:
  assumes u: "unusable (root (rw_disk s)) (nr_cache_path nr)" "clean_path (nr_cache_path nr)" "truthful_under (nr_cache_path nr) (rw_disk s)"
    and ok: "\<forall>ic \<in> set ics. plain (ic_name ic)"
  shows "wp (run_pass nr node ics) (\<lambda>x s'. tends (rw_disk s) (rw_disk s') \<and> (\<exists>ps. rw_sent s' = rw_sent s @ ps \<and> only_pending ps) \<and>
    (ics \<noteq> [] \<longrightarrow> (\<exists>e. x = Inl e))) s"
proof -
  let ?cp = "nr_cache_path nr" and ?D = "ic_name ` set ics" and ?r = "root (rw_disk s)" and ?ch = "memory (rw_disk s) \<noteq> None"
  have sv: "wp (survey ?cp ics empty_plan) (\<lambda>p w'. tends (rw_disk s) w' \<and> same_kind (rw_disk s) w' \<and> truthful_under ?cp w' \<and> surveyed ?ch ?cp ?r ({} \<union> ?D) p) (rw_disk s)"
    by (rule survey_spec [OF u(2) _ u(3) surveyed_empty]) (use ok in \<open>simp add: list_all_iff\<close>)
  show ?thesis
    unfolding run_pass_def wp_bind wp_on_disk
  proof (rule wp_mono [OF sv], goal_cases)
    case (1 p1 w1)
    then have t1: "tends (rw_disk s) w1" "root w1 = ?r" and p1: "surveyed ?ch ?cp ?r ?D p1" by (auto simp: tends_def)
    have c1: "converging (nr_puller nr) ?ch ?cp ?r ics p1 ?r" by (rule surveyed_converging [OF p1])
    have nc: "\<not> found_complete ?ch ?r ?cp n sn" if "n \<in> ?D" for n sn using never_complete [OF u(1,2)] ok that by auto
    have dom: "n \<in> ?D" if "map_of (pn_want p1) n = Some v" for n v using converging_want(1) [OF c1 that] .
    have none: "map_of (pn_want p1) n \<noteq> Some status_synced" for n
      using p1 nc [OF dom] unfolding surveyed_def by (metis status_ne(2))
    have unseeded: "\<forall>ic \<in> set ics. map_of (pn_seeded p1) (ic_name ic) = None"
      using p1 nc unfolding surveyed_def by (metis imageI not_None_eq)
    show ?case
    proof (rule wp_mono [OF patch_labels_spec], goal_cases)
      case (1 x s1)
      obtain node1 e1 where x: "x = (node1, e1)" by (cases x)
      from 1 obtain ps1 where s1: "rw_disk s1 = w1" "rw_sent s1 = rw_sent s @ ps1" "follow p1 ps1" by auto
      let ?p = "add_err_opt e1 p1"
      have p: "pn_want ?p = pn_want p1" "pn_seeded ?p = pn_seeded p1" "pn_unread ?p = pn_unread p1" "pn_errs p1 \<noteq> [] \<Longrightarrow> pn_errs ?p \<noteq> []"
        by (auto simp: add_err_opt_def add_err_def split: option.split)
      have u1: "unusable (root (rw_disk s1)) ?cp" using u(1) s1 t1 by simp
      have "pn_unread ?p \<noteq> [] \<longrightarrow> pn_errs ?p \<noteq> []" using p1 p by (auto simp: surveyed_def)
      then have "wp (converge nr ics ?p) (\<lambda>p' s'. looks (rw_disk s1) (rw_disk s') \<and> rw_sent s' = rw_sent s1 \<and> pn_want p' = pn_want ?p \<and>
          (pn_errs ?p \<noteq> [] \<or> ics \<noteq> [] \<longrightarrow> pn_errs p' \<noteq> [])) s1"
        by (intro converge_unusable [OF u1]) (use unseeded none p in simp_all)
      then show ?case
        unfolding x prod.case wp_bind
      proof (rule wp_mono, goal_cases)
        case (1 p2 s2)
        then have l2: "looks w1 (rw_disk s2)" "rw_sent s2 = rw_sent s @ ps1" "pn_want p2 = pn_want p1" "ics \<noteq> [] \<longrightarrow> pn_errs p2 \<noteq> []"
          using s1 p(1) by auto
        have "unusable (root (rw_disk s2)) ?cp" using u(1) t1 l2(1) by (simp add: looks_def)
        from finish_unusable [OF this, of "\<lambda>n. n \<in> set (pn_keep p2)" node1 p2] show ?case
          unfolding wp_bind [symmetric]
        proof (rule wp_mono, goal_cases)
          case (1 y s3)
          then obtain ps2 where ps2: "rw_sent s3 = rw_sent s2 @ ps2" "follow p2 ps2" by blast
          have "follow p1 ps2" using ps2(2) l2(3) by (simp add: follow_def)
          with s1(3) have "only_pending (ps1 @ ps2)"
            using follow_pending [OF _ c1 none] by (auto simp: only_pending_def ball_Un)
          moreover have "tends (rw_disk s) (rw_disk s3)"
            using td.step_trans [OF td.step_trans [OF t1(1) looks_tends [OF l2(1)]] looks_tends] 1 by blast
          ultimately show ?case using 1 ps2(1) l2(2,4) by auto
        qed
      qed
    qed
  qed
qed

subsection \<open>Property\<close>

text \<open>C27: Without its mount the agent writes nothing. When the cache path leads to no directory, a pass changes
  nothing on any file system, whatever call fails and whatever the sources answer; it calls no
  resource synced, and it fails when a resource selects the node.\<close>

theorem unmounted_untouched:
  assumes "cl_get (nr_client nr) (nr_node nr) (rw_server s) = Inr node" "cl_list (nr_client nr) (rw_server s) = Inr items"
    and "unusable (root (rw_disk s)) (nr_cache_path nr)" "clean_path (nr_cache_path nr)" "truthful_under (nr_cache_path nr) (rw_disk s)"
    and "\<forall>ic \<in> set (selected node items). plain (ic_name ic)" and run: "run_state (reconcile nr) s = (x, s')"
  shows "root (rw_disk s') = root (rw_disk s) \<and> (\<exists>ps. rw_sent s' = rw_sent s @ ps \<and> only_pending ps)
    \<and> (selected node items \<noteq> [] \<longrightarrow> (\<exists>e. x = Inl e))"
proof -
  have "wp (reconcile nr) (\<lambda>x s'. tends (rw_disk s) (rw_disk s') \<and> (\<exists>ps. rw_sent s' = rw_sent s @ ps \<and> only_pending ps) \<and>
    (selected node items \<noteq> [] \<longrightarrow> (\<exists>e. x = Inl e))) s"
    using run_pass_unusable [OF assms(3-6), of node] assms(1,2) by (simp add: reconcile_def wp_rules selected_def)
  from wpD [OF this run] show ?thesis by (simp add: tends_def)
qed

text \<open>A node on which a device is where the mount should be.\<close>

definition no_mount :: "(labels, path set) rworld" where
  "no_mount = (sample_pass [])\<lparr>rw_disk := (cache_world [] None)\<lparr>root := Dir 1 [(''cache'', Special)]\<rparr>\<rparr>"

theorem unmounted_untouched_witness:
  "\<exists>e s'. run_state (reconcile sample_reconciler) no_mount = (Inl e, s') \<and> root (rw_disk s') = Dir 1 [(''cache'', Special)]"
proof -
  obtain x s' where run: "run_state (reconcile sample_reconciler) no_mount = (x, s')" by fastforce
  have "cl_get (nr_client sample_reconciler) (nr_node sample_reconciler) (rw_server no_mount) = Inr []"
    "cl_list (nr_client sample_reconciler) (rw_server no_mount) = Inr [boot_cache]"
    using sample_pass_simps(2,3) [of "[]"] by (simp_all add: no_mount_def)
  moreover have "unusable (root (rw_disk no_mount)) (nr_cache_path sample_reconciler)"
    by (simp add: no_mount_def unusable_def stat_in_def node_at_def resolve_def walk.simps lift_errno_def dir_at_def)
  moreover have "truthful_under (nr_cache_path sample_reconciler) (rw_disk no_mount)"
    by (simp add: no_mount_def truthful_under_def)
  moreover have "\<forall>ic \<in> set (selected [] [boot_cache]). plain (ic_name ic)" "clean_path (nr_cache_path sample_reconciler)" by (simp_all add: plain_def)
  ultimately show ?thesis
    using unmounted_untouched [OF _ _ _ _ _ _ run] run by (fastforce simp: no_mount_def)
qed

end
