(* ===== verification/Interrupt.thy ===== *)
theory Interrupt
  imports Cli
begin

section \<open>A run that nobody interrupts\<close>

text \<open>
  \<^verbatim>\<open>Run\<close> answers \<open>exit_interrupted\<close> for any error that wraps \<^verbatim>\<open>context.Canceled\<close>.
  Here it is shown where such an error can come from. \<open>unhurt P m\<close> says of a program that, run in a world whose context is never
  cancelled, it leaves the world so and its result satisfies \<open>P\<close>, which says that the errors in it do not wrap
  \<^verbatim>\<open>context.Canceled\<close>. Every call of the program is unhurt, and so is what is built from them; what the image
  library and cobra answer is a hypothesis.
\<close>

definition unhurt :: "('a \<Rightarrow> bool) \<Rightarrow> (sworld, 'a) state \<Rightarrow> bool" where
  "unhurt P m \<longleftrightarrow> (\<forall>w. cancel w = None \<longrightarrow> wp m (\<lambda>x w'. P x \<and> cancel w' = None) w)"

definition fine :: "'a res \<Rightarrow> bool" where
  "fine x \<longleftrightarrow> (\<forall>e. x = Inl e \<longrightarrow> \<not> is_canceled e)"

definition fine_opt :: "err option \<Rightarrow> bool" where
  "fine_opt x \<longleftrightarrow> (\<forall>e. x = Some e \<longrightarrow> \<not> is_canceled e)"

lemma fine_simps [simp]: "fine (Inl e) = (\<not> is_canceled e)" "fine (Inr x)" "fine_opt None" "fine_opt (Some e) = (\<not> is_canceled e)"
  by (simp_all add: fine_def fine_opt_def)

lemma fine_err_of [simp]: "fine_opt (err_of x) = fine x"
  by (cases x) simp_all

lemma fine_aggregate: "fine_opt (new_aggregate es) \<longleftrightarrow> (\<forall>e \<in> set es. fine_opt e)"
proof -
  have "list_ex is_canceled (List.map_filter id es) \<longleftrightarrow> (\<exists>e \<in> set es. \<not> fine_opt e)"
    by (induction es) (auto simp: List.map_filter_simps fine_opt_def split: option.split)
  then show ?thesis by (auto simp: new_aggregate_def split: list.split)
qed

lemma fine_agg_with: "is_canceled (agg_with e es) \<longleftrightarrow> is_canceled e \<or> (\<exists>x \<in> set es. \<not> fine_opt x)"
proof -
  have "list_ex is_canceled (List.map_filter id es) \<longleftrightarrow> (\<exists>e \<in> set es. \<not> fine_opt e)"
    by (induction es) (auto simp: List.map_filter_simps fine_opt_def split: option.split)
  then show ?thesis by (simp add: agg_with_def)
qed

subsection \<open>Composition\<close>

named_theorems unhurt_rules

lemma unhurt_return: "P x \<Longrightarrow> unhurt P (State_Monad.return x)"
  by (simp add: unhurt_def wp_return)

lemma unhurt_bind: "unhurt P m \<Longrightarrow> (\<And>x. P x \<Longrightarrow> unhurt Q (f x)) \<Longrightarrow> unhurt Q (State_Monad.bind m f)"
  unfolding unhurt_def wp_bind by (blast intro: wp_mono)

lemma unhurt_mono: "unhurt P m \<Longrightarrow> (\<And>x. P x \<Longrightarrow> Q x) \<Longrightarrow> unhurt Q m"
  unfolding unhurt_def by (blast intro: wp_mono)

lemma unhurt_get: "unhurt (\<lambda>w. cancel w = None) State_Monad.get"
  by (simp add: unhurt_def wp_get)

lemma unhurt_option:
  "(x = None \<Longrightarrow> unhurt Q m) \<Longrightarrow> (\<And>y. x = Some y \<Longrightarrow> unhurt Q (n y)) \<Longrightarrow> unhurt Q (case x of None \<Rightarrow> m | Some y \<Rightarrow> n y)"
  by (cases x) auto

lemma unhurt_sum:
  "(\<And>e. x = Inl e \<Longrightarrow> unhurt Q (m e)) \<Longrightarrow> (\<And>y. x = Inr y \<Longrightarrow> unhurt Q (n y)) \<Longrightarrow> unhurt Q (case x of Inl e \<Rightarrow> m e | Inr y \<Rightarrow> n y)"
  by (cases x) auto

lemma unhurt_prod: "(\<And>a b. x = (a, b) \<Longrightarrow> unhurt Q (m a b)) \<Longrightarrow> unhurt Q (case x of (a, b) \<Rightarrow> m a b)"
  by (cases x) auto

lemma unhurt_if: "(b \<Longrightarrow> unhurt Q m) \<Longrightarrow> (\<not> b \<Longrightarrow> unhurt Q n) \<Longrightarrow> unhurt Q (if b then m else n)"
  by simp

lemmas unhurt_intros = unhurt_bind unhurt_option unhurt_sum unhurt_prod unhurt_if

subsection \<open>The calls\<close>

lemma unhurt_env: "along same_env m \<Longrightarrow> (\<And>w. cancel w = None \<Longrightarrow> wp m (\<lambda>x _. P x) w) \<Longrightarrow> unhurt P m"
  unfolding unhurt_def
proof (intro allI impI)
  fix w :: sworld
  assume "along same_env m" "\<And>w. cancel w = None \<Longrightarrow> wp m (\<lambda>x _. P x) w" "cancel w = None"
  then have "wp m (\<lambda>x w'. P x \<and> same_env w w') w" by (simp add: env.along_wp_conj)
  then show "wp m (\<lambda>x w'. P x \<and> cancel w' = None) w" by (rule wp_mono) (simp add: same_env_def \<open>cancel w = None\<close>)
qed

lemma unhurt_query: "(\<And>w. fine (q w)) \<Longrightarrow> unhurt fine (query q)"
  by (simp add: unhurt_def wp_query split: option.split)

lemma fine_stat_in: "fine (stat_in r p)" and fine_lstat_in: "fine (lstat_in r p)"
  by (simp_all add: stat_in_def lstat_in_def lift_errno_def split: sum.split)

lemma fine_read_in: "fine (read_in r p)" and fine_readdir_in: "fine (readdir_in r p)"
  using fine_stat_in [of r p] by (auto simp: read_in_def readdir_in_def split: sum.split node.split)

lemma stat_fine: "stat_in r p = Inl e \<Longrightarrow> \<not> is_canceled e"
  using fine_stat_in [of r p] by (simp add: fine_def)

lemma unhurt_queries [unhurt_rules]:
  "unhurt fine (stat p)" "unhurt fine (lstat p)" "unhurt fine (read_file p)" "unhurt fine (read_dir p)" "unhurt fine close"
  "unhurt fine (open_inode p)" "unhurt fine (open_file p)"
  by (auto simp: stat_def lstat_def read_file_def read_dir_def close_def open_inode_def open_file_def
        fine_stat_in fine_lstat_in fine_read_in fine_readdir_in
      intro!: unhurt_query dest: stat_fine split: sum.split node.split)

lemma unhurt_ctx_err [unhurt_rules]: "unhurt (\<lambda>x. x = None) ctx_err"
  by (simp add: unhurt_def wp_ctx_err ctx_done_def)

lemma overwrite_fine: "overwrite p d w = Inl e \<Longrightarrow> \<not> is_canceled e"
  by (auto simp: overwrite_def split: sum.splits option.splits node.splits)

lemma changes_fine:
  "wp (mkdir p) (\<lambda>x _. fine x) w" "wp (create_excl p) (\<lambda>x _. fine x) w" "wp (write_out p d) (\<lambda>x _. fine x) w"
  "wp (write_file p d) (\<lambda>x _. fine x) w" "wp (rename p q) (\<lambda>x _. fine x) w" "wp (remove p) (\<lambda>x _. fine x) w" "wp (remove_all p) (\<lambda>x _. fine x) w"
  "wp (flock i) (\<lambda>x _. fine x) w" "wp (flock_nb i) (\<lambda>x _. fine x) w" "wp (close_locked i) (\<lambda>x _. fine x) w"
  by (auto simp: mkdir_def create_excl_def write_out_def write_file_def rename_def remove_def remove_all_def flock_def flock_nb_def
      close_locked_def wp_mutate fine_def dest: overwrite_fine split: option.split sum.split node.split list.split)

lemma unhurt_changes [unhurt_rules]:
  "unhurt fine (mkdir p)" "unhurt fine (create_excl p)" "unhurt fine (write_out p d)" "unhurt fine (write_file p d)"
  "unhurt fine (rename p q)" "unhurt fine (remove p)" "unhurt fine (remove_all p)"
  "unhurt fine (flock i)" "unhurt fine (flock_nb i)" "unhurt fine (close_locked i)"
  by (rule unhurt_env, (rule along_env_locks | rule along_env_quiet, rule along_quiet_changes), rule changes_fine)+

lemma unhurt_modify [unhurt_rules]: "unhurt (\<lambda>_. True) (modify_sums g)"
  by (simp add: unhurt_def wp_modify)

lemma unhurt_mkdir_temp_from: "unhurt fine (mkdir_temp_from n dir pre)"
proof (induction n)
  case 0
  show ?case
    by (subst mkdir_temp_from.simps) (auto simp: Let_def intro!: unhurt_intros unhurt_get unhurt_return unhurt_rules)
next
  case (Suc n)
  show ?case
    by (subst mkdir_temp_from.simps) (auto simp: Let_def intro!: unhurt_intros unhurt_get unhurt_return unhurt_rules Suc)
qed

lemma unhurt_mkdir_temp [unhurt_rules]: "unhurt fine (mkdir_temp dir pre)"
  by (auto simp: mkdir_temp_def intro!: unhurt_return unhurt_mkdir_temp_from)

subsection \<open>The store\<close>

abbreviation any :: "'a \<Rightarrow> bool" where
  "any \<equiv> \<lambda>_. True"

lemma unhurt_lock_temporary [unhurt_rules]: "unhurt fine (lock_temporary dir)"
  by (auto simp: lock_temporary_def fine_agg_with intro!: unhurt_intros unhurt_return unhurt_rules)

lemma unhurt_create_from:
  "fine_opt lost \<Longrightarrow> before_lock st = None \<Longrightarrow> unhurt fine (create_temporary_from k lost st cp name)"
proof (induction k arbitrary: lost)
  case 0
  then show ?case by (cases lost) (auto intro!: unhurt_return)
next
  case (Suc k)
  then show ?case
    by (auto simp: run_hook_def fine_agg_with intro!: unhurt_intros unhurt_return [where P = any] unhurt_return unhurt_rules Suc.IH)
qed


lemma unhurt_create_temporary [unhurt_rules]: "before_lock st = None \<Longrightarrow> unhurt fine (create_temporary st cp name)"
  unfolding create_temporary_def by (rule unhurt_create_from) simp_all

lemma unhurt_remove_temporary [unhurt_rules]: "unhurt (\<lambda>x. fine_opt (snd x)) (remove_temporary dir)"
  by (auto simp: remove_temporary_def intro!: unhurt_intros unhurt_return unhurt_rules)

lemma unhurt_replaceable [unhurt_rules]: "unhurt fine_opt (replaceable final owner)"
  by (auto simp: replaceable_def Let_def intro!: unhurt_intros unhurt_return unhurt_rules split: sum.split)

text \<open>An archive whose ends do not wrap \<^verbatim>\<open>context.Canceled\<close>.\<close>

definition fine_archive :: "tar_entry list \<Rightarrow> err \<Rightarrow> bool" where
  "fine_archive ens fin \<longleftrightarrow> (\<forall>en \<in> set ens. \<not> is_canceled (te_end en)) \<and> \<not> is_canceled fin"

lemma unhurt_ctx_read: "unhurt P r \<Longrightarrow> unhurt P (ctx_read r)"
  by (auto simp: ctx_read_def intro!: unhurt_intros unhurt_rules)

lemma unhurt_copy_body: "\<not> is_canceled fin \<Longrightarrow> unhurt fine (copy_body p acc bs fin)"
proof (induction bs arbitrary: acc)
  case Nil
  then show ?case by (auto simp: copy_body.simps simp del: copy_body_simps intro!: unhurt_ctx_read unhurt_return)
next
  case (Cons b bs)
  then show ?case
    by (auto simp: copy_body.simps simp del: copy_body_simps intro!: unhurt_ctx_read unhurt_intros unhurt_return unhurt_rules)
qed

lemma unhurt_extract_file [unhurt_rules]: "\<not> is_canceled (te_end en) \<Longrightarrow> unhurt fine (extract_file tmp b en)"
  by (auto simp: extract_file_def fine_agg_with intro!: unhurt_intros unhurt_return unhurt_rules unhurt_copy_body split: sum.split)

lemma unhurt_extract_entry [unhurt_rules]: "\<not> is_canceled (te_end en) \<Longrightarrow> unhurt fine (extract_entry tmp en)"
  by (auto simp: extract_entry_def Let_def intro!: unhurt_intros unhurt_return unhurt_rules split: sum.split)

lemma unhurt_entries_end: "\<not> is_canceled fin \<Longrightarrow> unhurt fine (extract_entries tmp files [] fin)"
  by (auto simp: reading_error_def intro!: unhurt_intros unhurt_return unhurt_rules split: option.split)

lemma unhurt_extract_entries: "fine_archive ens fin \<Longrightarrow> unhurt fine (extract_entries tmp files ens fin)"
proof (induction ens arbitrary: files)
  case Nil
  then show ?case by (simp add: fine_archive_def unhurt_entries_end del: extract_entries.simps)
next
  case (Cons en ens)
  then have e: "\<not> is_canceled (te_end en)" "fine_archive ens fin" by (auto simp: fine_archive_def)
  show ?case
    unfolding extract_entries.simps(2) reading_error_def
    by (intro unhurt_bind [OF unhurt_ctx_err] unhurt_bind [OF unhurt_extract_entry [OF e(1)]] unhurt_sum unhurt_option unhurt_if unhurt_return
        unhurt_entries_end Cons.IH e) (simp_all add: fine_def)
qed

lemma unhurt_any: "along same_env m \<Longrightarrow> unhurt any m"
  by (rule unhurt_env) (simp_all add: wp_run)

lemma along_env_tends: "along tends m \<Longrightarrow> along same_env m"
  by (auto simp: along_def tends_def)

lemmas unhurt_memory [unhurt_rules] =
  along_tends_forget [THEN along_env_tends, THEN unhurt_any] along_tends_remember [THEN along_env_tends, THEN unhurt_any]
  along_tends_mismatch [THEN along_env_tends, THEN unhurt_any]

lemma unhurt_publish [unhurt_rules]: "unhurt fine_opt (publish cp name rec tmp files)"
  by (auto simp: publish_def Let_def intro!: unhurt_intros unhurt_return unhurt_rules)

lemma unhurt_store_extract:
  assumes "before_lock st = None" "fine_archive ens fin"
  shows "unhurt fine_opt (store_extract st cp name rec ens fin)"
proof -
  have fill: "unhurt fine_opt (fill_temporary cp name rec tmp ens fin)" for tmp
    unfolding fill_temporary_def
    by (intro unhurt_bind [OF unhurt_extract_entries [OF assms(2)]] unhurt_sum unhurt_if unhurt_return unhurt_publish) simp_all
  show ?thesis
    unfolding store_extract_def
    by (intro unhurt_bind [OF unhurt_create_temporary [OF assms(1)]] unhurt_bind [OF unhurt_changes(10)] unhurt_bind [OF fill]
        unhurt_bind [OF unhurt_changes(7)] unhurt_sum unhurt_prod unhurt_option unhurt_return)
      (simp_all add: fine_aggregate del: new_aggregate_Some_Cons)
qed

lemma unhurt_check_names [unhurt_rules]: "unhurt any (check_names dir fs)"
  by (induction fs) (auto intro!: unhurt_intros unhurt_return unhurt_rules)

lemma unhurt_state_of [unhurt_rules]: "unhurt (\<lambda>x. fine_opt (snd x)) (state_of cp name)"
proof -
  have "unhurt (\<lambda>x. fine_opt (snd x)) (state_of_sentinel dir sn)" for dir sn
    unfolding state_of_sentinel_def
    by (intro unhurt_bind [OF unhurt_get] unhurt_bind [OF unhurt_memory(3)] unhurt_bind [OF unhurt_ctx_err] unhurt_bind [OF unhurt_check_names]
        unhurt_if unhurt_return) simp_all
  then show ?thesis
    unfolding state_of_def
    by (intro unhurt_bind [OF unhurt_queries(3)] unhurt_bind [OF unhurt_queries(1)] unhurt_sum unhurt_option unhurt_if unhurt_return)
      (auto split: sum.split)
qed

lemma unhurt_sweep [unhurt_rules]: "unhurt (\<lambda>x. fine_opt (snd x)) (sweep_temporaries cp name)"
proof -
  have entries: "unhurt (\<lambda>x. \<forall>e \<in> set (snd x). \<not> is_canceled e) (sweep_entries cp pre es)" for pre es
  proof (induction es)
    case Nil
    then show ?case by (simp add: unhurt_return)
  next
    case (Cons a es)
    then show ?case
      by (cases a) (auto simp: gc_error_def intro!: unhurt_bind [OF unhurt_remove_temporary] unhurt_bind [OF Cons.IH] unhurt_intros unhurt_return
          split: option.splits)
  qed
  show ?thesis
    unfolding sweep_temporaries_def
    by (intro unhurt_bind [OF unhurt_queries(4)] unhurt_bind [OF entries] unhurt_sum unhurt_prod unhurt_return)
      (auto simp: gc_error_def fine_aggregate)
qed

subsection \<open>The image\<close>

text \<open>What is expected of the library: what it answers while the context lives does not wrap
  \<^verbatim>\<open>context.Canceled\<close>, neither an error of its own nor one met later in the image it opened.\<close>

definition fine_layer :: "layer \<Rightarrow> bool" where
  "fine_layer l \<longleftrightarrow> fine_opt (ly_open l) \<and> fine_archive (ly_entries l) (ly_end l) \<and> fine_opt (ly_rest l) \<and> fine_opt (ly_close l)"

definition fine_image :: "v1_image \<Rightarrow> bool" where
  "fine_image img \<longleftrightarrow> fine (im_digest img) \<and> fine (im_config img) \<and> fine (im_layers img) \<and> (\<forall>ls. im_layers img = Inr ls \<longrightarrow> list_all fine_layer ls)"

definition answers_fine :: "v1_image res \<Rightarrow> bool" where
  "answers_fine x \<longleftrightarrow> (case x of Inl e \<Rightarrow> \<not> is_canceled e | Inr img \<Rightarrow> fine_image img)"

definition context_law :: "('r, 'c) image_library \<Rightarrow> bool" where
  "context_law lib \<longleftrightarrow> (\<forall>plain s. fine (lib_parse lib plain s)) \<and> (\<forall>en. fine_opt (lib_header lib en))
     \<and> (\<forall>w ref t. cancel w = None \<longrightarrow> answers_fine (lib_remote lib ref t w))
     \<and> (\<forall>w path. cancel w = None \<longrightarrow> answers_fine (lib_tarball lib path w))"

lemma copy_loop_fine:
  assumes "\<And>en. fine_opt (header en)" "fine_archive ens fin" "fine_opt rest" "copy_loop header ens fin rest = (out, e)"
  shows "(\<forall>en \<in> set out. \<not> is_canceled (te_end en)) \<and> fine_opt e"
  using assms(2,4)
proof (induction ens arbitrary: out)
  case Nil
  then show ?case using assms(3) by (auto simp: fine_archive_def pull_error_def split: option.splits if_splits)
next
  case (Cons en ens)
  have h: "lib = Some x \<Longrightarrow> \<not> is_canceled x" if "lib = header en" for lib x using assms(1) [of en] that by (auto simp: fine_opt_def)
  obtain out' e' where r: "copy_loop header ens fin rest = (out', e')" by fastforce
  have "fine_archive ens fin" "\<not> is_canceled (te_end en)" using Cons.prems(1) by (auto simp: fine_archive_def)
  with Cons.IH r Cons.prems(2) h [OF refl] show ?case
    by (auto simp: pull_error_def Let_def split: option.splits if_splits)
qed

lemma pull_stream_fine:
  assumes l: "context_law lib" and i: "fine_image img"
  shows "fine_archive (pd_entries (pull_stream lib img)) (pd_end (pull_stream lib img))"
proof -
  have h: "fine_opt (lib_header lib en)" for en using l by (simp add: context_law_def)
  have entries: "(\<forall>en \<in> set out. \<not> is_canceled (te_end en)) \<and> fine_opt e"
    if "copy_entries (lib_header lib) y = (out, e)" "fine_layer y" for y out e
  proof -
    obtain o2 e2 where c: "copy_loop (lib_header lib) (ly_entries y) (ly_end y) (ly_rest y) = (o2, e2)" by fastforce
    have "(\<forall>en \<in> set o2. \<not> is_canceled (te_end en)) \<and> fine_opt e2"
      by (rule copy_loop_fine [OF h _ _ c]) (use that(2) in \<open>simp_all add: fine_layer_def\<close>)
    with that c show ?thesis
      by (cases "ly_close y") (auto simp: copy_entries_def fine_layer_def pull_error_def split: option.splits)
  qed
  have layers: "(\<forall>en \<in> set out. \<not> is_canceled (te_end en)) \<and> fine_opt e"
    if "copy_layers (lib_header lib) ls = (out, e)" "list_all fine_layer ls" for ls out e
    using that
  proof (induction ls arbitrary: out e)
    case (Cons y ls)
    obtain o1 e1 o2 e2 where c: "copy_entries (lib_header lib) y = (o1, e1)" "copy_layers (lib_header lib) ls = (o2, e2)" by fastforce
    with Cons entries [OF c(1)] show ?case by (cases e1) auto
  qed simp
  obtain out fin where s: "stream_entries (lib_header lib) None (im_layers img) = (out, fin)" by fastforce
  have "fine_archive out fin"
  proof (cases "im_layers img")
    case (Inl e)
    with s i show ?thesis
      by (auto simp: stream_entries_def write_entries_def fine_image_def fine_archive_def pull_error_def)
  next
    case (Inr ls)
    obtain o1 e1 where c: "copy_layers (lib_header lib) ls = (o1, e1)" by fastforce
    have "(\<forall>en \<in> set o1. \<not> is_canceled (te_end en)) \<and> fine_opt e1" by (rule layers [OF c]) (use i Inr in \<open>simp add: fine_image_def\<close>)
    with s Inr c show ?thesis
      by (cases e1) (auto simp: stream_entries_def write_entries_def fine_archive_def is_canceled_def)
  qed
  with s show ?thesis by (simp add: pull_stream_def)
qed

lemma fine_identified: "answers_fine x \<Longrightarrow> (case identified x of Inl e \<Rightarrow> \<not> is_canceled e | Inr (img, i) \<Rightarrow> fine_image img)"
  by (auto simp: answers_fine_def identified_def identify_def fine_image_def pull_error_def split: sum.splits)

lemma unhurt_pull:
  assumes l: "context_law lib"
  shows "unhurt (\<lambda>x. case x of Inl e \<Rightarrow> \<not> is_canceled e | Inr (p, i) \<Rightarrow> fine_archive (pd_entries p) (pd_end p)) (pl_pull (source_puller lib src) source)"
proof -
  let ?P = "\<lambda>x :: (v1_image \<times> image_id) res. case x of Inl e \<Rightarrow> \<not> is_canceled e | Inr (img, i) \<Rightarrow> fine_image img"
  have ask: "unhurt answers_fine (ask f)" if "\<And>w. cancel w = None \<Longrightarrow> answers_fine (f w)" for f
    using that by (simp add: unhurt_def wp_ask)
  have pulls: "unhurt (\<lambda>x. case x of Inl e \<Rightarrow> \<not> is_canceled e | Inr (p, i) \<Rightarrow> fine_archive (pd_entries p) (pd_end p)) (pl_pull (puller_of lib opn) source)"
    if "unhurt ?P (opn source)" for opn
    unfolding puller_of_def puller.select_convs
    by (rule unhurt_bind [OF that]) (auto intro!: unhurt_return pull_stream_fine [OF l] split: sum.split)
  have "unhurt ?P (remote_open lib r source)" for r
    using l unfolding remote_open_def
    by (intro unhurt_sum unhurt_bind [OF ask] unhurt_return) (auto simp: context_law_def fine_def dest: fine_identified)
  moreover have "unhurt ?P (tarball_open lib source)"
    using l unfolding tarball_open_def
    by (intro unhurt_bind [OF unhurt_ctx_err] unhurt_option unhurt_bind [OF ask] unhurt_return)
      (auto simp: context_law_def dest: fine_identified)
  ultimately show ?thesis
    by (cases src) (auto simp: source_puller_def remote_puller_def tarball_puller_def intro: pulls)
qed

lemma unhurt_fill:
  assumes "context_law lib" "before_lock st = None"
  shows "unhurt (\<lambda>x. fine_opt (fst x)) (fill st (source_puller lib src) cp name source owner oc)"
  unfolding fill_def store_replaceable_def
  by (intro unhurt_bind [OF unhurt_replaceable] unhurt_option unhurt_bind [OF unhurt_pull [OF assms(1)]] unhurt_sum unhurt_prod
      unhurt_bind [OF unhurt_store_extract [OF assms(2)]] unhurt_return) auto

lemma unhurt_puller_for [unhurt_rules]: "unhurt fine (puller_for lib source cfg)"
proof -
  have ca: "unhurt fine (ca_pool lib path)" for path
    unfolding ca_pool_def by (intro unhurt_bind [OF unhurt_queries(3)] unhurt_return) (auto simp: Let_def split: sum.split option.split)
  have new: "unhurt fine (new_remote lib cfg)"
    unfolding new_remote_def new_remote_on_def
    by (intro unhurt_if unhurt_bind [OF ca] unhurt_return) (auto split: sum.split)
  show ?thesis
    unfolding puller_for_def by (intro unhurt_if unhurt_bind [OF new] unhurt_return) (auto split: sum.split)
qed

subsection \<open>The command\<close>

definition unhurt_run :: "('a \<Rightarrow> bool) \<Rightarrow> (cli_world, 'a) state \<Rightarrow> bool" where
  "unhurt_run P m \<longleftrightarrow> (\<forall>s. cancel (cw_disk s) = None \<longrightarrow> wp m (\<lambda>x s'. P x \<and> cancel (cw_disk s') = None) s)"

lemma run_on_node: "unhurt P m \<Longrightarrow> unhurt_run P (on_node m)"
  unfolding unhurt_run_def
proof (intro allI impI)
  fix s :: cli_world
  assume m: "unhurt P m" "cancel (cw_disk s) = None"
  obtain x w where r: "run_state m (cw_disk s) = (x, w)" by fastforce
  with m have "P x" "cancel w = None" by (auto simp: unhurt_def dest: wpD)
  then show "wp (on_node m) (\<lambda>x s'. P x \<and> cancel (cw_disk s') = None) s" by (simp add: on_node_def wp_rules r)
qed

lemma run_printf: "unhurt_run any (printf_out m)" "unhurt_run any (printf_err m)"
  by (simp_all add: unhurt_run_def printf_out_def printf_err_def wp_rules)

lemma run_return: "P x \<Longrightarrow> unhurt_run P (State_Monad.return x)"
  by (simp add: unhurt_run_def wp_return)

lemma run_bind: "unhurt_run P m \<Longrightarrow> (\<And>x. P x \<Longrightarrow> unhurt_run Q (f x)) \<Longrightarrow> unhurt_run Q (State_Monad.bind m f)"
  unfolding unhurt_run_def wp_bind by (blast intro: wp_mono)

lemma run_option:
  "(x = None \<Longrightarrow> unhurt_run Q m) \<Longrightarrow> (\<And>y. x = Some y \<Longrightarrow> unhurt_run Q (n y)) \<Longrightarrow> unhurt_run Q (case x of None \<Rightarrow> m | Some y \<Rightarrow> n y)"
  by (cases x) auto

lemma run_sum:
  "(\<And>e. x = Inl e \<Longrightarrow> unhurt_run Q (m e)) \<Longrightarrow> (\<And>y. x = Inr y \<Longrightarrow> unhurt_run Q (n y)) \<Longrightarrow> unhurt_run Q (case x of Inl e \<Rightarrow> m e | Inr y \<Rightarrow> n y)"
  by (cases x) auto

lemma run_prod: "(\<And>a b. x = (a, b) \<Longrightarrow> unhurt_run Q (m a b)) \<Longrightarrow> unhurt_run Q (case x of (a, b) \<Rightarrow> m a b)"
  by (cases x) auto

lemma run_if: "(b \<Longrightarrow> unhurt_run Q m) \<Longrightarrow> (\<not> b \<Longrightarrow> unhurt_run Q n) \<Longrightarrow> unhurt_run Q (if b then m else n)"
  by simp

lemma run_warn: "unhurt_run any (warn src cfg)"
  by (cases src) (auto simp: warn_def intro!: run_bind [OF run_printf(2)] run_bind [where P = any] run_if run_printf run_return)

lemma unhurt_check_cache_path [unhurt_rules]: "unhurt fine_opt (check_cache_path cp)"
  unfolding check_cache_path_def by (intro unhurt_bind [OF unhurt_queries(1)] unhurt_return) (auto split: sum.split)

lemma unhurt_plain_store: "unhurt (\<lambda>st. before_lock st = None) plain_store"
  by (simp add: unhurt_def plain_store_def wp_rules)

lemma run_do_import:
  assumes l: "context_law lib"
  shows "unhurt_run fine_opt (do_import lib cache_path name source cfg)"
proof -
  have missing: "unhurt_run fine_opt (import_missing lib st src cache_path name source)" if "before_lock st = None" for st src
    unfolding import_missing_def
    by (intro run_bind [OF run_on_node [OF unhurt_sweep]] run_bind [OF run_on_node [OF unhurt_fill [OF l that]]] run_prod run_option
        run_bind [OF run_printf(1)] run_bind [where P = any] run_if run_printf run_return) simp_all
  show ?thesis
    unfolding do_import_def import_into_def
    by (intro run_bind [OF run_on_node [OF unhurt_plain_store]] run_bind [OF run_on_node [OF unhurt_puller_for]] run_bind [OF run_warn]
        run_bind [OF run_on_node [OF unhurt_check_cache_path]] run_bind [OF run_on_node [OF unhurt_state_of]] run_bind [OF run_printf(1)]
        run_sum run_prod run_option run_if run_return missing) simp_all
qed

text \<open>What is expected of cobra: a command line it refuses is no cancellation.\<close>

definition refusals_fine :: "(root_command \<Rightarrow> string list \<Rightarrow> parsed) \<Rightarrow> bool" where
  "refusals_fine cobra \<longleftrightarrow> (\<forall>args e. cobra root_cmd args = Refused e \<longrightarrow> \<not> is_canceled e)"

text \<open>The answer of an interrupted run is given to one alone.\<close>

lemma run_cli_interrupted:
  assumes "context_law lib" "refusals_fine cobra" "run_state (run_cli lib dns cobra args) s = (exit_interrupted, s')"
  shows "cancel (cw_disk s) \<noteq> None"
proof
  assume c: "cancel (cw_disk s) = None"
  have r: "unhurt_run fine_opt (run_e lib dns fl source)" for fl source
    unfolding run_e_def
    by (intro run_option run_if run_bind [OF run_do_import [OF assms(1)]] run_return)
      (auto simp: validate_def fine_opt_def split: if_splits option.splits)
  have "unhurt_run (\<lambda>code. code \<noteq> exit_interrupted) (run_cli lib dns cobra args)"
    unfolding run_cli_def
    by (rule run_bind [where P = fine_opt])
      (use assms(2) r in \<open>auto simp: parse_line_def refusals_fine_def fine_opt_def exit_interrupted_def intro!: run_return split: parsed.split command.split option.split\<close>)
  then have "wp (run_cli lib dns cobra args) (\<lambda>code s'. code \<noteq> exit_interrupted \<and> cancel (cw_disk s') = None) s"
    using c by (simp add: unhurt_run_def)
  from wpD [OF this assms(3)] show False by simp
qed

end
