(* ===== verification/Ctl.thy ===== *)
theory Ctl
  imports Interrupt CliSpec
begin

section \<open>The process around the command (cmd/imagecachectl/main.go)\<close>

text \<open>
  \<^verbatim>\<open>main\<close> starts a goroutine that turns the first signal into a cancellation, runs the
  command and chooses the exit code. The two interleave with the delivery of signals by the kernel:
  \<open>ctl_step\<close> has one rule for the actions of the goroutine, one for a signal that arrives, and one for
  the return of \<^verbatim>\<open>cli.Run\<close>, which runs \<open>run_cli\<close>. While the process is notified a signal goes to the channel, which
  buffers one and drops the rest; after \<^verbatim>\<open>signal.Stop\<close> the default action kills the process.
  \<open>ct_arrived\<close> is a ghost: every signal that arrived, in order.
\<close>

datatype handler = Waiting | Caught nat | Stopped nat | Sent | Done

datatype ending = Exited int | Killed nat

record ctl =
  ct_arrived :: "nat list"
  ct_signals :: "nat list"
  ct_notify :: bool
  ct_handler :: handler
  ct_stopped :: "nat list"
  ct_cancelled :: bool
  ct_ending :: "ending option"

definition sigint :: nat where "sigint = 2"
definition sigterm :: nat where "sigterm = 15"

definition ctl_init :: ctl where
  "ctl_init = \<lparr>ct_arrived = [], ct_signals = [], ct_notify = True, ct_handler = Waiting, ct_stopped = [], ct_cancelled = False, ct_ending = None\<rparr>"

text \<open>The select that does not wait: a signal in the channel decides the code of an interrupted run.\<close>

definition exit_code :: "int \<Rightarrow> nat list \<Rightarrow> int" where
  "exit_code code stopped =
     (if code = exit_interrupted then (case stopped of [] \<Rightarrow> code | sig # _ \<Rightarrow> 128 + int sig) else code)"

definition deliver :: "nat \<Rightarrow> ctl \<Rightarrow> ctl" where
  "deliver sig c = (let c = c\<lparr>ct_arrived := ct_arrived c @ [sig]\<rparr> in
     (if ct_notify c then (if length (ct_signals c) < 1 then c\<lparr>ct_signals := ct_signals c @ [sig]\<rparr> else c)
      else c\<lparr>ct_ending := Some (Killed sig)\<rparr>))"

text \<open>One action of the goroutine; \<open>None\<close> while it is blocked or over.\<close>

definition handle :: "ctl \<Rightarrow> ctl option" where
  "handle c = (case ct_handler c of
     Waiting \<Rightarrow> (case ct_signals c of [] \<Rightarrow> None | sig # sigs \<Rightarrow> Some (c\<lparr>ct_signals := sigs, ct_handler := Caught sig\<rparr>))
   | Caught sig \<Rightarrow> Some (c\<lparr>ct_notify := False, ct_handler := Stopped sig\<rparr>)
   | Stopped sig \<Rightarrow> if length (ct_stopped c) < 1 then Some (c\<lparr>ct_stopped := ct_stopped c @ [sig], ct_handler := Sent\<rparr>) else None
   | Sent \<Rightarrow> Some (c\<lparr>ct_cancelled := True, ct_handler := Done\<rparr>)
   | Done \<Rightarrow> None)"

definition finish :: "int \<Rightarrow> ctl \<Rightarrow> ctl" where
  "finish code c = c\<lparr>ct_ending := Some (Exited (exit_code code (ct_stopped c)))\<rparr>"

text \<open>\<^verbatim>\<open>cli.Run\<close> returns what \<open>run_cli\<close> answers from some state of the node. Its context
  is the one the goroutine cancels, and nothing else does before the process exits: the schedule of the run cancels the context
  only if the goroutine has called \<^verbatim>\<open>cancel\<close> when it returns.\<close>

inductive ctl_step ::
  "('r, 'c) image_library \<Rightarrow> (string \<Rightarrow> string list) \<Rightarrow> (root_command \<Rightarrow> string list \<Rightarrow> parsed) \<Rightarrow> string list \<Rightarrow> ctl \<Rightarrow> ctl \<Rightarrow> bool"
  for lib dns cobra args where
  arrives: "ct_ending c = None \<Longrightarrow> sig = sigint \<or> sig = sigterm \<Longrightarrow> ctl_step lib dns cobra args c (deliver sig c)"
| handles: "ct_ending c = None \<Longrightarrow> handle c = Some c' \<Longrightarrow> ctl_step lib dns cobra args c c'"
| returns: "ct_ending c = None \<Longrightarrow> cancel (cw_disk s) \<noteq> None \<longrightarrow> ct_cancelled c \<Longrightarrow>
    run_state (run_cli lib dns cobra args) s = (code, s') \<Longrightarrow> ctl_step lib dns cobra args c (finish code c)"

inductive ctl_reach ::
  "('r, 'c) image_library \<Rightarrow> (string \<Rightarrow> string list) \<Rightarrow> (root_command \<Rightarrow> string list \<Rightarrow> parsed) \<Rightarrow> string list \<Rightarrow> ctl \<Rightarrow> bool"
  for lib dns cobra args where
  starts: "ctl_reach lib dns cobra args ctl_init"
| steps: "ctl_reach lib dns cobra args c \<Longrightarrow> ctl_step lib dns cobra args c c' \<Longrightarrow> ctl_reach lib dns cobra args c'"

text \<open>What every reachable state keeps: the signal the goroutine holds is the first that arrived, and the channel to
  \<^verbatim>\<open>main\<close> is filled with it before the context is cancelled.\<close>

definition known :: "nat \<Rightarrow> bool" where
  "known sig \<longleftrightarrow> sig = sigint \<or> sig = sigterm"

definition first :: "ctl \<Rightarrow> nat \<Rightarrow> bool" where
  "first c sig \<longleftrightarrow> (\<exists>later. ct_arrived c = sig # later)"

definition held :: "ctl \<Rightarrow> bool" where
  "held c \<longleftrightarrow> (case ct_handler c of
     Waiting \<Rightarrow> ct_notify c \<and> ct_stopped c = [] \<and> \<not> ct_cancelled c \<and>
       (case ct_signals c of [] \<Rightarrow> ct_arrived c = [] | sig # _ \<Rightarrow> first c sig)
   | Caught sig \<Rightarrow> first c sig \<and> ct_notify c \<and> ct_stopped c = [] \<and> \<not> ct_cancelled c
   | Stopped sig \<Rightarrow> first c sig \<and> \<not> ct_notify c \<and> ct_stopped c = [] \<and> \<not> ct_cancelled c
   | Sent \<Rightarrow> \<not> ct_notify c \<and> (\<exists>sig. first c sig \<and> ct_stopped c = [sig]) \<and> \<not> ct_cancelled c
   | Done \<Rightarrow> \<not> ct_notify c \<and> (\<exists>sig. first c sig \<and> ct_stopped c = [sig]))"

definition ended :: "ctl \<Rightarrow> bool" where
  "ended c \<longleftrightarrow> (case ct_ending c of
     None \<Rightarrow> True
   | Some (Exited code) \<Rightarrow> code = 0 \<or> code = 1 \<or> (\<exists>sig. first c sig \<and> ct_stopped c = [sig] \<and> code = 128 + int sig)
   | Some (Killed sig) \<Rightarrow> \<not> ct_notify c \<and> (\<exists>before. before \<noteq> [] \<and> ct_arrived c = before @ [sig]))"

definition ctl_inv :: "ctl \<Rightarrow> bool" where
  "ctl_inv c \<longleftrightarrow> held c \<and> list_all known (ct_arrived c) \<and> ended c"

inductive_cases ctl_stepE: "ctl_step lib dns cobra args c c'"

lemma ctl_inv_deliver:
  assumes "ctl_inv c" "ct_ending c = None" "known sig"
  shows "ctl_inv (deliver sig c)"
proof -
  have "ct_arrived c \<noteq> []" if "\<not> ct_notify c"
    using assms(1) that by (auto simp: ctl_inv_def held_def first_def split: handler.splits)
  then show ?thesis
    using assms by (auto simp: ctl_inv_def deliver_def held_def ended_def first_def Let_def split: handler.splits list.splits)
qed

lemma ctl_inv_handle: "ctl_inv c \<Longrightarrow> ct_ending c = None \<Longrightarrow> handle c = Some c' \<Longrightarrow> ctl_inv c'"
  by (auto simp: ctl_inv_def handle_def held_def ended_def first_def split: handler.splits list.splits if_splits)

lemma run_cli_codes: "run_state (run_cli lib dns cobra args) s = (code, s') \<Longrightarrow> code \<in> {0, 1, exit_interrupted}"
  by (auto simp: run_cli_def split: prod.splits option.splits if_splits)

lemma ctl_inv_finish:
  assumes "ctl_inv c" "code \<in> {0, 1, exit_interrupted}" "code = exit_interrupted \<longrightarrow> ct_cancelled c"
  shows "ctl_inv (finish code c)"
proof -
  have "\<exists>sig. first c sig \<and> ct_stopped c = [sig]" if "ct_cancelled c"
    using assms(1) that by (auto simp: ctl_inv_def held_def split: handler.splits)
  then show ?thesis
    using assms by (auto simp: ctl_inv_def finish_def held_def ended_def exit_code_def exit_interrupted_def first_def
        split: handler.splits list.split)
qed

lemma ctl_reach_inv:
  assumes "context_law lib" "refusals_fine cobra"
  shows "ctl_reach lib dns cobra args c \<Longrightarrow> ctl_inv c"
proof (induction rule: ctl_reach.induct)
  case starts
  then show ?case by (simp add: ctl_init_def ctl_inv_def held_def ended_def)
next
  case (steps c c')
  from steps(2) show ?case
  proof (rule ctl_stepE, goal_cases)
    case (1 sig)
    then show ?case using steps(3) ctl_inv_deliver by (simp add: known_def)
  next
    case 2
    then show ?case using steps(3) ctl_inv_handle by blast
  next
    case (3 s code s')
    then have "code = exit_interrupted \<longrightarrow> ct_cancelled c" using run_cli_interrupted [OF assms] by blast
    with 3 show ?case using ctl_inv_finish [OF steps(3) run_cli_codes] by blast
  qed
qed

subsection \<open>Property\<close>

text \<open>C31: The exit code names the signal. In every interleaving of the signals, the goroutine and any run of the command, the process
  exits with 0 or 1, or with 128 plus the number of the first signal that arrived: 130 when that was an interrupt and
  143 when it was a termination, never the bare code of an interrupted run; and only a signal after the
  first one can kill it. The hypotheses are that the image library and cobra answer no error that wraps
  \<^verbatim>\<open>context.Canceled\<close> while the context lives; that the command itself then does not is proved.\<close>

theorem exit_names_signal:
  assumes "context_law lib" "refusals_fine cobra" "ctl_reach lib dns cobra args c"
  shows "(\<forall>code. ct_ending c = Some (Exited code) \<longrightarrow> code \<in> {0, 1, 130, 143} \<and>
      (code = 130 \<longrightarrow> (\<exists>later. ct_arrived c = sigint # later)) \<and> (code = 143 \<longrightarrow> (\<exists>later. ct_arrived c = sigterm # later)))
    \<and> (\<forall>sig. ct_ending c = Some (Killed sig) \<longrightarrow> \<not> ct_notify c \<and> (\<exists>before. before \<noteq> [] \<and> ct_arrived c = before @ [sig]))"
  using ctl_reach_inv [OF assms] by (auto simp: ctl_inv_def ended_def first_def known_def sigint_def sigterm_def)

subsection \<open>An interrupted import, for the example\<close>

lemma sample_refusals: "refusals_fine sample_cobra"
  by (simp add: refusals_fine_def sample_cobra_def)

lemma sample_context_law: "context_law sample_library"
  by (auto simp: context_law_def sample_library_def sample_image_def answers_fine_def fine_image_def fine_layer_def fine_archive_def
      fine_opt_def fine_def tar_file_def is_canceled_def)

lemma ctl_handled: "ctl_reach lib dns cobra args c \<Longrightarrow> ct_ending c = None \<Longrightarrow> handle c = Some c' \<Longrightarrow> ctl_reach lib dns cobra args c'"
  by (blast intro: ctl_reach.steps ctl_step.handles)

text \<open>The context is cancelled when the run asks for it first, before the archive is opened.\<close>

definition interrupted_cli :: cli_world where
  "interrupted_cli = \<lparr>cw_disk = (cache_world [] None)\<lparr>cancel := Some 0\<rparr>, cw_out = [], cw_err = []\<rparr>"

lemma sample_run_interrupted: "\<exists>s'. run_state sample_run interrupted_cli = (exit_interrupted, s')"
proof -
  have "wp (do_import sample_library ''/cache'' ''boot'' ''/a.tar'' \<lparr>tls_ca_file = [], tls_skip_verify = False, tls_plain_http = False\<rparr>)
      (\<lambda>x s'. \<exists>e. x = Some e \<and> is_canceled e) interrupted_cli"
    by (simp add: do_import_def import_into_def import_missing_def plain_store_def puller_for_def looks_like_path_def warn_def wp_rules
       interrupted_cli_def check_cache_path_def wp_stat wp_read_file wp_read_dir cache_world_def path_of_def state_of_def
       sweep_temporaries_def fill_def store_replaceable_def replaceable_def wp_lstat
       store_dir_def join_plain plain_def read_in_def stat_in_def lstat_in_def readdir_in_def node_at_def resolve_def lift_errno_def walk.simps
       sentinel_name_def dir_at_def join_def clean_def names_def new_aggregate_def List.map_filter_simps Let_def
       source_puller_def tarball_puller_def puller_of_def tarball_open_def ctx_done_def pull_error_def)
  then have "wp sample_run (\<lambda>x s'. x = exit_interrupted) interrupted_cli"
    using sample_validate(2) by (simp add: run_cli_def run_e_def sample_flags_def wp_rules) (erule wp_mono, auto simp: wp_return)
  then show ?thesis by (auto simp: wp_def split: prod.splits)
qed

text \<open>A termination, then an interrupt while the goroutine is about to ask for the default action: the exit code is
  that of the termination.\<close>

theorem exit_names_signal_witness:
  "\<exists>c. ctl_reach sample_library sample_dns sample_cobra [] c \<and> ct_ending c = Some (Exited 143) \<and> (\<exists>later. ct_arrived c = sigterm # later)
     \<and> sigint \<in> set (ct_arrived c)"
proof -
  let ?reach = "ctl_reach sample_library sample_dns sample_cobra []"
  let ?c = "\<lambda>as ss n h s t. \<lparr>ct_arrived = as, ct_signals = ss, ct_notify = n, ct_handler = h, ct_stopped = s, ct_cancelled = t, ct_ending = None\<rparr>"
  let ?as = "[sigterm, sigint]"
  have arrive: "?reach (deliver sig c)" if "?reach c" "ct_ending c = None" "known sig" for c sig
    using that by (auto intro: ctl_reach.steps ctl_step.arrives simp: known_def)
  have "?reach (deliver sigterm ctl_init)" by (rule arrive [OF ctl_reach.starts]) (simp_all add: ctl_init_def known_def)
  then have "?reach (?c [sigterm] [] True (Caught sigterm) [] False)"
    by (rule ctl_handled) (simp_all add: deliver_def ctl_init_def handle_def Let_def)
  then have "?reach (deliver sigint (?c [sigterm] [] True (Caught sigterm) [] False))" by (rule arrive) (simp_all add: known_def)
  then have "?reach (?c ?as [sigint] False (Stopped sigterm) [] False)" by (rule ctl_handled) (simp_all add: deliver_def handle_def Let_def)
  then have "?reach (?c ?as [sigint] False Sent [sigterm] False)" by (rule ctl_handled) (simp_all add: handle_def)
  then have "?reach (?c ?as [sigint] False Done [sigterm] True)" by (rule ctl_handled) (simp_all add: handle_def)
  moreover obtain s' where "run_state sample_run interrupted_cli = (exit_interrupted, s')" using sample_run_interrupted by blast
  ultimately have r: "?reach (finish exit_interrupted (?c ?as [sigint] False Done [sigterm] True))"
    by (intro ctl_reach.steps [OF _ ctl_step.returns]) simp_all
  moreover have e: "ct_ending (finish exit_interrupted (?c ?as [sigint] False Done [sigterm] True)) = Some (Exited 143)"
    by (simp add: finish_def exit_code_def sigterm_def)
  moreover have "sigint \<in> set (ct_arrived (finish exit_interrupted (?c ?as [sigint] False Done [sigterm] True)))" by (simp add: finish_def)
  ultimately show ?thesis using exit_names_signal [OF sample_context_law sample_refusals r] by blast
qed

end
