(* ===== verification/Manager.thy ===== *)
theory Manager
  imports Reconcile RawPath
begin

section \<open>Starting the agent (cmd/manager/main.go)\<close>

text \<open>
  \<^verbatim>\<open>main\<close> from the values of the flags to the exit code: what it refuses, what it hands to the
  manager, and in which order. The controller-runtime manager is a parameter, the record
  \<open>manager_lib\<close>, whose calls may fail. Where the values come from, starting at the defaults \<open>default_flags\<close>,
  is the subject of \<open>Startup\<close>; log lines are left out, but each way to exit keeps the error it logs.
\<close>

record manager_flags =
  mf_metrics_addr :: string
  mf_probe_addr :: string
  mf_secure_metrics :: bool
  mf_webhook_cert :: "string \<times> string \<times> string"
  mf_metrics_cert :: "string \<times> string \<times> string"
  mf_http2 :: bool
  mf_resync :: int
  mf_cache_path :: string
  mf_ca_file :: string
  mf_skip_verify :: bool
  mf_plain_http :: bool

text \<open>A duration is in nanoseconds.\<close>

definition default_flags :: manager_flags where
  "default_flags = \<lparr>mf_metrics_addr = ''0'', mf_probe_addr = '':8081'', mf_secure_metrics = True,
     mf_webhook_cert = ([], ''tls.crt'', ''tls.key''), mf_metrics_cert = ([], ''tls.crt'', ''tls.key''), mf_http2 = False,
     mf_resync = 3600 * 10 ^ 9, mf_cache_path = default_path, mf_ca_file = [], mf_skip_verify = False, mf_plain_http = False\<rparr>"

subsection \<open>The servers\<close>

record tls_config =
  next_protos :: "string list"

definition disable_http2 :: "tls_config \<Rightarrow> tls_config" where
  "disable_http2 c = c\<lparr>next_protos := [''http/1.1'']\<rparr>"

definition tls_opts :: "manager_flags \<Rightarrow> (tls_config \<Rightarrow> tls_config) list" where
  "tls_opts fl = (if \<not> mf_http2 fl then [disable_http2] else [])"

record webhook_options =
  wh_tls_opts :: "(tls_config \<Rightarrow> tls_config) list"
  wh_cert :: "(string \<times> string \<times> string) option"

record metrics_options =
  ms_bind :: string
  ms_secure :: bool
  ms_tls_opts :: "(tls_config \<Rightarrow> tls_config) list"
  ms_authenticated :: bool
  ms_cert :: "(string \<times> string \<times> string) option"

definition certificate :: "string \<times> string \<times> string \<Rightarrow> (string \<times> string \<times> string) option" where
  "certificate c = (if 0 < length (fst c) then Some c else None)"

definition webhook_server_options :: "manager_flags \<Rightarrow> webhook_options" where
  "webhook_server_options fl = \<lparr>wh_tls_opts = tls_opts fl, wh_cert = certificate (mf_webhook_cert fl)\<rparr>"

definition metrics_server_options :: "manager_flags \<Rightarrow> metrics_options" where
  "metrics_server_options fl = \<lparr>ms_bind = mf_metrics_addr fl, ms_secure = mf_secure_metrics fl, ms_tls_opts = tls_opts fl,
     ms_authenticated = mf_secure_metrics fl, ms_cert = certificate (mf_metrics_cert fl)\<rparr>"

record manager_options =
  mo_metrics :: metrics_options
  mo_webhook :: webhook_options
  mo_probe :: string

definition options_for :: "manager_flags \<Rightarrow> manager_options" where
  "options_for fl = \<lparr>mo_metrics = metrics_server_options fl, mo_webhook = webhook_server_options fl, mo_probe = mf_probe_addr fl\<rparr>"

subsection \<open>The controller\<close>

text \<open>The sources of requests \<^verbatim>\<open>SetupWithManager\<close> wires: the resources, one request when it starts,
  and the channel of the watcher. A mapping gives the requests for an object.\<close>

datatype watch = WatchCaches "string \<Rightarrow> string list" | OnceAtStart string | WatchChannel "string \<Rightarrow> string list"

definition to_node :: "('a, 'f) node_reconciler \<Rightarrow> string \<Rightarrow> string list" where
  "to_node nr obj = [nr_node nr]"

definition watches_of :: "('a, 'f) node_reconciler \<Rightarrow> 'f fswatcher option \<Rightarrow> watch list" where
  "watches_of nr fs = [WatchCaches (to_node nr), OnceAtStart (nr_node nr)]
     @ (if fs \<noteq> None then [WatchChannel (to_node nr)] else [])"

record ('a, 'f, 'm) manager_lib =
  ml_new :: "manager_options \<Rightarrow> 'm res"
  ml_client :: "'m \<Rightarrow> 'a cluster"
  ml_add :: "'f fswatcher \<Rightarrow> 'm \<Rightarrow> 'm res"
  ml_complete :: "string \<Rightarrow> watch list \<Rightarrow> ('a, 'f) node_reconciler \<Rightarrow> 'm \<Rightarrow> 'm res"
  ml_healthz :: "'m \<Rightarrow> 'm res"
  ml_readyz :: "'m \<Rightarrow> 'm res"
  ml_start :: "'m \<Rightarrow> err option"

definition setup_with_manager ::
  "('a, 'f, 'm) manager_lib \<Rightarrow> ('a, 'f) node_reconciler \<Rightarrow> 'f fswatcher option \<Rightarrow> 'm \<Rightarrow> 'm res" where
  "setup_with_manager ml nr fs m = ml_complete ml ''node'' (watches_of nr fs) nr m"

subsection \<open>main\<close>

datatype setup_failure =
    InvalidCachePath | NewManagerFailed err | NoNodeName | RegistryTLS err | NoWatcher err
  | WatcherNotAdded err | ControllerFailed err | HealthFailed err | ReadyFailed err | RunFailed err

text \<open>How \<^verbatim>\<open>main\<close> ends: it exits with 1 and what it logged, or the manager ran and came back
  without an error.\<close>

datatype ('a, 'f) outcome = Exit setup_failure | Ran "('a, 'f) node_reconciler" "'f fswatcher" manager_options

definition reconciler_for ::
  "('r, 'c) image_library \<Rightarrow> ('a, 'f, 'm) manager_lib \<Rightarrow> 'f fsnotify \<Rightarrow> manager_flags \<Rightarrow> string \<Rightarrow> 'c remote \<Rightarrow> store \<Rightarrow> 'm \<Rightarrow> ('a, 'f) node_reconciler" where
  "reconciler_for lib ml fn fl node rm st m = \<lparr>nr_client = ml_client ml m, nr_notify = fn, nr_node = node,
     nr_cache_path = clean (path_of (mf_cache_path fl)), nr_store = st, nr_puller = remote_puller lib rm, nr_resync = mf_resync fl\<rparr>"

text \<open>The store is made with the reconciler, once the watcher runs.\<close>

definition run_manager ::
  "('r, 'c) image_library \<Rightarrow> ('a, 'f, 'm) manager_lib \<Rightarrow> 'f fsnotify \<Rightarrow> manager_flags \<Rightarrow> string \<Rightarrow> 'c remote \<Rightarrow> manager_options \<Rightarrow> 'm \<Rightarrow> (sworld, ('a, 'f) outcome) state" where
  "run_manager lib ml fn fl node rm opts m = (case new_fswatcher fn node of
     Inl e \<Rightarrow> State_Monad.return (Exit (NoWatcher e))
   | Inr fw \<Rightarrow> (case ml_add ml fw m of
       Inl e \<Rightarrow> State_Monad.return (Exit (WatcherNotAdded e))
     | Inr m1 \<Rightarrow> do {
         st \<leftarrow> new_store;
         let nr = reconciler_for lib ml fn fl node rm st m1;
         State_Monad.return (case setup_with_manager ml nr (Some fw) m1 of
           Inl e \<Rightarrow> Exit (ControllerFailed e)
         | Inr m2 \<Rightarrow> (case ml_healthz ml m2 of
             Inl e \<Rightarrow> Exit (HealthFailed e)
           | Inr m3 \<Rightarrow> (case ml_readyz ml m3 of
               Inl e \<Rightarrow> Exit (ReadyFailed e)
             | Inr m4 \<Rightarrow> (case ml_start ml m4 of
                 Some e \<Rightarrow> Exit (RunFailed e)
               | None \<Rightarrow> Ran nr fw opts)))) }))"

definition main_manager ::
  "('r, 'c) image_library \<Rightarrow> ('a, 'f, 'm) manager_lib \<Rightarrow> 'f fsnotify \<Rightarrow> manager_flags \<Rightarrow> string \<Rightarrow> (sworld, ('a, 'f) outcome) state" where
  "main_manager lib ml fn fl node_name =
     (if \<not> valid_cache_path (mf_cache_path fl) then State_Monad.return (Exit InvalidCachePath)
      else
        (case ml_new ml (options_for fl) of
           Inl e \<Rightarrow> State_Monad.return (Exit (NewManagerFailed e))
         | Inr m \<Rightarrow>
             if node_name = [] then State_Monad.return (Exit NoNodeName)
             else do {
               r \<leftarrow> new_remote lib \<lparr>tls_ca_file = mf_ca_file fl, tls_skip_verify = mf_skip_verify fl, tls_plain_http = mf_plain_http fl\<rparr>;
               case r of
                 Inl e \<Rightarrow> State_Monad.return (Exit (RegistryTLS e))
               | Inr rm \<Rightarrow> run_manager lib ml fn fl node_name rm (options_for fl) m }))"

definition exit_status :: "('a, 'f) outcome \<Rightarrow> int" where
  "exit_status out = (case out of Exit _ \<Rightarrow> 1 | Ran _ _ _ \<Rightarrow> 0)"

subsection \<open>Properties\<close>

text \<open>Where the settings exclude each other \<^verbatim>\<open>NewRemote\<close> fails.\<close>

lemma new_remote_exclusive:
  "wp (new_remote lib cfg) (\<lambda>x w'. looks w w' \<and> (\<forall>rm. x = Inr rm \<longrightarrow> \<not> (tls_ca_file cfg \<noteq> [] \<and> tls_skip_verify cfg)
     \<and> \<not> (tls_plain_http cfg \<and> (tls_ca_file cfg \<noteq> [] \<or> tls_skip_verify cfg)))) w"
  by (auto simp: new_remote_def new_remote_on_def ca_pool_def Let_def wp_rules wp_read_file look.step_refl split: option.split sum.split)

abbreviation registry_settings :: "manager_flags \<Rightarrow> tls" where
  "registry_settings fl \<equiv> \<lparr>tls_ca_file = mf_ca_file fl, tls_skip_verify = mf_skip_verify fl, tls_plain_http = mf_plain_http fl\<rparr>"

lemma run_manager_Ran:
  "wp (run_manager lib ml fn fl node rm opts m) (\<lambda>out w'. root w' = root w \<and> (\<forall>nr fw opts'. out = Ran nr fw opts' \<longrightarrow> opts' = opts \<and>
     (\<exists>m1. nr = reconciler_for lib ml fn fl node rm no_hook m1) \<and> new_fswatcher fn node = Inr fw \<and> memory w' = Some new_sums)) w"
  by (auto simp: run_manager_def new_store_def wp_rules Let_def split: sum.split option.split)

lemma main_manager_Ran:
  "wp (main_manager lib ml fn fl node) (\<lambda>out w'. \<forall>nr fw opts. out = Ran nr fw opts \<longrightarrow> valid_cache_path (mf_cache_path fl) \<and> node \<noteq> []
     \<and> \<not> (mf_ca_file fl \<noteq> [] \<and> mf_skip_verify fl) \<and> \<not> (mf_plain_http fl \<and> (mf_ca_file fl \<noteq> [] \<or> mf_skip_verify fl))
     \<and> opts = options_for fl \<and> new_fswatcher fn node = Inr fw \<and> root w' = root w \<and> memory w' = Some new_sums
     \<and> (\<exists>rm m1. fst (run_state (new_remote lib (registry_settings fl)) w) = Inr rm \<and> nr = reconciler_for lib ml fn fl node rm no_hook m1)) w"
proof (cases "valid_cache_path (mf_cache_path fl) \<and> node \<noteq> [] \<and> (\<exists>m. ml_new ml (options_for fl) = Inr m)")
  case False
  then show ?thesis by (auto simp: main_manager_def wp_rules split: sum.split)
next
  case True
  then obtain m where m: "ml_new ml (options_for fl) = Inr m" by blast
  obtain r w1 where r: "run_state (new_remote lib (registry_settings fl)) w = (r, w1)" by fastforce
  have x: "looks w w1" "r = Inr rm \<Longrightarrow> \<not> (mf_ca_file fl \<noteq> [] \<and> mf_skip_verify fl) \<and> \<not> (mf_plain_http fl \<and> (mf_ca_file fl \<noteq> [] \<or> mf_skip_verify fl))" for rm
    using wpD [OF new_remote_exclusive r] by simp_all
  have "wp (case r of Inl e \<Rightarrow> State_Monad.return (Exit (RegistryTLS e)) | Inr rm \<Rightarrow> run_manager lib ml fn fl node rm (options_for fl) m)
      (\<lambda>out w'. \<forall>nr fw opts. out = Ran nr fw opts \<longrightarrow> valid_cache_path (mf_cache_path fl) \<and> node \<noteq> []
       \<and> \<not> (mf_ca_file fl \<noteq> [] \<and> mf_skip_verify fl) \<and> \<not> (mf_plain_http fl \<and> (mf_ca_file fl \<noteq> [] \<or> mf_skip_verify fl))
       \<and> opts = options_for fl \<and> new_fswatcher fn node = Inr fw \<and> root w' = root w \<and> memory w' = Some new_sums
       \<and> (\<exists>rm m1. fst (run_state (new_remote lib (registry_settings fl)) w) = Inr rm \<and> nr = reconciler_for lib ml fn fl node rm no_hook m1)) w1"
  proof (cases r)
    case (Inl e)
    then show ?thesis by (simp add: wp_return)
  next
    case (Inr rm)
    have "root w1 = root w" using x(1) by (simp add: looks_def)
    then show ?thesis
      unfolding Inr sum.case using True x(2) [OF Inr] r Inr by (intro wp_mono [OF run_manager_Ran]) auto
  qed
  then show ?thesis
    using True m by (simp add: main_manager_def wp_bind) (simp add: wp_def r)
qed

text \<open>C32: An agent that ran was set up right. When \<^verbatim>\<open>main\<close> gets the manager to run, the reconciler has a
  clean cache path below the root, the node's name, the resync period of the command line, a registry client made from the settings of the
  command line, which do not exclude each other, and a store whose memory of digests is there and empty; the
  servers speak HTTP/1.1 unless HTTP/2 was asked for, the metrics are authenticated whenever they are served securely,
  and every source of requests names the node alone, one of them once at start. Nothing on the file system changes.\<close>

theorem manager_set_up:
  assumes "run_state (main_manager lib ml fn fl node) w = (Ran nr fw opts, w')"
  shows "clean_path (nr_cache_path nr) \<and> nr_cache_path nr = filter (\<lambda>c. c \<noteq> [] \<and> c \<noteq> ''.'') (path_of (mf_cache_path fl))
    \<and> nr_node nr = node \<and> node \<noteq> [] \<and> fw_trigger fw = node \<and> nr_resync nr = mf_resync fl
    \<and> before_lock (nr_store nr) = None \<and> memory w' = Some \<lparr>sentries = (\<lambda>_. None), sracy = racy_window, shashed = 0\<rparr>
    \<and> (\<exists>rm. fst (run_state (new_remote lib (registry_settings fl)) w) = Inr rm \<and> nr_puller nr = remote_puller lib rm)
    \<and> \<not> (mf_ca_file fl \<noteq> [] \<and> mf_skip_verify fl)
    \<and> \<not> (mf_plain_http fl \<and> (mf_ca_file fl \<noteq> [] \<or> mf_skip_verify fl))
    \<and> (\<not> mf_http2 fl \<longrightarrow> (\<forall>c. next_protos (fold (\<lambda>f. f) (ms_tls_opts (mo_metrics opts)) c) = [''http/1.1'']
        \<and> next_protos (fold (\<lambda>f. f) (wh_tls_opts (mo_webhook opts)) c) = [''http/1.1'']))
    \<and> (ms_secure (mo_metrics opts) \<longrightarrow> ms_authenticated (mo_metrics opts))
    \<and> OnceAtStart node \<in> set (watches_of nr (Some fw))
    \<and> (\<forall>v \<in> set (watches_of nr (Some fw)). \<forall>obj. (case v of WatchCaches f \<Rightarrow> f obj | OnceAtStart r \<Rightarrow> [r] | WatchChannel f \<Rightarrow> f obj) = [node])
    \<and> root w' = root w"
proof -
  from wpD [OF main_manager_Ran assms] obtain rm m1 where v: "valid_cache_path (mf_cache_path fl)" "node \<noteq> []"
    and l: "root w' = root w" "memory w' = Some new_sums" and r0: "fst (run_state (new_remote lib (registry_settings fl)) w) = Inr rm"
    and r: "\<not> (mf_ca_file fl \<noteq> [] \<and> mf_skip_verify fl)" "\<not> (mf_plain_http fl \<and> (mf_ca_file fl \<noteq> [] \<or> mf_skip_verify fl))"
    and o: "opts = options_for fl" and nr: "nr = reconciler_for lib ml fn fl node rm no_hook m1" and fw: "new_fswatcher fn node = Inr fw" by blast
  note n = valid_path_no_climb [OF v(1)]
  have f: "fw_trigger fw = node" using fw by (auto simp: new_fswatcher_def split: sum.splits)
  have h: "next_protos (fold (\<lambda>f. f) (tls_opts fl) c) = [''http/1.1'']" if "\<not> mf_http2 fl" for c
    using that by (simp add: tls_opts_def disable_http2_def)
  have p: "\<exists>rm. fst (run_state (new_remote lib (registry_settings fl)) w) = Inr rm \<and> nr_puller nr = remote_puller lib rm"
    using r0 by (simp add: nr reconciler_for_def)
  show ?thesis
    using v r f h l p clean_is_clean [OF n] clean_no_climb [OF n]
    by (simp add: nr o reconciler_for_def options_for_def metrics_server_options_def webhook_server_options_def watches_of_def to_node_def
        no_hook_def new_sums_def)
qed

definition sample_manager :: "(labels, path set, unit) manager_lib" where
  "sample_manager = \<lparr>ml_new = (\<lambda>_. Inr ()), ml_client = (\<lambda>_. \<lparr>cl_get = (\<lambda>_ l. Inr l), cl_list = (\<lambda>_. Inr []), cl_patch = (\<lambda>_ b l sv. (Inr l, l))\<rparr>),
     ml_add = (\<lambda>_ m. Inr m), ml_complete = (\<lambda>_ _ _ m. Inr m), ml_healthz = Inr, ml_readyz = Inr, ml_start = (\<lambda>_. None)\<rparr>"

theorem manager_set_up_witness:
  "\<exists>nr fw opts w'. run_state (main_manager sample_library sample_manager sample_notify default_flags ''node-1'') (cache_world [] None) = (Ran nr fw opts, w')
     \<and> nr_cache_path nr = [''var'', ''lib'', ''image-cache''] \<and> memory w' = Some new_sums"
proof -
  let ?m = "main_manager sample_library sample_manager sample_notify default_flags ''node-1''"
  obtain nr fw opts w' where run: "run_state ?m (cache_world [] None) = (Ran nr fw opts, w')"
    by (simp add: main_manager_def run_manager_def setup_with_manager_def sample_manager_def sample_notify_def new_fswatcher_def
        default_flags_def default_path_def valid_cache_path_def new_remote_def new_store_def Let_def)
  from manager_set_up [OF run] have "nr_cache_path nr = filter (\<lambda>c. c \<noteq> [] \<and> c \<noteq> ''.'') (path_of default_path)" "memory w' = Some new_sums"
    by (simp_all add: default_flags_def new_sums_def)
  with run show ?thesis by (simp add: default_path_def path_of_def)
qed

end
