(* ===== verification/Flags.thy ===== *)
theory Flags
  imports Sentinel
begin

section \<open>Go's flag package and the values it reads\<close>

text \<open>
  The part of the standard library between \<^verbatim>\<open>os.Args\<close> and the variables of
  \<^verbatim>\<open>cmd/manager/main.go\<close>: \<^verbatim>\<open>flag.FlagSet.Parse\<close> over a table of flags, and what
  the values of the three kinds the command declares mean: \<^verbatim>\<open>strconv.ParseBool\<close>,
  \<^verbatim>\<open>time.ParseDuration\<close>, and the string itself. A duration is an \<^verbatim>\<open>int64\<close> of
  nanoseconds added up in a \<^verbatim>\<open>uint64\<close>, and a fraction of a unit goes through
  \<^verbatim>\<open>float64\<close>, both written out.
\<close>

subsection \<open>Booleans\<close>

definition parse_bool :: "string \<Rightarrow> bool option" where
  "parse_bool s =
     (if s \<in> {''1'', ''t'', ''T'', ''true'', ''TRUE'', ''True''} then Some True
      else if s \<in> {''0'', ''f'', ''F'', ''false'', ''FALSE'', ''False''} then Some False
      else None)"

definition bool_lit :: "bool \<Rightarrow> string" where
  "bool_lit b = (if b then ''true'' else ''false'')"

lemma parse_bool_lit [simp]: "parse_bool (bool_lit b) = Some b"
  by (simp add: parse_bool_def bool_lit_def)

subsection \<open>The nearest double\<close>

text \<open>The positive rational \<open>p / q\<close> rounded to 53 bits, ties to even, as a fraction again. The
  numbers here stay far from the ends of the exponent's range.\<close>

definition round_even :: "nat \<Rightarrow> nat \<Rightarrow> nat" where
  "round_even p q = (let d = p div q; r = p mod q in
     if 2 * r < q then d else if q < 2 * r then d + 1 else d + d mod 2)"

fun bits :: "nat \<Rightarrow> nat" where
  "bits n = (if n = 0 then 0 else Suc (bits (n div 2)))"

declare bits.simps [simp del]

definition double_at :: "int \<Rightarrow> nat \<Rightarrow> nat \<Rightarrow> nat \<times> nat" where
  "double_at e p q = (if 0 \<le> e then (round_even p (q * 2 ^ nat e) * 2 ^ nat e, 1)
     else (round_even (p * 2 ^ nat (- e)) q, 2 ^ nat (- e)))"

definition to_double :: "nat \<Rightarrow> nat \<Rightarrow> nat \<times> nat" where
  "to_double p q = (let e = int (bits p) - int (bits q) - 53 in
     if (if 0 \<le> e then p < q * 2 ^ (53 + nat e) else p * 2 ^ nat (- e) < q * 2 ^ 53)
     then double_at e p q else double_at (e + 1) p q)"

text \<open>\<^verbatim>\<open>uint64(float64(f) * (float64(unit) / scale))\<close>; the units and the powers of ten that
  can occur are doubles themselves.\<close>

definition fraction_of :: "nat \<Rightarrow> nat \<Rightarrow> nat \<Rightarrow> nat" where
  "fraction_of f unit scale =
     (let (a, b) = to_double f 1; (c, d) = to_double unit scale; (x, y) = to_double (a * c) (b * d) in x div y)"

subsection \<open>Durations\<close>

text \<open>The last two micro signs are U+00B5 and U+03BC.\<close>

definition duration_units :: "(string \<times> nat) list" where
  "duration_units = [(''ns'', 1), (''us'', 1000), ([CHR 0xC2, CHR 0xB5, CHR ''s''], 1000), ([CHR 0xCE, CHR 0xBC, CHR ''s''], 1000),
     (''ms'', 1000000), (''s'', 1000000000), (''m'', 60 * 1000000000), (''h'', 3600 * 1000000000)]"

fun leading_int :: "nat \<Rightarrow> string \<Rightarrow> (nat \<times> string) option" where
  "leading_int x [] = Some (x, [])"
| "leading_int x (c # s) =
     (if \<not> is_digit c then Some (x, c # s)
      else if 2 ^ 63 div 10 < x then None
      else let y = x * 10 + (byte c - 48) in if 2 ^ 63 < y then None else leading_int y s)"

text \<open>The digits after the period: once they overflow the rest is skipped.\<close>

fun leading_fraction :: "bool \<Rightarrow> nat \<Rightarrow> nat \<Rightarrow> string \<Rightarrow> nat \<times> nat \<times> string" where
  "leading_fraction over x scale [] = (x, scale, [])"
| "leading_fraction over x scale (c # s) =
     (if \<not> is_digit c then (x, scale, c # s)
      else if over \<or> (2 ^ 63 - 1) div 10 < x then leading_fraction True x scale s
      else let y = x * 10 + (byte c - 48) in
        if 2 ^ 63 < y then leading_fraction True x scale s else leading_fraction False y (scale * 10) s)"

text \<open>One number with its unit.\<close>

definition number_part :: "string \<Rightarrow> (nat \<times> nat \<times> nat \<times> string) option" where
  "number_part s = (case leading_int 0 s of
     None \<Rightarrow> None
   | Some (v, s1) \<Rightarrow>
       (case s1 of
          CHR ''.'' # t \<Rightarrow>
            (case leading_fraction False 0 1 t of (f, scale, s2) \<Rightarrow>
              if length s1 = length s \<and> length s2 = length t then None else Some (v, f, scale, s2))
        | _ \<Rightarrow> if length s1 = length s then None else Some (v, 0, 1, s1)))"

definition unit_char :: "char \<Rightarrow> bool" where
  "unit_char c \<longleftrightarrow> c \<noteq> CHR ''.'' \<and> \<not> is_digit c"

definition duration_term :: "string \<Rightarrow> (nat \<times> string) option" where
  "duration_term s = (if s = [] \<or> unit_char (hd s) then None else
     (case number_part s of
        None \<Rightarrow> None
      | Some (v, f, scale, s2) \<Rightarrow>
          (case map_of duration_units (takeWhile unit_char s2) of
             None \<Rightarrow> None
           | Some unit \<Rightarrow>
               if 2 ^ 63 div unit < v then None
               else let n = v * unit + (if 0 < f then fraction_of f unit scale else 0) in
                 if 2 ^ 63 < n then None else Some (n, dropWhile unit_char s2))))"

lemma leading_int_length: "leading_int x s = Some (v, r) \<Longrightarrow> length r \<le> length s"
  by (induction x s rule: leading_int.induct) (auto simp: Let_def split: if_splits)

lemma leading_fraction_length: "leading_fraction ov x k s = (f, n, r) \<Longrightarrow> length r \<le> length s"
  by (induction s arbitrary: ov x k) (auto simp: Let_def intro: le_SucI split: if_splits)

lemma number_part_length: "number_part s = Some (v, f, k, r) \<Longrightarrow> length r < length s"
  unfolding number_part_def
  by (auto split: option.splits prod.splits list.splits if_splits char.splits bool.splits
      dest!: leading_int_length leading_fraction_length)

lemma duration_term_length: "duration_term s = Some (n, r) \<Longrightarrow> length r < length s"
  by (auto simp: duration_term_def Let_def split: if_splits option.splits prod.splits
      dest!: number_part_length intro: le_less_trans [OF length_dropWhile_le])

text \<open>The sum of the terms, in a \<^verbatim>\<open>uint64\<close>.\<close>

function sum_terms :: "nat \<Rightarrow> string \<Rightarrow> nat option" where
  "sum_terms d s = (if s = [] then Some d else
     (case duration_term s of
        None \<Rightarrow> None
      | Some (n, r) \<Rightarrow> let d' = (d + n) mod 2 ^ 64 in if 2 ^ 63 < d' then None else sum_terms d' r))"
  by pat_completeness auto

termination
  by (relation "measure (length \<circ> snd)") (auto dest: duration_term_length)

declare sum_terms.simps [simp del]

definition parse_duration :: "string \<Rightarrow> int option" where
  "parse_duration s =
     (let neg = has_prefix s ''-''; t = (if neg \<or> has_prefix s ''+'' then tl s else s) in
      if t = ''0'' then Some 0
      else if t = [] then None
      else (case sum_terms 0 t of
         None \<Rightarrow> None
       | Some d \<Rightarrow> if neg then Some (- int d) else if 2 ^ 63 - 1 < d then None else Some (int d)))"

lemma sum_terms_bound: "sum_terms d s = Some n \<Longrightarrow> d \<le> 2 ^ 63 \<Longrightarrow> n \<le> 2 ^ 63"
proof (induction d s rule: sum_terms.induct)
  case (1 d s)
  then show ?case
    by (subst (asm) (2) sum_terms.simps) (auto simp: Let_def split: if_splits option.splits prod.splits)
qed

lemma parse_duration_int64: "parse_duration s = Some d \<Longrightarrow> int64 d"
  using sum_terms_bound [of 0]
  by (fastforce simp: parse_duration_def int64_def Let_def split: if_splits option.splits)

text \<open>What \<open>int_lit\<close> prints, with the unit of a nanosecond, is read back.\<close>

definition duration_lit :: "int \<Rightarrow> string" where
  "duration_lit d = int_lit d @ ''ns''"

lemma leading_int_digit:
  assumes "y = x * 10 + (byte c - 48)" "is_digit c" "y \<le> 2 ^ 63"
  shows "leading_int x (c # s) = leading_int y s"
  using assms by auto

lemma leading_int_digits:
  assumes "list_all is_digit ds" "\<And>k. k \<le> length ds \<Longrightarrow> foldl (\<lambda>a c. a * 10 + (byte c - 48)) x (take k ds) \<le> 2 ^ 63"
  shows "leading_int x (ds @ s) = leading_int (foldl (\<lambda>a c. a * 10 + (byte c - 48)) x ds) s"
  using assms
proof (induction ds arbitrary: x)
  case Nil
  then show ?case by simp
next
  case (Cons c ds)
  let ?y = "x * 10 + (byte c - 48)"
  have b: "foldl (\<lambda>a c. a * 10 + (byte c - 48)) ?y (take k ds) \<le> 2 ^ 63" if "k \<le> length ds" for k
    using Cons.prems(2) [of "Suc k"] that by simp
  have "leading_int x ((c # ds) @ s) = leading_int ?y (ds @ s)"
    using Cons.prems(1) b [of 0] by (simp only: append_Cons) (intro leading_int_digit, auto)
  also have "\<dots> = leading_int (foldl (\<lambda>a c. a * 10 + (byte c - 48)) ?y ds) s"
    using Cons.IH [OF _ b] Cons.prems(1) by simp
  finally show ?case by simp
qed

lemma foldl_digits_mono: "x \<le> foldl (\<lambda>a c. a * 10 + (byte c - 48)) x ds"
proof (induction ds arbitrary: x)
  case (Cons c ds)
  from Cons.IH [of "x * 10 + (byte c - 48)"] show ?case by simp
qed simp

lemma foldl_digits_take:
  "foldl (\<lambda>a c. a * 10 + (byte c - 48)) x (take k ds) \<le> foldl (\<lambda>a c. a * 10 + (byte c - 48)) x ds"
  by (metis append_take_drop_id foldl_append foldl_digits_mono)

lemma leading_int_lit:
  assumes "n \<le> 2 ^ 63"
  shows "leading_int 0 (digits n @ CHR ''n'' # s) = Some (n, CHR ''n'' # s)"
proof -
  let ?f = "\<lambda>a c. a * 10 + (byte c - 48)"
  have v: "foldl ?f 0 (digits n) = n" using digits_val_digits [of n] by (simp add: digits_val_def)
  have d: "list_all is_digit (digits n)" by (simp add: list_all_iff digits_are_digits)
  have b: "foldl ?f 0 (take k (digits n)) \<le> 2 ^ 63" if "k \<le> length (digits n)" for k
    using foldl_digits_take [of 0 k "digits n"] v assms by simp
  have n: "\<not> is_digit (CHR ''n'')" by (simp add: is_digit_def less_eq_char_def)
  from leading_int_digits [OF d b, where s = "CHR ''n'' # s"] v n show ?thesis by simp
qed

lemma parse_duration_lit:
  assumes "int64 d"
  shows "parse_duration (duration_lit d) = Some d"
proof -
  have u: "unit_char (CHR ''n'')" "unit_char (CHR ''s'')" by (simp_all add: unit_char_def is_digit_def less_eq_char_def)
  have h: "\<not> unit_char (hd (digits n @ s))" for n s using digits_head [of n] by (simp add: unit_char_def)
  have t: "duration_term (digits n @ ''ns'') = Some (n, [])" if "n \<le> 2 ^ 63" for n
    using leading_int_lit [OF that, of "CHR ''s'' # []"] h [of n "''ns''"] that
    by (simp add: duration_term_def number_part_def duration_units_def u)
  have s: "sum_terms 0 (digits n @ ''ns'') = Some n" if "n \<le> 2 ^ 63" for n
    using that by (subst sum_terms.simps) (simp add: t, subst sum_terms.simps, simp)
  have z: "digits n @ ''ns'' \<noteq> ''0''" for n by (cases "digits n") auto
  have p: "\<not> has_prefix (digits n @ s) ''-''" "\<not> has_prefix (digits n @ s) ''+''" for n s
    using digits_head [of n] by (cases "digits n"; auto simp: is_digit_def less_eq_char_def)+
  show ?thesis
  proof (cases "d < 0")
    case True
    then show ?thesis using assms s [of "nat (- d)"] z
      by (simp add: parse_duration_def duration_lit_def int_lit_def int64_def)
  next
    case False
    then show ?thesis using assms s [of "nat d"] z p
      by (auto simp: parse_duration_def duration_lit_def int_lit_def int64_def)
  qed
qed

subsection \<open>A set of flags\<close>

text \<open>A flag of the set is whether it is boolean (\<^verbatim>\<open>IsBoolFlag\<close>) and its
  \<^verbatim>\<open>Set\<close>, on the variables the flags write to; \<^verbatim>\<open>None\<close> is its error.\<close>

record 'c flag_def =
  fd_bool :: bool
  fd_set :: "string \<Rightarrow> 'c \<Rightarrow> 'c option"

definition string_var :: "(string \<Rightarrow> 'c \<Rightarrow> 'c) \<Rightarrow> 'c flag_def" where
  "string_var f = \<lparr>fd_bool = False, fd_set = (\<lambda>v c. Some (f v c))\<rparr>"

definition bool_var :: "(bool \<Rightarrow> 'c \<Rightarrow> 'c) \<Rightarrow> 'c flag_def" where
  "bool_var f = \<lparr>fd_bool = True, fd_set = (\<lambda>v c. map_option (\<lambda>b. f b c) (parse_bool v))\<rparr>"

definition duration_var :: "(int \<Rightarrow> 'c \<Rightarrow> 'c) \<Rightarrow> 'c flag_def" where
  "duration_var f = \<lparr>fd_bool = False, fd_set = (\<lambda>v c. map_option (\<lambda>d. f d c) (parse_duration v))\<rparr>"

text \<open>What \<^verbatim>\<open>Parse\<close> ends with: the variables and the arguments left, or why it stopped.\<close>

datatype flag_error = BadSyntax string | Undefined string | BadValue string string | NeedsArgument string

datatype 'c flag_result = Parsed 'c "string list" | HelpAsked | Failed flag_error

definition split_value :: "string \<Rightarrow> string \<times> string option" where
  "split_value s = (let t = dropWhile (\<lambda>c. c \<noteq> CHR ''='') s in
     (takeWhile (\<lambda>c. c \<noteq> CHR ''='') s, if t = [] then None else Some (tl t)))"

definition positional :: "string \<Rightarrow> bool" where
  "positional s \<longleftrightarrow> length s < 2 \<or> hd s \<noteq> CHR ''-''"

definition flag_name :: "string \<Rightarrow> string" where
  "flag_name s = drop (if s ! 1 = CHR ''-'' then 2 else 1) s"

definition named :: "string \<Rightarrow> bool" where
  "named n \<longleftrightarrow> n \<noteq> [] \<and> hd n \<noteq> CHR ''-'' \<and> hd n \<noteq> CHR ''=''"

text \<open>\<^verbatim>\<open>parseOne\<close>. A boolean flag takes no argument of its own; any other takes the next one
  when it has no value, whatever that looks like. The first argument that is no flag ends the parsing.\<close>

definition take_value :: "bool \<Rightarrow> string option \<Rightarrow> string list \<Rightarrow> (string \<times> string list) option" where
  "take_value boolean value rest = (case value of
     Some v \<Rightarrow> Some (v, rest)
   | None \<Rightarrow> if boolean then Some (''true'', rest) else (case rest of [] \<Rightarrow> None | v # rest' \<Rightarrow> Some (v, rest')))"

datatype 'c parsed_one = Seen 'c "string list" | Ended "'c flag_result"

definition set_one :: "'c flag_def \<Rightarrow> string \<Rightarrow> string option \<Rightarrow> string list \<Rightarrow> 'c \<Rightarrow> 'c parsed_one" where
  "set_one f n value rest c = (case take_value (fd_bool f) value rest of
     None \<Rightarrow> Ended (Failed (NeedsArgument n))
   | Some (v, rest') \<Rightarrow> (case fd_set f v c of None \<Rightarrow> Ended (Failed (BadValue v n)) | Some c' \<Rightarrow> Seen c' rest'))"

fun parse_one :: "(string \<times> 'c flag_def) list \<Rightarrow> string list \<Rightarrow> 'c \<Rightarrow> 'c parsed_one" where
  "parse_one formal [] c = Ended (Parsed c [])"
| "parse_one formal (s # rest) c =
     (if positional s then Ended (Parsed c (s # rest))
      else if s = ''--'' then Ended (Parsed c rest)
      else if \<not> named (flag_name s) then Ended (Failed (BadSyntax s))
      else (case split_value (flag_name s) of (n, value) \<Rightarrow>
        (case map_of formal n of
           None \<Rightarrow> Ended (if n = ''help'' \<or> n = ''h'' then HelpAsked else Failed (Undefined n))
         | Some f \<Rightarrow> set_one f n value rest c)))"

lemma set_one_Seen:
  "set_one f n value rest c = Seen c' rest' \<Longrightarrow> length rest' \<le> length rest \<and> (\<exists>v. fd_set f v c = Some c')"
  by (auto simp: set_one_def take_value_def split: option.splits if_splits list.splits)

lemma parse_one_Seen:
  "parse_one formal args c = Seen c' rest \<Longrightarrow>
     length rest < length args \<and> (\<exists>n f v. map_of formal n = Some f \<and> fd_set f v c = Some c')"
  by (cases args) (auto split: if_splits prod.splits option.splits dest!: set_one_Seen)

lemma parse_one_Ended: "parse_one formal args c = Ended (Parsed c' rest) \<Longrightarrow> c' = c"
  by (cases args) (auto simp: set_one_def split: if_splits prod.splits option.splits)

function parse_flags :: "(string \<times> 'c flag_def) list \<Rightarrow> string list \<Rightarrow> 'c \<Rightarrow> 'c flag_result" where
  "parse_flags formal args c = (case parse_one formal args c of
     Seen c' rest \<Rightarrow> parse_flags formal rest c'
   | Ended r \<Rightarrow> r)"
  by pat_completeness auto

termination
  by (relation "measure (\<lambda>(_, args, _). length args)") (auto dest: parse_one_Seen)

declare parse_flags.simps [simp del]

text \<open>What every \<^verbatim>\<open>Set\<close> keeps holds of the variables in the end.\<close>

lemma parse_flags_invariant:
  assumes "parse_flags formal args c = Parsed c' rest" "I c"
    and step: "\<And>n f v c c'. map_of formal n = Some f \<Longrightarrow> fd_set f v c = Some c' \<Longrightarrow> I c \<Longrightarrow> I c'"
  shows "I c'"
  using assms
proof (induction formal args c rule: parse_flags.induct)
  case (1 formal args c)
  show ?case
  proof (cases "parse_one formal args c")
    case (Seen d r)
    from parse_one_Seen [OF this] obtain n f v where "map_of formal n = Some f" "fd_set f v c = Some d" by blast
    then have "I d" using "1.prems"(2) by (rule "1.prems"(3))
    moreover have "parse_flags formal r d = Parsed c' rest"
      using "1.prems"(1) Seen by (subst (asm) parse_flags.simps) simp
    ultimately show ?thesis using "1.IH" [OF Seen] "1.prems"(3) by blast
  next
    case (Ended r)
    then have "c' = c" using "1.prems"(1) by (subst (asm) parse_flags.simps) (auto dest: parse_one_Ended)
    then show ?thesis using "1.prems"(2) by simp
  qed
qed

text \<open>A flag given with its value in the same argument.\<close>

definition flag_arg :: "string \<Rightarrow> string \<Rightarrow> string" where
  "flag_arg n v = ''--'' @ n @ ''='' @ v"

lemma split_value_eq: "CHR ''='' \<notin> set n \<Longrightarrow> split_value (n @ CHR ''='' # v) = (n, Some v)"
  by (auto simp: split_value_def takeWhile_append dropWhile_append)

lemma parse_flags_arg:
  assumes "named n" "CHR ''='' \<notin> set n" "map_of formal n = Some f" "fd_set f v c = Some c'"
  shows "parse_flags formal (flag_arg n v # rest) c = parse_flags formal rest c'"
  using assms split_value_eq [of n v]
  by (subst parse_flags.simps)
    (cases n, auto simp: flag_arg_def positional_def flag_name_def named_def set_one_def take_value_def)

lemma parse_flags_stop: "positional s \<Longrightarrow> parse_flags formal (s # rest) c = Parsed c (s # rest)"
  by (simp add: parse_flags.simps)

end
