(* ===== verification/Startup.thy ===== *)
theory Startup
  imports Manager Flags
begin

section \<open>The command line of the agent (cmd/manager/main.go)\<close>

text \<open>
  The flags \<^verbatim>\<open>main\<close> registers, what \<^verbatim>\<open>flag.Parse\<close> makes of the arguments, and
  the whole process from its arguments to its exit status. The flags other packages register on the
  same set (zap's, the kubeconfig of controller-runtime) are a parameter, a table over a state of
  their own; registering a name twice panics.
\<close>

subsection \<open>The flags\<close>

definition certificate_flags ::
  "string \<Rightarrow> ((string \<times> string \<times> string \<Rightarrow> string \<times> string \<times> string) \<Rightarrow> manager_flags \<Rightarrow> manager_flags)
     \<Rightarrow> (string \<times> manager_flags flag_def) list" where
  "certificate_flags server f =
     [(server @ ''-cert-path'', string_var (\<lambda>v. f (\<lambda>(_, n, k). (v, n, k)))),
      (server @ ''-cert-name'', string_var (\<lambda>v. f (\<lambda>(p, _, k). (p, v, k)))),
      (server @ ''-cert-key'', string_var (\<lambda>v. f (\<lambda>(p, n, _). (p, n, v))))]"

definition manager_table :: "(string \<times> manager_flags flag_def) list" where
  "manager_table =
     [(''metrics-bind-address'', string_var (\<lambda>v fl. fl\<lparr>mf_metrics_addr := v\<rparr>)),
      (''health-probe-bind-address'', string_var (\<lambda>v fl. fl\<lparr>mf_probe_addr := v\<rparr>)),
      (''metrics-secure'', bool_var (\<lambda>b fl. fl\<lparr>mf_secure_metrics := b\<rparr>))]
     @ certificate_flags ''webhook'' (\<lambda>g fl. fl\<lparr>mf_webhook_cert := g (mf_webhook_cert fl)\<rparr>)
     @ certificate_flags ''metrics'' (\<lambda>g fl. fl\<lparr>mf_metrics_cert := g (mf_metrics_cert fl)\<rparr>)
     @ [(''enable-http2'', bool_var (\<lambda>b fl. fl\<lparr>mf_http2 := b\<rparr>)),
      (''resync-period'', duration_var (\<lambda>d fl. fl\<lparr>mf_resync := d\<rparr>)),
      (''cache-path'', string_var (\<lambda>v fl. fl\<lparr>mf_cache_path := v\<rparr>)),
      (''ca-file'', string_var (\<lambda>v fl. fl\<lparr>mf_ca_file := v\<rparr>)),
      (''insecure-skip-tls-verify'', bool_var (\<lambda>b fl. fl\<lparr>mf_skip_verify := b\<rparr>)),
      (''plain-http'', bool_var (\<lambda>b fl. fl\<lparr>mf_plain_http := b\<rparr>))]"

text \<open>The variables of the program beside those of the other packages, in one set.\<close>

definition on_fst :: "'a flag_def \<Rightarrow> ('a \<times> 'z) flag_def" where
  "on_fst f = \<lparr>fd_bool = fd_bool f, fd_set = (\<lambda>v (a, z). map_option (\<lambda>a'. (a', z)) (fd_set f v a))\<rparr>"

definition on_snd :: "'z flag_def \<Rightarrow> ('a \<times> 'z) flag_def" where
  "on_snd f = \<lparr>fd_bool = fd_bool f, fd_set = (\<lambda>v (a, z). map_option (Pair a) (fd_set f v z))\<rparr>"

definition command_line :: "(string \<times> 'z flag_def) list \<Rightarrow> (string \<times> (manager_flags \<times> 'z) flag_def) list" where
  "command_line others = map (apsnd on_fst) manager_table @ map (apsnd on_snd) others"

text \<open>From the defaults; the arguments left over are not looked at.\<close>

definition parse_command_line :: "(string \<times> 'z flag_def) list \<Rightarrow> 'z \<Rightarrow> string list \<Rightarrow> (manager_flags \<times> 'z) flag_result" where
  "parse_command_line others z args = parse_flags (command_line others) args (default_flags, z)"

subsection \<open>The process\<close>

datatype ('a, 'f) process = Panicked | FlagsExit int | Started "('a, 'f) outcome"

definition agent_process ::
  "('r, 'c) image_library \<Rightarrow> ('a, 'f, 'm) manager_lib \<Rightarrow> 'f fsnotify \<Rightarrow> (string \<times> 'z flag_def) list \<Rightarrow> 'z \<Rightarrow> string list \<Rightarrow> string \<Rightarrow>
     (sworld, ('a, 'f) process) state" where
  "agent_process lib ml fn others z args node =
     (if \<not> distinct (map fst (command_line others)) then State_Monad.return Panicked
      else (case parse_command_line others z args of
         HelpAsked \<Rightarrow> State_Monad.return (FlagsExit 0)
       | Failed _ \<Rightarrow> State_Monad.return (FlagsExit 2)
       | Parsed (fl, _) _ \<Rightarrow> do {
           out \<leftarrow> main_manager lib ml fn fl node;
           State_Monad.return (Started out) }))"

definition process_status :: "('a, 'f) process \<Rightarrow> int" where
  "process_status p = (case p of Panicked \<Rightarrow> 2 | FlagsExit n \<Rightarrow> n | Started out \<Rightarrow> exit_status out)"

subsection \<open>Every configuration can be given\<close>

definition arguments :: "manager_flags \<Rightarrow> string list" where
  "arguments fl =
     [flag_arg ''metrics-bind-address'' (mf_metrics_addr fl), flag_arg ''health-probe-bind-address'' (mf_probe_addr fl),
      flag_arg ''metrics-secure'' (bool_lit (mf_secure_metrics fl)),
      flag_arg ''webhook-cert-path'' (fst (mf_webhook_cert fl)), flag_arg ''webhook-cert-name'' (fst (snd (mf_webhook_cert fl))),
      flag_arg ''webhook-cert-key'' (snd (snd (mf_webhook_cert fl))),
      flag_arg ''metrics-cert-path'' (fst (mf_metrics_cert fl)), flag_arg ''metrics-cert-name'' (fst (snd (mf_metrics_cert fl))),
      flag_arg ''metrics-cert-key'' (snd (snd (mf_metrics_cert fl))),
      flag_arg ''enable-http2'' (bool_lit (mf_http2 fl)), flag_arg ''resync-period'' (duration_lit (mf_resync fl)),
      flag_arg ''cache-path'' (mf_cache_path fl), flag_arg ''ca-file'' (mf_ca_file fl),
      flag_arg ''insecure-skip-tls-verify'' (bool_lit (mf_skip_verify fl)), flag_arg ''plain-http'' (bool_lit (mf_plain_http fl))]"

lemma own_flag:
  fixes others :: "(string \<times> 'z flag_def) list"
  assumes "(n, f) \<in> set manager_table"
  shows "map_of (command_line others) n = Some (on_fst f)"
proof -
  have d: "distinct (map fst manager_table)" by (simp add: manager_table_def certificate_flags_def)
  have "(n, on_fst f :: (manager_flags \<times> 'z) flag_def) \<in> set (map (apsnd on_fst) manager_table)" using assms by force
  moreover have "distinct (map fst (map (apsnd (on_fst :: _ \<Rightarrow> (manager_flags \<times> 'z) flag_def)) manager_table))" using d by (simp add: comp_def)
  ultimately have "map_of (map (apsnd on_fst) manager_table) n = Some (on_fst f :: (manager_flags \<times> 'z) flag_def)" by (metis map_of_is_SomeI)
  then show ?thesis by (simp add: command_line_def map_add_Some_iff)
qed

lemma own_arg:
  assumes "(n, f) \<in> set manager_table" "fd_set f v fl = Some fl'"
  shows "parse_flags (command_line others) (flag_arg n v # rest) (fl, z) = parse_flags (command_line others) rest (fl', z)"
proof -
  have "list_all (\<lambda>n. named n \<and> CHR ''='' \<notin> set n) (map fst manager_table)"
    by (simp add: manager_table_def certificate_flags_def named_def)
  then have "named n" "CHR ''='' \<notin> set n" using assms(1) by (auto simp: list_all_iff)
  moreover have "fd_set (on_fst f) v (fl, z) = Some (fl', z)" using assms(2) by (simp add: on_fst_def)
  ultimately show ?thesis by (rule parse_flags_arg [OF _ _ own_flag [OF assms(1)]])
qed

lemma set_string: "fd_set (string_var f) v c = Some (f v c)"
  by (simp add: string_var_def)

lemma set_bool: "fd_set (bool_var f) (bool_lit b) c = Some (f b c)"
  by (simp add: bool_var_def)

lemma set_duration: "int64 d \<Longrightarrow> fd_set (duration_var f) (duration_lit d) c = Some (f d c)"
  by (simp add: duration_var_def parse_duration_lit)

lemmas own_args = own_arg [OF _ set_string] own_arg [OF _ set_bool] own_arg [OF _ set_duration]

lemma parse_arguments:
  assumes "int64 (mf_resync fl)"
  shows "parse_flags (command_line others) (arguments fl @ rest) (fl0, z) = parse_flags (command_line others) rest (fl, z)"
  using assms
  by (cases fl; cases fl0; cases "mf_webhook_cert fl"; cases "mf_metrics_cert fl"; cases "mf_webhook_cert fl0"; cases "mf_metrics_cert fl0")
    (simp add: arguments_def manager_table_def certificate_flags_def own_args)

lemma set_own_resync:
  assumes "map_of (command_line others) n = Some f" "fd_set f v c = Some c'" "int64 (mf_resync (fst c))"
  shows "int64 (mf_resync (fst c'))"
proof -
  have own: "int64 (mf_resync fl')" if "(n, g) \<in> set manager_table" "fd_set g v fl = Some fl'" "int64 (mf_resync fl)" for g fl fl'
    using that parse_duration_int64 [of v "mf_resync fl'"]
    by (auto simp: manager_table_def certificate_flags_def string_var_def bool_var_def duration_var_def)
  from assms(1) have "(n, f) \<in> set (map (apsnd on_fst) manager_table) \<union> set (map (apsnd on_snd) others)"
    by (auto simp: command_line_def dest!: map_of_SomeD)
  then show ?thesis using assms(2,3) own
    by (cases c) (auto simp: on_fst_def on_snd_def)
qed

lemma parsed_resync: "parse_command_line others z args = Parsed (fl, z') rest \<Longrightarrow> int64 (mf_resync fl)"
  using parse_flags_invariant [of "command_line others" args "(default_flags, z)" "(fl, z')" rest "\<lambda>c. int64 (mf_resync (fst c))"]
  by (auto simp: parse_command_line_def default_flags_def int64_def [of "3600000000000"] dest: set_own_resync)

text \<open>C33: The settings of the agent are exactly what its command line can say. The arguments \<open>arguments fl\<close>
  set every variable to the value of \<open>fl\<close>, whatever the other packages registered, up to the first
  argument that is no flag, and the process is then \<open>main_manager\<close> on them; it is so for every settings
  whose resync period is an \<^verbatim>\<open>int64\<close>, and no command line gives others.\<close>

theorem configurations_on_command_line:
  assumes "rest = [] \<or> positional (hd rest)"
  shows "(int64 (mf_resync fl) \<longrightarrow> parse_command_line others z (arguments fl @ rest) = Parsed (fl, z) rest)
    \<and> ((\<exists>args z' left. parse_command_line others z args = Parsed (fl, z') left) \<longleftrightarrow> int64 (mf_resync fl))
    \<and> (int64 (mf_resync fl) \<longrightarrow> distinct (map fst (command_line others)) \<longrightarrow>
        run_state (agent_process lib ml fn others z (arguments fl @ rest) node) w
          = apfst Started (run_state (main_manager lib ml fn fl node) w))"
proof -
  have "parse_command_line others z (arguments fl @ rest) = Parsed (fl, z) rest" if "int64 (mf_resync fl)"
    using assms unfolding parse_command_line_def parse_arguments [OF that]
    by (cases rest) (auto simp: parse_flags_stop parse_flags.simps [of _ "[]"])
  then show ?thesis
    by (auto simp: agent_process_def apfst_def map_prod_def split: prod.splits dest: parsed_resync)
qed

text \<open>Two flags of other packages, and an agent of another cache path behind a registry without TLS.\<close>

definition sample_others :: "(string \<times> string flag_def) list" where
  "sample_others = [(''kubeconfig'', string_var (\<lambda>v _. v)), (''zap-devel'', bool_var (\<lambda>_ z. z))]"

definition sample_settings :: manager_flags where
  "sample_settings = default_flags\<lparr>mf_cache_path := ''/srv/cache'', mf_resync := 0, mf_plain_http := True\<rparr>"

theorem configurations_on_command_line_witness:
  "parse_command_line sample_others [] (arguments sample_settings @ [''serve'']) = Parsed (sample_settings, []) [''serve'']
     \<and> run_state (agent_process sample_library sample_manager sample_notify sample_others [] (arguments sample_settings @ [''serve'']) []) (cache_world [] None)
       = apfst Started (run_state (main_manager sample_library sample_manager sample_notify sample_settings []) (cache_world [] None))"
proof -
  have r: "[''serve''] = [] \<or> positional (hd [''serve''])" by (simp add: positional_def)
  have i: "int64 (mf_resync sample_settings)" by (simp add: sample_settings_def int64_def)
  have d: "distinct (map fst (command_line sample_others))"
    by (simp add: command_line_def manager_table_def certificate_flags_def sample_others_def)
  from configurations_on_command_line [OF r, of sample_settings sample_others "[]" sample_library sample_manager sample_notify "[]" "cache_world [] None"] i d
  show ?thesis by blast
qed

text \<open>A boolean flag does not take the next argument: what was meant as its value ends the flags, and
  those after it are not read.\<close>

lemma boolean_value_apart:
  assumes "named n" "CHR ''='' \<notin> set n" "map_of formal n = Some f" "fd_bool f" "fd_set f ''true'' c = Some c'" "positional v"
  shows "parse_flags formal ((''--'' @ n) # v # rest) c = Parsed c' (v # rest)"
proof -
  have "split_value n = (n, None)" using assms(2) by (auto simp: split_value_def takeWhile_eq_all_conv dropWhile_eq_Nil_conv)
  then have "parse_one formal ((''--'' @ n) # v # rest) c = Seen c' (v # rest)"
    using assms(1-5) by (cases n) (auto simp: positional_def flag_name_def named_def set_one_def take_value_def)
  then show ?thesis using parse_flags_stop [OF assms(6)] by (subst parse_flags.simps) simp
qed

end
