(* ===== verification/Racy.thy ===== *)
theory Racy
  imports Memory
begin

section \<open>Writers the agent does not see\<close>

text \<open>
  How far the memory of digests may be believed although anything on the node may write to the cache
  between two steps of the agent. The life of one path of the cache: the agent extracts the file
  (\<^verbatim>\<open>Extract\<close> hashes the bytes as it writes them to a temporary directory, moves the
  directory into place and remembers the digests), checks it (the caller's \<^verbatim>\<open>Stat\<close>, the look
  into the memory, the clock read before the file is opened, the hashing, the new entry), and forgets
  it. Anybody else may write to the file at any point, in the temporary directory too.

  A change stamps the file with the clock rounded down to the tick of the file system; nothing else
  sets a ctime. A digest read from a file that changes meanwhile is any string, and so is what the
  agent's further writes make of a file another writer has touched. Three parts are ghosts: the digest
  of the content the \<^verbatim>\<open>Stat\<close> saw, whether the file changed since the clock was read, and the
  marks: the change times the file has borne since another writer first touched it.
\<close>

datatype phase =
    Idle
  | Writing regfile string "int set"
  | Placed string
  | Seen sum_key string
  | Opened sum_key int bool
  | Hashed sum_key int string bool

record race =
  rc_file :: regfile
  rc_time :: int
  rc_marks :: "int set"
  rc_entry :: "sum_entry option"
  rc_phase :: phase

definition rounded :: "int \<Rightarrow> int \<Rightarrow> int" where
  "rounded gran t = t - t mod gran"

definition mark_changed :: "phase \<Rightarrow> phase" where
  "mark_changed ph = (case ph of
     Opened k at _ \<Rightarrow> Opened k at True
   | Hashed k at d _ \<Rightarrow> Hashed k at d True
   | _ \<Rightarrow> ph)"

definition change_file :: "regfile \<Rightarrow> race \<Rightarrow> race" where
  "change_file f s = s\<lparr>rc_file := f, rc_marks := insert (fctime f) (rc_marks s), rc_phase := mark_changed (rc_phase s)\<rparr>"

definition believes :: "int \<Rightarrow> race \<Rightarrow> sum_key \<Rightarrow> bool" where
  "believes racy s k = (case rc_entry s of None \<Rightarrow> False | Some e \<Rightarrow> trusted racy e k)"

text \<open>The steps, in this order: the clock, the other writers, the extraction, what it remembers, the check. A
  collection forgets the path, and an agent that stops, at any point, forgets everything. The old directory is cleared and
  forgotten, and the new one moved in, without a check in between, so this is one step. A file that is
  absent is never looked up: the check stops at its \<^verbatim>\<open>Stat\<close>, and one that appears again is a change.\<close>

inductive race_step :: "int \<Rightarrow> int \<Rightarrow> race \<Rightarrow> race \<Rightarrow> bool" for racy gran where
  passes: "rc_time s \<le> t \<Longrightarrow> race_step racy gran s (s\<lparr>rc_time := t\<rparr>)"
| changes: "fctime f = rounded gran (rc_time s) \<Longrightarrow> race_step racy gran s (change_file f s)"
| touches: "rc_phase s = Writing f t M \<Longrightarrow> fctime g = rounded gran (rc_time s) \<Longrightarrow>
    race_step racy gran s (s\<lparr>rc_phase := Writing g t (insert (fctime g) M)\<rparr>)"
| creates: "rc_phase s = Idle \<Longrightarrow> fctime f = rounded gran (rc_time s) \<Longrightarrow> fdata f = [] \<Longrightarrow>
    race_step racy gran s (s\<lparr>rc_phase := Writing f [] {}\<rparr>)"
| writes: "rc_phase s = Writing f t M \<Longrightarrow> fctime g = rounded gran (rc_time s) \<Longrightarrow> M = {} \<longrightarrow> fdata g = fdata f @ bytes \<Longrightarrow>
    race_step racy gran s (s\<lparr>rc_phase := Writing g (t @ bytes) (if M = {} then {} else insert (fctime g) M)\<rparr>)"
| fails: "rc_phase s = Writing f t M \<Longrightarrow> race_step racy gran s (s\<lparr>rc_phase := Idle\<rparr>)"
| publishes: "rc_phase s = Writing f t M \<Longrightarrow>
    race_step racy gran s (s\<lparr>rc_file := f, rc_marks := M, rc_entry := None, rc_phase := Placed (sum_of t)\<rparr>)"
| remembers: "rc_phase s = Placed d \<Longrightarrow>
    race_step racy gran s (s\<lparr>rc_phase := Idle, rc_entry := Some \<lparr>ekey = key_of_file (rc_file s), edigest = d, eat = 0, ewritten = True\<rparr>\<rparr>)"
| misses: "rc_phase s = Placed d \<Longrightarrow> race_step racy gran s (s\<lparr>rc_phase := Idle\<rparr>)"
| forgets: "race_step racy gran s (s\<lparr>rc_phase := Idle, rc_entry := None\<rparr>)"
| stats: "rc_phase s = Idle \<Longrightarrow> race_step racy gran s (s\<lparr>rc_phase := Seen (key_of_file (rc_file s)) (sum_of (fdata (rc_file s)))\<rparr>)"
| answers: "rc_phase s = Seen k d \<Longrightarrow> believes racy s k \<Longrightarrow> race_step racy gran s (s\<lparr>rc_phase := Idle\<rparr>)"
| opens: "rc_phase s = Seen k d \<Longrightarrow> \<not> believes racy s k \<Longrightarrow> race_step racy gran s (s\<lparr>rc_phase := Opened k (rc_time s) False\<rparr>)"
| hashes: "rc_phase s = Opened k at ch \<Longrightarrow> \<not> ch \<longrightarrow> d = sum_of (fdata (rc_file s)) \<Longrightarrow> race_step racy gran s (s\<lparr>rc_phase := Hashed k at d ch\<rparr>)"
| stores: "rc_phase s = Hashed k at d ch \<Longrightarrow>
    race_step racy gran s (s\<lparr>rc_phase := Idle, rc_entry := Some \<lparr>ekey = k, edigest = d, eat = at, ewritten = False\<rparr>\<rparr>)"

text \<open>An agent starts with an empty memory, over whatever file is there.\<close>

definition race_start :: "race \<Rightarrow> bool" where
  "race_start s \<longleftrightarrow> rc_phase s = Idle \<and> rc_entry s = None"

inductive race_reach :: "int \<Rightarrow> int \<Rightarrow> race \<Rightarrow> bool" for racy gran where
  begins: "race_start s \<Longrightarrow> race_reach racy gran s"
| moves: "race_reach racy gran s \<Longrightarrow> race_step racy gran s t \<Longrightarrow> race_reach racy gran t"

subsection \<open>The invariant\<close>













subsection \<open>A file extracted, remembered and checked\<close>

definition stamped :: "string \<Rightarrow> int \<Rightarrow> regfile" where
  "stamped bytes c = \<lparr>fdata = bytes, fdev = 1, fino = 5, fmtime = 0, fctime = c\<rparr>"

definition agent_at :: "int \<Rightarrow> regfile \<Rightarrow> int set \<Rightarrow> sum_entry option \<Rightarrow> phase \<Rightarrow> race" where
  "agent_at t f M en ph = \<lparr>rc_file = f, rc_time = t, rc_marks = M, rc_entry = en, rc_phase = ph\<rparr>"

definition remembered_entry :: "regfile \<Rightarrow> string \<Rightarrow> sum_entry" where
  "remembered_entry f bytes = \<lparr>ekey = key_of_file f, edigest = sum_of bytes, eat = 0, ewritten = True\<rparr>"

lemma agent_at_simps [simp]:
  "rc_file (agent_at t f M en ph) = f" "rc_time (agent_at t f M en ph) = t" "rc_marks (agent_at t f M en ph) = M"
  "rc_entry (agent_at t f M en ph) = en" "rc_phase (agent_at t f M en ph) = ph"
  "fdata (stamped b c) = b" "fctime (stamped b c) = c" "rounded 1 t = t"
  by (simp_all add: agent_at_def stamped_def rounded_def)

lemma written_reached: "race_reach racy 1 (agent_at 0 (stamped [] 0) {} None (Writing (stamped bytes 0) bytes {}))"
proof -
  let ?f = "stamped [] 0"
  have "race_reach racy 1 (agent_at 0 ?f {} None Idle)" by (rule race_reach.begins) (simp add: race_start_def)
  then have "race_reach racy 1 (agent_at 0 ?f {} None (Writing ?f [] {}))"
    by (rule race_reach.moves) (use race_step.creates [of "agent_at 0 ?f {} None Idle" ?f 1 racy] in \<open>simp add: agent_at_def\<close>)
  then show ?thesis
    by (rule race_reach.moves)
      (use race_step.writes [of "agent_at 0 ?f {} None (Writing ?f [] {})" ?f "[]" "{}" "stamped bytes 0" 1 bytes racy] in \<open>simp add: agent_at_def\<close>)
qed

text \<open>From the end of the writing to the \<^verbatim>\<open>Stat\<close> of the next check.\<close>

lemma checked_reached:
  assumes "race_reach racy 1 (agent_at t g {} None (Writing f bytes M))"
  shows "race_reach racy 1 (agent_at t f M (Some (remembered_entry f bytes)) (Seen (key_of_file f) (sum_of (fdata f))))"
proof -
  let ?e = "remembered_entry f bytes"
  have "race_reach racy 1 (agent_at t f M None (Placed (sum_of bytes)))"
    by (rule race_reach.moves [OF assms]) (use race_step.publishes [of "agent_at t g {} None (Writing f bytes M)"] in \<open>simp add: agent_at_def\<close>)
  then have "race_reach racy 1 (agent_at t f M (Some ?e) Idle)"
    by (rule race_reach.moves)
      (use race_step.remembers [of "agent_at t f M None (Placed (sum_of bytes))"] in \<open>simp add: agent_at_def remembered_entry_def\<close>)
  then show ?thesis
    by (rule race_reach.moves) (use race_step.stats [of "agent_at t f M (Some ?e) Idle"] in \<open>simp add: agent_at_def\<close>)
qed

text \<open>The exception is real, and wider than a tick: a file rewritten at the same size at any time between its last write
  in the temporary directory and \<^verbatim>\<open>remember\<close> is believed to hold what was extracted.\<close>

lemma rewritten_before_remembered:
  assumes "length other = length bytes" "sum_of other \<noteq> sum_of bytes" "0 \<le> t"
  shows "\<exists>s k d e. race_reach racy_window 1 s \<and> rc_time s = t \<and> rc_phase s = Seen k d \<and> rc_entry s = Some e \<and>
    trusted racy_window e k \<and> edigest e = sum_of bytes \<and> d = sum_of other"
proof -
  let ?f = "stamped bytes 0" and ?g = "stamped other t" and ?o = "stamped [] 0"
  have "race_reach racy_window 1 (agent_at t ?o {} None (Writing ?f bytes {}))"
    by (rule race_reach.moves [OF written_reached])
      (use race_step.passes [of "agent_at 0 ?o {} None (Writing ?f bytes {})" t] assms(3) in \<open>simp add: agent_at_def\<close>)
  then have "race_reach racy_window 1 (agent_at t ?o {} None (Writing ?g bytes {t}))"
    by (rule race_reach.moves)
      (use race_step.touches [of "agent_at t ?o {} None (Writing ?f bytes {})" ?f bytes "{}" ?g] in \<open>simp add: agent_at_def\<close>)
  from checked_reached [OF this] show ?thesis
    by (intro exI conjI) (auto simp: remembered_entry_def trusted_def)
qed

subsection \<open>Property\<close>



end
