(* ===== verification/TempLock.thy ===== *)
theory TempLock
  imports Store
begin

section \<open>Writers and sweepers at the same time\<close>

text \<open>
  \<^verbatim>\<open>createTemporary\<close>, \<^verbatim>\<open>lockTemporary\<close> and \<^verbatim>\<open>removeTemporary\<close> of several processes,
  system call by system call: the agent and any number of commands extract into temporary directories
  of one cache path while others sweep it. A directory is named by a number, and
  \<^verbatim>\<open>MkdirTemp\<close> draws one that was never used. \<^verbatim>\<open>flock\<close> gives a lock to one open
  file at a time and the kernel takes it back when the file is closed or the process dies. \<open>Store\<close>
  has the same functions as programs of one process.
\<close>

datatype proc =
    Resting
  | Making nat
  | Made nat nat
  | OpenedNew nat nat
  | LockedNew nat nat
  | Writing nat
  | Published nat
  | Abandoned nat
  | GaveUp
  | SweepOpened nat
  | SweepLocked nat
  | SweepRemoved nat

record shared =
  sh_exists :: "nat set"
  sh_used :: "nat set"
  sh_lock :: "nat \<Rightarrow> nat option"
  sh_proc :: "nat \<Rightarrow> proc"

definition become :: "nat \<Rightarrow> proc \<Rightarrow> shared \<Rightarrow> shared" where
  "become p x s = s\<lparr>sh_proc := (sh_proc s)(p := x)\<rparr>"

definition lock_dir :: "nat \<Rightarrow> nat \<Rightarrow> shared \<Rightarrow> shared" where
  "lock_dir p d s = s\<lparr>sh_lock := (sh_lock s)(d := Some p)\<rparr>"

definition unlock_dir :: "nat \<Rightarrow> shared \<Rightarrow> shared" where
  "unlock_dir d s = s\<lparr>sh_lock := (sh_lock s)(d := None)\<rparr>"

definition drop_dir :: "nat \<Rightarrow> shared \<Rightarrow> shared" where
  "drop_dir d s = s\<lparr>sh_exists := sh_exists s - {d}\<rparr>"

definition make_dir :: "nat \<Rightarrow> shared \<Rightarrow> shared" where
  "make_dir d s = s\<lparr>sh_exists := insert d (sh_exists s), sh_used := insert d (sh_used s)\<rparr>"

definition release_all :: "nat \<Rightarrow> shared \<Rightarrow> shared" where
  "release_all p s = s\<lparr>sh_lock := (\<lambda>d. if sh_lock s d = Some p then None else sh_lock s d)\<rparr>"

text \<open>The steps of the process \<open>p\<close>. The number in a phase of a creation is how many tries are left. The
  rules at the end are the failures: of a call other than for a missing directory, and of the process.\<close>

inductive tl_step :: "nat \<Rightarrow> shared \<Rightarrow> shared \<Rightarrow> bool" for p where
  begin_create: "sh_proc s p = Resting \<Longrightarrow> tl_step p s (become p (Making temporary_tries) s)"
| mkdir_new: "sh_proc s p = Making (Suc k) \<Longrightarrow> d \<notin> sh_used s \<Longrightarrow> tl_step p s (become p (Made k d) (make_dir d s))"
| give_up: "sh_proc s p = Making 0 \<Longrightarrow> tl_step p s (become p GaveUp s)"
| open_new: "sh_proc s p = Made k d \<Longrightarrow> d \<in> sh_exists s \<Longrightarrow> tl_step p s (become p (OpenedNew k d) s)"
| open_lost: "sh_proc s p = Made k d \<Longrightarrow> d \<notin> sh_exists s \<Longrightarrow> tl_step p s (become p (Making k) s)"
| flock_new: "sh_proc s p = OpenedNew k d \<Longrightarrow> sh_lock s d = None \<Longrightarrow> tl_step p s (become p (LockedNew k d) (lock_dir p d s))"
| stat_there: "sh_proc s p = LockedNew k d \<Longrightarrow> d \<in> sh_exists s \<Longrightarrow> tl_step p s (become p (Writing d) s)"
| stat_lost: "sh_proc s p = LockedNew k d \<Longrightarrow> d \<notin> sh_exists s \<Longrightarrow> tl_step p s (become p (Making k) (unlock_dir d s))"
| rename_away: "sh_proc s p = Writing d \<Longrightarrow> tl_step p s (become p (Published d) (drop_dir d s))"
| close_published: "sh_proc s p = Published d \<Longrightarrow> tl_step p s (become p Resting (unlock_dir d s))"
| close_failed: "sh_proc s p = Writing d \<Longrightarrow> tl_step p s (become p (Abandoned d) (unlock_dir d s))"
| remove_failed: "sh_proc s p = Abandoned d \<Longrightarrow> tl_step p s (become p Resting (drop_dir d s))"
| sweep_open: "sh_proc s p = Resting \<Longrightarrow> d \<in> sh_exists s \<Longrightarrow> tl_step p s (become p (SweepOpened d) s)"
| sweep_lock: "sh_proc s p = SweepOpened d \<Longrightarrow> sh_lock s d = None \<Longrightarrow> tl_step p s (become p (SweepLocked d) (lock_dir p d s))"
| sweep_busy: "sh_proc s p = SweepOpened d \<Longrightarrow> sh_lock s d \<noteq> None \<Longrightarrow> tl_step p s (become p Resting s)"
| sweep_remove: "sh_proc s p = SweepLocked d \<Longrightarrow> tl_step p s (become p (SweepRemoved d) (drop_dir d s))"
| sweep_close: "sh_proc s p = SweepRemoved d \<Longrightarrow> tl_step p s (become p Resting (unlock_dir d s))"
| mkdir_fails: "sh_proc s p = Making (Suc k) \<Longrightarrow> tl_step p s (become p Resting s)"
| open_fails: "sh_proc s p = Made k d \<Longrightarrow> tl_step p s (become p (Abandoned d) s)"
| flock_fails: "sh_proc s p = OpenedNew k d \<Longrightarrow> tl_step p s (become p (Abandoned d) s)"
| stat_fails: "sh_proc s p = LockedNew k d \<Longrightarrow> tl_step p s (become p (Abandoned d) (unlock_dir d s))"
| remove_all_fails: "sh_proc s p = Abandoned d \<Longrightarrow> tl_step p s (become p Resting s)"
| sweep_fails: "sh_proc s p = SweepOpened d \<Longrightarrow> tl_step p s (become p Resting s)"
| sweep_remove_fails: "sh_proc s p = SweepLocked d \<Longrightarrow> tl_step p s (become p (SweepRemoved d) s)"
| dies: "tl_step p s (become p Resting (release_all p s))"

definition tl_init :: "shared \<Rightarrow> bool" where
  "tl_init s \<longleftrightarrow> sh_exists s \<subseteq> sh_used s \<and> (\<forall>d. sh_lock s d = None) \<and> (\<forall>p. sh_proc s p = Resting)"

inductive tl_reach :: "shared \<Rightarrow> bool" where
  tl_start: "tl_init s \<Longrightarrow> tl_reach s"
| tl_move: "tl_reach s \<Longrightarrow> tl_step p s t \<Longrightarrow> tl_reach t"

subsection \<open>Who holds what\<close>

text \<open>The directory a process created and still answers for, and the lock it holds.\<close>

fun created :: "proc \<Rightarrow> nat option" where
  "created (Made k d) = Some d" | "created (OpenedNew k d) = Some d" | "created (LockedNew k d) = Some d"
| "created (Writing d) = Some d" | "created (Published d) = Some d" | "created (Abandoned d) = Some d" | "created _ = None"

fun holding :: "proc \<Rightarrow> nat option" where
  "holding (LockedNew k d) = Some d" | "holding (Writing d) = Some d" | "holding (Published d) = Some d"
| "holding (SweepLocked d) = Some d" | "holding (SweepRemoved d) = Some d" | "holding _ = None"

definition locks_ok :: "(nat \<Rightarrow> nat option) \<Rightarrow> (nat \<Rightarrow> proc) \<Rightarrow> bool" where
  "locks_ok lk pr \<longleftrightarrow> (\<forall>d p. lk d = Some p \<longleftrightarrow> holding (pr p) = Some d)"

definition created_ok :: "nat set \<Rightarrow> (nat \<Rightarrow> proc) \<Rightarrow> bool" where
  "created_ok used pr \<longleftrightarrow> (\<forall>p d. created (pr p) = Some d \<longrightarrow> d \<in> used \<and> (\<forall>q. created (pr q) = Some d \<longrightarrow> q = p))"

definition writing_ok :: "nat set \<Rightarrow> (nat \<Rightarrow> proc) \<Rightarrow> bool" where
  "writing_ok ex pr \<longleftrightarrow> (\<forall>p d. pr p = Writing d \<longrightarrow> d \<in> ex)"

definition tl_inv :: "shared \<Rightarrow> bool" where
  "tl_inv s \<longleftrightarrow> sh_exists s \<subseteq> sh_used s \<and> locks_ok (sh_lock s) (sh_proc s) \<and> created_ok (sh_used s) (sh_proc s)
     \<and> writing_ok (sh_exists s) (sh_proc s)"

text \<open>How each part survives a step of one process.\<close>

lemma locks_same: "locks_ok lk pr \<Longrightarrow> holding y = holding (pr p) \<Longrightarrow> locks_ok lk (pr(p := y))"
  by (simp add: locks_ok_def)

lemma locks_take: "locks_ok lk pr \<Longrightarrow> lk d = None \<Longrightarrow> holding (pr p) = None \<Longrightarrow> holding y = Some d \<Longrightarrow> locks_ok (lk(d \<mapsto> p)) (pr(p := y))"
  unfolding locks_ok_def by (simp add: fun_upd_def) (metis option.distinct(1))

lemma locks_give: "locks_ok lk pr \<Longrightarrow> holding (pr p) = Some d \<Longrightarrow> holding y = None \<Longrightarrow> locks_ok (lk(d := None)) (pr(p := y))"
  unfolding locks_ok_def by (simp add: fun_upd_def) (metis option.inject)

lemma locks_die: "locks_ok lk pr \<Longrightarrow> holding y = None \<Longrightarrow> locks_ok (\<lambda>d. if lk d = Some p then None else lk d) (pr(p := y))"
  unfolding locks_ok_def by simp (metis option.inject)

lemma created_same: "created_ok used pr \<Longrightarrow> created y = created (pr p) \<or> created y = None \<Longrightarrow> created_ok used (pr(p := y))"
  unfolding created_ok_def by simp (metis option.distinct(1))

lemma created_new: "created_ok used pr \<Longrightarrow> d \<notin> used \<Longrightarrow> created y = Some d \<Longrightarrow> created_ok (insert d used) (pr(p := y))"
  unfolding created_ok_def by (simp add: fun_upd_def) metis

lemma writing_same: "writing_ok ex pr \<Longrightarrow> \<forall>d. y = Writing d \<longrightarrow> d \<in> ex \<Longrightarrow> writing_ok ex (pr(p := y))"
  by (simp add: writing_ok_def)

lemma writing_more: "writing_ok ex pr \<Longrightarrow> writing_ok (insert d ex) pr"
  by (auto simp: writing_ok_def)

lemma writing_drop: "writing_ok ex pr \<Longrightarrow> \<forall>q. q \<noteq> p \<longrightarrow> pr q \<noteq> Writing d \<Longrightarrow> \<forall>d. y \<noteq> Writing d \<Longrightarrow> writing_ok (ex - {d}) (pr(p := y))"
  by (auto simp: writing_ok_def)

lemmas parts_kept = locks_same locks_take locks_give locks_die created_same created_new writing_same

lemma only_writer:
  assumes "tl_inv s" "holding (sh_proc s p) = Some d \<or> created (sh_proc s p) = Some d"
  shows "\<forall>q. q \<noteq> p \<longrightarrow> sh_proc s q \<noteq> Writing d"
proof (intro allI impI notI)
  fix q assume q: "q \<noteq> p" "sh_proc s q = Writing d"
  then have "holding (sh_proc s q) = Some d" "created (sh_proc s q) = Some d" by simp_all
  with assms q(1) show False unfolding tl_inv_def locks_ok_def created_ok_def by (metis option.inject)
qed

lemma tl_inv_drop:
  assumes "tl_inv s" "holding (sh_proc s p) = Some d \<or> created (sh_proc s p) = Some d" "\<forall>d. y \<noteq> Writing d"
  shows "writing_ok (sh_exists s - {d}) ((sh_proc s)(p := y))"
  using writing_drop [OF _ only_writer [OF assms(1,2)] assms(3)] assms(1) by (simp add: tl_inv_def)

lemmas shared_ops = become_def lock_dir_def unlock_dir_def drop_dir_def make_dir_def release_all_def

lemma tl_step_inv: "tl_step p s t \<Longrightarrow> tl_inv s \<Longrightarrow> tl_inv t"
proof (induction rule: tl_step.induct)
  case (rename_away s d)
  then show ?case using tl_inv_drop [OF rename_away(2), of p d "Published d"] by (auto simp: tl_inv_def shared_ops intro: parts_kept)
next
  case (remove_failed s d)
  then show ?case using tl_inv_drop [OF remove_failed(2), of p d Resting] by (auto simp: tl_inv_def shared_ops intro: parts_kept)
next
  case (sweep_remove s d)
  then show ?case using tl_inv_drop [OF sweep_remove(2), of p d "SweepRemoved d"] by (auto simp: tl_inv_def shared_ops intro: parts_kept)
next
  case (mkdir_new s k d)
  then show ?case by (auto simp: tl_inv_def shared_ops intro!: locks_same created_new writing_same writing_more)
qed (auto simp: tl_inv_def shared_ops intro: parts_kept)

lemma tl_reach_inv: "tl_reach s \<Longrightarrow> tl_inv s"
proof (induction rule: tl_reach.induct)
  case (tl_start s)
  then show ?case by (simp add: tl_init_def tl_inv_def locks_ok_def created_ok_def writing_ok_def)
next
  case (tl_move s p t)
  then show ?case using tl_step_inv by blast
qed

subsection \<open>How long a creation takes\<close>

text \<open>A bound on the steps a creation still has to take itself. It does not count those of the others,
  nor the wait for a lock, in which the process takes no step.\<close>

fun creation_left :: "proc \<Rightarrow> nat" where
  "creation_left (Making k) = 4 * k + 1"
| "creation_left (Made k d) = 4 * k + 4"
| "creation_left (OpenedNew k d) = 4 * k + 3"
| "creation_left (LockedNew k d) = 4 * k + 2"
| "creation_left _ = 0"

fun creating :: "proc \<Rightarrow> bool" where
  "creating (Making k) = True" | "creating (Made k d) = True" | "creating (OpenedNew k d) = True" | "creating (LockedNew k d) = True"
| "creating _ = False"

lemma creation_step: "tl_step p s t \<Longrightarrow> creating (sh_proc s p) \<Longrightarrow> creation_left (sh_proc t p) < creation_left (sh_proc s p)"
  by (induction rule: tl_step.induct) (auto simp: shared_ops elim: creating.elims)

lemma others_step: "tl_step q s t \<Longrightarrow> q \<noteq> p \<Longrightarrow> sh_proc t p = sh_proc s p"
  by (induction rule: tl_step.induct) (auto simp: shared_ops)

text \<open>A run from one state to another in which the process \<open>p\<close>, creating all along, took \<open>n\<close>
  steps.\<close>

inductive creates :: "nat \<Rightarrow> nat \<Rightarrow> shared \<Rightarrow> shared \<Rightarrow> bool" for p where
  none_yet: "creates p 0 s s"
| own_step: "creates p n s t \<Longrightarrow> creating (sh_proc t p) \<Longrightarrow> tl_step p t u \<Longrightarrow> creates p (Suc n) s u"
| other_step: "creates p n s t \<Longrightarrow> q \<noteq> p \<Longrightarrow> tl_step q t u \<Longrightarrow> creates p n s u"

lemma creates_left: "creates p n s t \<Longrightarrow> n + creation_left (sh_proc t p) \<le> creation_left (sh_proc s p)"
proof (induction rule: creates.induct)
  case (own_step n s t u)
  then show ?case using creation_step by fastforce
next
  case (other_step n s t q u)
  then show ?case using others_step by fastforce
qed simp

subsection \<open>Properties\<close>

text \<open>C13: A directory being written is safe. In every interleaving of extractions, sweeps and crashes, the temporary
  directory of an extraction that got its lock exists and is locked by that extraction until it
  renames it away or gives the lock back itself.\<close>

theorem writer_keeps_directory:
  assumes "tl_reach s" "sh_proc s p = Writing d"
  shows "d \<in> sh_exists s \<and> sh_lock s d = Some p \<and> (\<forall>q. sh_proc s q \<noteq> SweepLocked d)"
proof -
  have i: "tl_inv s" by (rule tl_reach_inv [OF assms(1)])
  then have "sh_lock s d = Some p" using assms(2) by (simp add: tl_inv_def locks_ok_def)
  moreover have "sh_proc s q \<noteq> SweepLocked d" for q
    using i assms(2) calculation unfolding tl_inv_def locks_ok_def by (metis holding.simps(4) option.inject proc.distinct)
  ultimately show ?thesis using i assms(2) by (auto simp: tl_inv_def writing_ok_def)
qed

text \<open>Two processes at rest over an empty cache path, and how the first comes to write.\<close>

definition at_rest :: shared where
  "at_rest = \<lparr>sh_exists = {}, sh_used = {}, sh_lock = (\<lambda>_. None), sh_proc = (\<lambda>_. Resting)\<rparr>"

definition first_made :: "proc \<Rightarrow> nat option \<Rightarrow> shared" where
  "first_made x l = \<lparr>sh_exists = {7}, sh_used = {7}, sh_lock = (\<lambda>_. None)(7 := l), sh_proc = (\<lambda>_. Resting)(0 := x)\<rparr>"

lemma first_made_reached: "tl_reach (first_made (Writing 7) (Some 0))"
proof -
  have "tl_reach at_rest" by (rule tl_reach.tl_start) (simp add: tl_init_def at_rest_def)
  then have "tl_reach (become 0 (Making temporary_tries) at_rest)"
    by (rule tl_reach.tl_move) (rule tl_step.begin_create, simp add: at_rest_def)
  then have "tl_reach (become 0 (Made 2 7) (make_dir 7 (become 0 (Making temporary_tries) at_rest)))"
    by (rule tl_reach.tl_move) (rule tl_step.mkdir_new, simp_all add: at_rest_def become_def temporary_tries_def)
  then have "tl_reach (first_made (Made 2 7) None)" by (simp add: shared_ops at_rest_def first_made_def)
  from tl_reach.tl_move [OF this, of 0, OF tl_step.open_new [of _ 0 2 7]] have "tl_reach (first_made (OpenedNew 2 7) None)"
    by (simp add: shared_ops first_made_def)
  from tl_reach.tl_move [OF this, of 0, OF tl_step.flock_new [of _ 0 2 7]] have "tl_reach (first_made (LockedNew 2 7) (Some 0))"
    by (simp add: shared_ops first_made_def)
  from tl_reach.tl_move [OF this, of 0, OF tl_step.stat_there [of _ 0 2 7]] show ?thesis
    by (simp add: shared_ops first_made_def)
qed

theorem writer_keeps_directory_witness:
  "sh_proc (first_made (Writing 7) (Some 0)) 0 = Writing 7 \<and> sh_lock (first_made (Writing 7) (Some 0)) 7 = Some 0"
proof -
  have "sh_proc (first_made (Writing 7) (Some 0)) 0 = Writing 7" by (simp add: first_made_def)
  with writer_keeps_directory [OF first_made_reached this] show ?thesis by simp
qed

text \<open>C15: A creation ends. However often the directories are swept away before they are locked, a process that starts
  to create one takes at most 13 steps of its own before it writes or gives up.\<close>

theorem creation_ends:
  assumes "sh_proc s p = Making temporary_tries" "creates p n s t"
  shows "n \<le> 13 \<and> (n = 13 \<longrightarrow> \<not> creating (sh_proc t p))"
proof -
  have "n + creation_left (sh_proc t p) \<le> 13" using creates_left [OF assms(2)] assms(1) by (simp add: temporary_tries_def)
  moreover have "0 < creation_left x" if "creating x" for x using that by (cases x) auto
  ultimately show ?thesis by fastforce
qed

theorem creation_ends_witness:
  "\<exists>t. creates 0 1 (become 0 (Making temporary_tries) at_rest) t \<and> creating (sh_proc t 0)"
proof -
  let ?s = "become 0 (Making temporary_tries) at_rest"
  let ?t = "become 0 (Made 2 7) (make_dir 7 ?s)"
  have s: "sh_proc ?s 0 = Making temporary_tries" by (simp add: become_def)
  have "tl_step 0 ?s ?t" by (rule tl_step.mkdir_new) (simp_all add: at_rest_def become_def temporary_tries_def)
  then have c: "creates 0 (Suc 0) ?s ?t" by (intro creates.own_step [OF creates.none_yet]) (simp_all add: s)
  from creation_ends [OF s c] have "Suc 0 \<le> 13" by simp
  with c show ?thesis by (intro exI [of _ ?t]) (simp add: become_def)
qed

end
