(* ===== verification/Shelf.thy ===== *)
theory Shelf
  imports Pass
begin

section \<open>The store as a shelf\<close>

text \<open>
  What the store promises its users, without files: a shelf maps the name of a resource to its
  record and the contents of its files, and every operation is an update of that map. The store on
  the tree refines it, operation by operation and for any sequence of them, from any cache path the
  store itself has filled. \<open>simulation\<close> is the interface: what an implementation owes
  its specification, and that runs then agree.
\<close>

subsection \<open>Simulation\<close>

primrec runs :: "('q \<Rightarrow> 'c \<Rightarrow> 'a \<times> 'c) \<Rightarrow> 'q list \<Rightarrow> 'c \<Rightarrow> 'a list \<times> 'c" where
  "runs step [] c = ([], c)"
| "runs step (q # qs) c = (case step q c of (a, d) \<Rightarrow> case runs step qs d of (as, e) \<Rightarrow> (a # as, e))"

locale simulation =
  fixes abstr :: "'c \<Rightarrow> 's" and inv :: "'c \<Rightarrow> bool" and ok :: "'q \<Rightarrow> bool"
    and step :: "'q \<Rightarrow> 'c \<Rightarrow> 'a \<times> 'c" and spec :: "'q \<Rightarrow> 's \<Rightarrow> 'a \<times> 's"
  assumes simulates: "inv c \<Longrightarrow> ok q \<Longrightarrow> step q c = (a, d) \<Longrightarrow> spec q (abstr c) = (a, abstr d)"
    and keeps: "inv c \<Longrightarrow> ok q \<Longrightarrow> step q c = (a, d) \<Longrightarrow> inv d"
begin

lemma runs_simulate:
  "inv c \<Longrightarrow> list_all ok qs \<Longrightarrow> runs step qs c = (as, d) \<Longrightarrow> runs spec qs (abstr c) = (as, abstr d) \<and> inv d"
proof (induction qs arbitrary: c as)
  case (Cons q qs)
  obtain a d1 where s: "step q c = (a, d1)" by (cases "step q c")
  obtain as' where r: "runs step qs d1 = (as', d)" "as = a # as'" using Cons.prems(3) s by (auto split: prod.splits)
  have "runs spec qs (abstr d1) = (as', abstr d) \<and> inv d"
    using Cons.IH [OF keeps [OF _ _ s] _ r(1)] Cons.prems by simp
  moreover have "spec q (abstr c) = (a, abstr d1)" using simulates [OF _ _ s] Cons.prems by simp
  ultimately show ?case using r(2) by simp
qed simp

end

subsection \<open>The specification\<close>

record item =
  it_record :: cache_record
  it_files :: "string \<rightharpoonup> string"

type_synonym shelf = "string \<rightharpoonup> item"

datatype request =
    Extracting string cache_record "tar_entry list" err
  | Adopting string
  | Reading string
  | Collecting "string \<Rightarrow> bool"

datatype answer =
    Done bool
  | Found "cache_record option"
  | Removed "string list" bool

definition image_item :: "cache_record \<Rightarrow> tar_entry list \<Rightarrow> item" where
  "image_item rec ens = \<lparr>it_record = rec\<lparr>rec_content := map file_of (wanted ens)\<rparr>, it_files = map_of (wanted ens)\<rparr>"

text \<open>Adopting changes the owner. A file of the image with the name of the new sentinel's temporary file
  is lost.\<close>

definition adopted_item :: "item \<Rightarrow> item" where
  "adopted_item it = it\<lparr>it_record := (it_record it)\<lparr>rec_owner := owner_agent\<rparr>, it_files := (it_files it)(tmp_sentinel := None)\<rparr>"

definition collected :: "(string \<Rightarrow> bool) \<Rightarrow> shelf \<Rightarrow> string set" where
  "collected keep m = {n. \<not> keep n \<and> (\<exists>it. m n = Some it \<and> rec_owner (it_record it) = owner_agent)}"

fun serve :: "request \<Rightarrow> shelf \<Rightarrow> answer \<times> shelf" where
  "serve (Extracting n rec ens fin) m = (if whole ens fin then (Done True, m(n \<mapsto> image_item rec ens)) else (Done False, m))"
| "serve (Adopting n) m = (case m n of None \<Rightarrow> (Done False, m) | Some it \<Rightarrow> (Done True, m(n \<mapsto> adopted_item it)))"
| "serve (Reading n) m = (Found (map_option it_record (m n)), m)"
| "serve (Collecting keep) m = (Removed (sorted_list_of_set (collected keep m)) True, m |` (- collected keep m))"

subsection \<open>The implementation\<close>

definition to_option :: "'e + 'a \<Rightarrow> 'a option" where
  "to_option r = (case r of Inl e \<Rightarrow> None | Inr x \<Rightarrow> Some x)"

fun perform :: "path \<Rightarrow> request \<Rightarrow> sworld \<Rightarrow> answer \<times> sworld" where
  "perform cp (Extracting n rec ens fin) w = (case run_state (store_extract no_hook cp n rec ens fin) w of (e, w') \<Rightarrow> (Done (e = None), w'))"
| "perform cp (Adopting n) w = (case run_state (adopt cp n) w of (e, w') \<Rightarrow> (Done (e = None), w'))"
| "perform cp (Reading n) w = (case run_state (read_record cp n) w of (r, w') \<Rightarrow> (Found (to_option r), w'))"
| "perform cp (Collecting keep) w = (case run_state (gc cp keep) w of ((removed, e), w') \<Rightarrow> (Removed removed (e = None), w'))"

text \<open>The requests a user may make: a name a resource can have, and texts that JSON keeps.\<close>

definition resource_name :: "string \<Rightarrow> bool" where
  "resource_name n \<longleftrightarrow> plain n \<and> \<not> is_temporary n \<and> n \<noteq> lost_found"

fun request_ok :: "request \<Rightarrow> bool" where
  "request_ok (Extracting n rec ens fin) \<longleftrightarrow> resource_name n \<and> record_valid rec \<and> names_valid ens \<and> sizes_small ens"
| "request_ok (Adopting n) \<longleftrightarrow> resource_name n"
| "request_ok (Reading n) \<longleftrightarrow> resource_name n"
| "request_ok (Collecting keep) \<longleftrightarrow> True"

text \<open>The shelf a tree holds, read off a directory: the record from its sentinel, every other file by its
  content.\<close>

fun content_of :: "node \<Rightarrow> string option" where
  "content_of (Reg g) = Some (fdata g)"
| "content_of _ = None"

definition sentinel_in :: "(string \<times> node) list \<Rightarrow> sentinel option" where
  "sentinel_in es = Option.bind (map_of es sentinel_name) (\<lambda>v. Option.bind (content_of v) unmarshal)"

definition files_of :: "(string \<times> node) list \<Rightarrow> string \<rightharpoonup> string" where
  "files_of es = (\<lambda>f. Option.bind (map_of es f) content_of)(sentinel_name := None)"

fun item_of :: "node \<Rightarrow> item option" where
  "item_of (Dir i es) = map_option (\<lambda>sn. \<lparr>it_record = sn_record sn, it_files = files_of es\<rparr>) (sentinel_in es)"
| "item_of _ = None"

definition shelf_at :: "path \<Rightarrow> node \<Rightarrow> shelf" where
  "shelf_at cp r n = Option.bind (lookup r (cp @ [n])) item_of"

text \<open>The cache paths the store fills: every entry is a directory of regular files with a sentinel that
  can be read.\<close>

fun tidy_node :: "node \<Rightarrow> bool" where
  "tidy_node (Dir i es) \<longleftrightarrow> sentinel_in es \<noteq> None \<and> (\<forall>f v. map_of es f = Some v \<longrightarrow> is_regular v)"
| "tidy_node _ \<longleftrightarrow> False"

definition tidy :: "path \<Rightarrow> node \<Rightarrow> bool" where
  "tidy cp r \<longleftrightarrow> dir_at r cp \<and> clean_path cp \<and> (\<forall>n v. lookup r (cp @ [n]) = Some v \<longrightarrow> resource_name n \<and> tidy_node v)"

definition serviceable :: "path \<Rightarrow> sworld \<Rightarrow> bool" where
  "serviceable cp w \<longleftrightarrow> tidy cp (root w) \<and> calm w"

subsection \<open>One entry of a tidy cache path\<close>

lemma tidy_node_cases:
  assumes "tidy_node v"
  obtains i es g sn where "v = Dir i es" "map_of es sentinel_name = Some (Reg g)" "unmarshal (fdata g) = Some sn"
    "\<forall>f u. map_of es f = Some u \<longrightarrow> is_regular u"
    "sentinel_in es = Some sn"
proof (cases v)
  case (Dir i es)
  with assms obtain sn where s: "sentinel_in es = Some sn" "\<forall>f u. map_of es f = Some u \<longrightarrow> is_regular u" by auto
  then obtain u where "map_of es sentinel_name = Some u" "Option.bind (content_of u) unmarshal = Some sn"
    by (auto simp: sentinel_in_def bind_eq_Some_conv)
  moreover from this obtain g where "u = Reg g" by (cases u) auto
  ultimately show ?thesis using that [OF Dir] s Dir by auto
qed (use assms in auto)

lemma shelf_elsewhere:
  "elsewhere cp {name} r r' \<Longrightarrow> Option.bind (lookup r' (cp @ [name])) item_of = x \<Longrightarrow> shelf_at cp r' = (shelf_at cp r)(name := x)"
  by (auto simp: shelf_at_def elsewhere_def)

lemma tidy_elsewhere:
  assumes "tidy cp r" "elsewhere cp {name} r r'" "lookup r' (cp @ [name]) = Some v" "resource_name name" "tidy_node v"
  shows "tidy cp r'"
  unfolding tidy_def
proof (intro conjI allI impI)
  fix n u assume l: "lookup r' (cp @ [n]) = Some u"
  show "resource_name n" "tidy_node u"
  proof -
    have "resource_name n \<and> tidy_node u" using assms l by (cases "n = name") (auto simp: tidy_def elsewhere_def)
    then show "resource_name n" "tidy_node u" by simp_all
  qed
qed (use assms in \<open>auto simp: tidy_def elsewhere_def\<close>)

lemma store_dir_name: "clean_path cp \<Longrightarrow> resource_name n \<Longrightarrow> store_dir cp n = cp @ [n]"
  by (simp add: store_dir_def join_plain resource_name_def)

lemma elsewhere_up:
  assumes "elsewhere (cp @ [n]) N r r'" "dir_at r (cp @ [n])" "dir_at r' cp"
  shows "elsewhere cp {n} r r'"
  unfolding elsewhere_def
proof (intro conjI allI impI)
  fix c q assume "c \<notin> {n}"
  then have "cp @ [n] \<parallel> cp @ c # q" by (simp add: parallel_def)
  then show "lookup r' (cp @ c # q) = lookup r (cp @ c # q)" using assms(1) by (simp add: elsewhere_def)
next
  fix q assume "cp \<parallel> q"
  then have "cp @ [n] \<parallel> q" by (metis append_Nil2 parallel_appendI)
  then show "lookup r' q = lookup r q" using assms(1) by (simp add: elsewhere_def)
qed (use assms in simp)

lemma sentinel_read:
  assumes t: "tidy cp r" and n: "resource_name n"
  shows "case shelf_at cp r n of None \<Rightarrow> \<exists>e. read_in r (join (store_dir cp n) sentinel_name) = Inl e
    | Some it \<Rightarrow> \<exists>d sn. read_in r (join (store_dir cp n) sentinel_name) = Inr d \<and> unmarshal d = Some sn \<and> it_record it = sn_record sn"
proof -
  have d: "dir_at r cp" "clean_path cp" "plain n" using t n by (auto simp: tidy_def resource_name_def)
  have j: "join (store_dir cp n) sentinel_name = cp @ [n, sentinel_name]"
    using d n by (simp add: store_dir_name join_in)
  show ?thesis
  proof (cases "lookup r (cp @ [n])")
    case None
    then show ?thesis
      using resolve_below_absent [OF d None] by (simp add: j shelf_at_def read_in_def stat_in_def node_at_def lift_errno_def)
  next
    case (Some v)
    then have "tidy_node v" using t by (simp add: tidy_def)
    then obtain i es g sn where v: "v = Dir i es" "map_of es sentinel_name = Some (Reg g)" "unmarshal (fdata g) = Some sn"
      "sentinel_in es = Some sn" by (rule tidy_node_cases)
    have "map_of (entries_at r cp) n = Some (Dir i es)" using Some v(1) d(1) by (simp add: lookup_entry)
    from stat_in_dir [OF d plain_sentinel_name this v(2)] show ?thesis
      using Some v by (simp add: j shelf_at_def read_in_def)
  qed
qed

subsection \<open>Each operation\<close>

lemma published_item:
  assumes p: "published rec ens es" and a: "acceptable ens fin" and v: "record_valid rec" "names_valid ens" "sizes_small ens"
  shows "item_of (Dir i es) = Some (image_item rec ens)" "tidy_node (Dir i es)"
proof -
  let ?sn = "sentinel_for rec (map file_of (wanted ens))"
  obtain g where g: "map_of es sentinel_name = Some (Reg g)" "fdata g = marshal ?sn"
    using published_sentinel [OF p a] by blast
  have s: "sanitize b = b" if "(b, d) \<in> set (wanted ens)" for b d
    using v(2) that by (auto simp: names_valid_def list_all_iff sanitize_valid)
  have "map sanitize (map fr_name (map file_of (wanted ens))) = map fr_name (map file_of (wanted ens))"
    using s by (auto simp: file_of_def)
  then have san: "sanitize_sentinel ?sn = ?sn"
    using image_record [OF v(2,1)] by (simp add: sanitize_sentinel_def sentinel_for_def)
  then have sn: "sentinel_in es = Some ?sn" using g image_sentinel [OF v(3), of rec] by (simp add: sentinel_in_def)
  have files: "files_of es b = map_of (wanted ens) b" for b
  proof (cases "map_of (wanted ens) b")
    case None
    then have "b \<noteq> sentinel_name \<Longrightarrow> map_of es b = None" using published_only [OF p, of b] by (auto simp: map_of_eq_None_iff)
    with None show ?thesis by (cases "b = sentinel_name") (simp_all add: files_of_def)
  next
    case (Some d)
    then have b: "(b, d) \<in> set (wanted ens)" by (rule map_of_SomeD)
    then have "b \<noteq> sentinel_name" using acceptable_names [OF a] by force
    with published_file [OF p a b] Some show ?thesis by (auto simp: files_of_def)
  qed
  then show "item_of (Dir i es) = Some (image_item rec ens)"
    using sn by (simp add: image_item_def sentinel_for_def fun_eq_iff)
  have "is_regular u" if "map_of es f = Some u" for f u using published_regular [OF p that] .
  then show "tidy_node (Dir i es)" using sn by simp
qed

lemma extract_simulates:
  assumes t: "tidy cp (root w)" and c: "calm w" and q: "request_ok (Extracting n rec ens fin)"
    and run: "run_state (store_extract no_hook cp n rec ens fin) w = (e, w')"
  shows "serve (Extracting n rec ens fin) (shelf_at cp (root w)) = (Done (e = None), shelf_at cp (root w')) \<and> tidy cp (root w') \<and> calm w'"
proof -
  have d: "dir_at (root w) cp" "clean_path cp" "plain n" "resource_name n" using t q by (auto simp: tidy_def resource_name_def)
  have fresh: "map_of (entries_at (root w) cp) (temp_name n k) = None" for k
    using t d(1) temp_name_temporary [of n k] unfolding tidy_def resource_name_def by (metis lookup_entry not_None_eq)
  have m: "direct (lookup (root w) (cp @ [n])) \<and> may_replace (lookup (root w) (cp @ [n])) (rec_owner rec)"
  proof (cases "lookup (root w) (cp @ [n])")
    case (Some v)
    then have "tidy_node v" using t by (simp add: tidy_def)
    then show ?thesis using Some by (auto simp: direct_def may_replace_def elim!: tidy_node_cases)
  qed (simp add: direct_def may_replace_def)
  note x = wpD [OF extract_spec [OF d(1-3) calm_honest [OF c]] run]
  have c': "calm w'" using x c same_env_calm by (auto simp: no_hook_def)
  show ?thesis
  proof (cases e)
    case None
    then have h: "whole ens fin" "holds_image (root w') cp n rec ens" "elsewhere cp {n} (root w) (root w')"
      using x by (auto simp: no_hook_def)
    then obtain i es where es: "lookup (root w') (cp @ [n]) = Some (Dir i es)" "published rec ens es"
      by (auto simp: holds_image_def lookup_entry)
    have p: "item_of (Dir i es) = Some (image_item rec ens)" "tidy_node (Dir i es)"
      using published_item [OF es(2)] h(1) q by (auto simp: whole_def)
    have "shelf_at cp (root w') = (shelf_at cp (root w))(n \<mapsto> image_item rec ens)"
      by (rule shelf_elsewhere [OF h(3)]) (simp add: es(1) p(1) del: item_of.simps)
    with None h(1) c' tidy_elsewhere [OF t h(3) es(1) d(4) p(2)] show ?thesis by simp
  next
    case (Some er)
    then have "root w' = root w" "\<not> whole ens fin" using x c m fresh by (auto simp: fresh_draws_def no_hook_def)
    with Some t c' show ?thesis by simp
  qed
qed

lemma adopt_simulates:
  assumes t: "tidy cp (root w)" and c: "calm w" and n: "resource_name n" and run: "run_state (adopt cp n) w = (e, w')"
  shows "serve (Adopting n) (shelf_at cp (root w)) = (Done (e = None), shelf_at cp (root w')) \<and> tidy cp (root w') \<and> calm w'"
proof (cases "lookup (root w) (cp @ [n])")
  case None
  then have m: "shelf_at cp (root w) n = None" by (simp add: shelf_at_def)
  then obtain x where "read_in (root w) (join (store_dir cp n) sentinel_name) = Inl x" using sentinel_read [OF t n] by auto
  then have "wp (adopt cp n) (\<lambda>e w'. e \<noteq> None \<and> w' = tock w) w"
    using c by (simp add: adopt_def read_sentinel_def wp_rules wp_read_file calm_def)
  from wpD [OF this run] m t c show ?thesis by (simp add: calm_def)
next
  case (Some v)
  have d: "dir_at (root w) cp" "clean_path cp" "plain n" "store_dir cp n = cp @ [n]"
    using t n by (auto simp: tidy_def resource_name_def store_dir_name)
  have "tidy_node v" using t Some by (simp add: tidy_def)
  then obtain i es g sn where v: "v = Dir i es" "map_of es sentinel_name = Some (Reg g)" "unmarshal (fdata g) = Some sn"
    "\<forall>f u. map_of es f = Some u \<longrightarrow> is_regular u" "sentinel_in es = Some sn" by (rule tidy_node_cases)
  let ?sn = "set_owner owner_agent sn"
  have dn: "dir_at (root w) (cp @ [n])" "entries_at (root w) (cp @ [n]) = es" using Some v(1) by (simp_all add: dir_at_def entries_at_def)
  have a: "adoptable (root w) (store_dir cp n) g"
    using d dn v(2,4) by (auto simp: adoptable_def split: option.split)
  obtain g' where g': "e = None" "quiet w w'" "fdata g' = marshal ?sn"
    and r: "root w' = with_entries (root w) (cp @ [n]) (upd sentinel_name (Some (Reg g')) (upd tmp_sentinel None es))"
    using wpD [OF adopt_in [OF a v(3)] run] calm_faultless [OF c] by (cases e) (auto simp: d(4) dn(2) simp del: upd_simps)
  let ?es = "upd sentinel_name (Some (Reg g')) (upd tmp_sentinel None es)"
  have l: "lookup (root w') (cp @ [n]) = Some (Dir i ?es)"
    unfolding r using Some v(1) by (simp add: with_entries_def lookup_put_self del: upd_simps)
  have "dir_at (root w') cp" using l by (intro dir_at_prefix [of _ cp "[n]"]) (simp add: dir_at_def)
  moreover have "elsewhere (cp @ [n]) UNIV (root w) (root w')" unfolding r by (rule elsewhere_with_entries [OF dn(1)]) simp
  ultimately have ew: "elsewhere cp {n} (root w) (root w')" by (intro elsewhere_up [OF _ dn(1)])
  have "unmarshal (marshal ?sn) = Some ?sn" by (rule unmarshal_set_owner [OF v(3) seeded_ascii(3)])
  then have sn: "sentinel_in ?es = Some ?sn" using g'(3) by (simp add: sentinel_in_def)
  have f: "files_of ?es = (files_of es)(tmp_sentinel := None)" by (rule ext) (simp add: files_of_def)
  have it: "item_of (Dir i ?es) = Some (adopted_item \<lparr>it_record = sn_record sn, it_files = files_of es\<rparr>)"
    using sn f by (simp add: adopted_item_def set_owner_def del: upd_simps)
  have "tidy_node (Dir i ?es)" using sn v(4) by (auto simp del: upd_simps simp: map_of_upd split: if_splits)
  from tidy_elsewhere [OF t ew l n this] shelf_elsewhere [OF ew, of "item_of (Dir i ?es)"] l it Some v(1,5) g'(1,2) c
  show ?thesis by (auto simp: shelf_at_def quiet_def same_env_calm simp del: upd_simps)
qed

lemma read_simulates:
  assumes t: "tidy cp (root w)" and c: "calm w" and n: "resource_name n" and run: "run_state (read_record cp n) w = (r, w')"
  shows "serve (Reading n) (shelf_at cp (root w)) = (Found (to_option r), shelf_at cp (root w')) \<and> tidy cp (root w') \<and> calm w'"
proof -
  have "wp (read_record cp n) (\<lambda>r w'. to_option r = map_option it_record (shelf_at cp (root w) n) \<and> w' = tock w) w"
    using sentinel_read [OF t n] c
    by (auto simp: read_record_def read_sentinel_def wp_rules wp_read_file calm_def to_option_def split: option.splits)
  from wpD [OF this run] t c show ?thesis by (simp add: calm_def)
qed

lemma tidy_survives:
  assumes "resource_name n" "tidy_node v"
  shows "survives lk keep n v \<longleftrightarrow> \<not> (\<not> keep n \<and> (\<exists>it. item_of v = Some it \<and> rec_owner (it_record it) = owner_agent))"
    "\<not> unreadable keep n v"
  using assms(2,1) by (auto elim!: tidy_node_cases simp: survives_def unreadable_def named_def resource_name_def dir_seeded_def)

lemma gc_simulates:
  assumes t: "tidy cp (root w)" and c: "calm w" and run: "run_state (gc cp keep) w = ((removed, e), w')"
  shows "serve (Collecting keep) (shelf_at cp (root w)) = (Removed removed (e = None), shelf_at cp (root w')) \<and> tidy cp (root w') \<and> calm w'"
proof -
  let ?C = "collected keep (shelf_at cp (root w))"
  have d: "dir_at (root w) cp" "clean_path cp" using t by (auto simp: tidy_def)
  have entry: "resource_name n \<and> tidy_node v" if "map_of (entries_at (root w) cp) n = Some v" for n v
    using t that d(1) by (simp add: tidy_def lookup_entry)
  have o: "orderly (root w) cp"
    using entry d unfolding orderly_iff by (force simp: own_sentinel_def resource_name_def elim!: tidy_node_cases)
  have ks: "survives (locks w) keep n v = (n \<notin> ?C)" if "lookup (root w) (cp @ [n]) = Some v" for n v
    using tidy_survives(1) entry that d(1) by (simp add: collected_def shelf_at_def lookup_entry)
  have there: "n \<in> set (names (entries_at (root w) cp)) \<longleftrightarrow> (\<exists>v. lookup (root w) (cp @ [n]) = Some v)" for n
    using d(1) by (simp add: lookup_entry map_of_eq_None_iff flip: not_None_eq)
  have C: "\<exists>v. lookup (root w) (cp @ [n]) = Some v" if "n \<in> ?C" for n
    using that by (auto simp: collected_def shelf_at_def bind_eq_Some_conv)
  note x = gc_removes [OF o calm_faultless [OF c] run]
  have lk: "lookup (root w') (cp @ [n]) = (if n \<in> set removed then None else lookup (root w) (cp @ [n]))" for n using x by blast
  have rm: "removed = filter (\<lambda>n. n \<in> ?C) (names (entries_at (root w) cp))"
    unfolding x [THEN conjunct1] by (rule filter_cong) (use there ks in auto)
  have "set removed = ?C" unfolding rm set_filter using there C by blast
  moreover have "sorted removed" "distinct removed" unfolding rm by (simp_all add: names_def sorted_filter [of id, simplified])
  ultimately have sl: "removed = sorted_list_of_set ?C" by (metis sorted_list_of_set.idem_if_sorted_distinct)
  have "shelf_at cp (root w') = shelf_at cp (root w) |` (- ?C)"
    by (rule ext) (simp add: shelf_at_def lk \<open>set removed = ?C\<close> restrict_map_def)
  moreover have "tidy cp (root w')" using t x lk unfolding tidy_def elsewhere_def by (auto split: if_splits)
  moreover have "e = None" using x tidy_survives(2) t unfolding tidy_def by blast
  moreover have "calm w'" using wpD [OF gc_in [OF o calm_honest [OF c]] run] c by (auto simp: same_env_calm)
  ultimately show ?thesis using sl by simp
qed

interpretation stored_shelf: simulation "\<lambda>w. shelf_at cp (root w)" "serviceable cp" request_ok "perform cp" serve for cp
proof unfold_locales
  fix w q a w' assume i: "serviceable cp w" and q: "request_ok q" and p: "perform cp q w = (a, w')"
  have "serve q (shelf_at cp (root w)) = (a, shelf_at cp (root w')) \<and> tidy cp (root w') \<and> calm w'"
  proof (cases q)
    case (Extracting n rec ens fin)
    with p obtain e where "run_state (store_extract no_hook cp n rec ens fin) w = (e, w')" "a = Done (e = None)"
      by (auto split: prod.splits)
    with extract_simulates [of cp w n rec ens fin e w'] i q Extracting show ?thesis by (simp add: serviceable_def del: serve.simps)
  next
    case (Adopting n)
    with p obtain e where "run_state (adopt cp n) w = (e, w')" "a = Done (e = None)"
      by (auto split: prod.splits)
    with adopt_simulates [of cp w n] i q Adopting show ?thesis by (simp add: serviceable_def del: serve.simps)
  next
    case (Reading n)
    with p obtain r where "run_state (read_record cp n) w = (r, w')" "a = Found (to_option r)"
      by (auto split: prod.splits)
    with read_simulates [of cp w n] i q Reading show ?thesis by (simp add: serviceable_def del: serve.simps)
  next
    case (Collecting keep)
    with p obtain removed e where "run_state (gc cp keep) w = ((removed, e), w')" "a = Removed removed (e = None)"
      by (auto split: prod.splits)
    with gc_simulates [of cp w keep] i Collecting show ?thesis by (simp add: serviceable_def del: serve.simps)
  qed
  then show "serve q (shelf_at cp (root w)) = (a, shelf_at cp (root w'))" "serviceable cp w'" by (simp_all add: serviceable_def)
qed

subsection \<open>Refinement\<close>

text \<open>C9: The store refines the shelf. From a cache path the store filled, and with no failing call, any sequence of
  extractions, adoptions, readings of records and collections answers as the map of names to images
  does, and leaves the tree that represents the map after it. An archive is put on the shelf whole or
  not at all; a collection takes off what nothing keeps and the agent owns.\<close>

theorem store_refines_shelf:
  assumes "serviceable cp w" "list_all request_ok qs" "runs (perform cp) qs w = (as, w')"
  shows "runs serve qs (shelf_at cp (root w)) = (as, shelf_at cp (root w')) \<and> serviceable cp w'"
  by (rule stored_shelf.runs_simulate [OF assms])

theorem store_refines_shelf_witness:
  "fst (runs (perform [''cache'']) [Extracting ''boot'' agent_record [tar_file ''images/a.tar'' ''abc''] Eof, Reading ''boot'',
      Collecting (\<lambda>_. False), Adopting ''boot''] (cache_world [] None))
   = [Done True, Found (Some (agent_record\<lparr>rec_content := [file_of (''a.tar'', ''abc'')]\<rparr>)), Removed [''boot''] True, Done False]"
proof -
  define ens where "ens = [tar_file ''images/a.tar'' ''abc'']"
  let ?qs = "[Extracting ''boot'' agent_record ens Eof, Reading ''boot'', Collecting (\<lambda>_. False), Adopting ''boot'']"
  obtain as w' where run: "runs (perform [''cache'']) ?qs (cache_world [] None) = (as, w')"
    by (cases "runs (perform [''cache'']) ?qs (cache_world [] None)")
  have ok: "list_all request_ok ?qs"
    using sample_valid unfolding ens_def
    by (simp add: resource_name_def plain_def is_temporary_def lost_found_def record_valid_def agent_record_def seeded_ascii)
  have s: "serviceable [''cache''] (cache_world [] None)" by (simp add: serviceable_def tidy_def plain_def)
  have m: "shelf_at [''cache''] (root (cache_world [] None)) = Map.empty" by (rule ext) (simp add: shelf_at_def)
  have w: "whole ens Eof" "it_record (image_item agent_record ens) = agent_record\<lparr>rec_content := [file_of (''a.tar'', ''abc'')]\<rparr>"
    using whole_sample
    by (simp_all add: ens_def image_item_def wanted_def skipped_def tar_file_def flag_defs sentinel_name_def base_def strip_slashes_def Let_def)
  have c: "collected (\<lambda>_. False) [''boot'' \<mapsto> image_item agent_record ens] = {''boot''}"
    by (auto simp: collected_def image_item_def agent_record_def)
  have "runs serve ?qs Map.empty = (as, shelf_at [''cache''] (root w'))" using store_refines_shelf [OF s ok run] m by simp
  then have "as = [Done True, Found (Some (agent_record\<lparr>rec_content := [file_of (''a.tar'', ''abc'')]\<rparr>)), Removed [''boot''] True, Done False]"
    by (simp add: w c)
  then show ?thesis using run by (simp add: ens_def del: runs.simps)
qed

subsection \<open>What can be on a shelf\<close>

text \<open>Proved of the specification and read back on the tree: what the files of the cache path say when the
  store alone wrote it. A digest is \<^verbatim>\<open>sha256:\<close> and 64 lower-case hexadecimal digits; a size
  is an \<^verbatim>\<open>int64\<close>; a name is one component of a path; and the digest and the size of every file
  are those of its content.\<close>

definition hex_string :: "string \<Rightarrow> bool" where
  "hex_string s = list_all (\<lambda>c. c \<in> set ''0123456789abcdef'') s"

definition well_typed_file :: "file_rec \<Rightarrow> bool" where
  "well_typed_file f \<longleftrightarrow> plain (fr_name f) \<and> fr_name f \<noteq> sentinel_name \<and> 0 \<le> fr_size f \<and> int64 (fr_size f)
     \<and> length (fr_digest f) = 71 \<and> has_prefix (fr_digest f) digest_prefix \<and> hex_string (drop 7 (fr_digest f))"

definition well_typed_item :: "item \<Rightarrow> bool" where
  "well_typed_item it \<longleftrightarrow> distinct (map fr_name (rec_content (it_record it))) \<and> list_all well_typed_file (rec_content (it_record it))
     \<and> (\<forall>b d. it_files it b = Some d \<longrightarrow> file_of (b, d) \<in> set (rec_content (it_record it)))"

lemma hex_digit_range: "n < 16 \<Longrightarrow> hex_digit n \<in> set ''0123456789abcdef''"
proof -
  have "\<forall>k \<in> set [0..<16]. hex_digit k \<in> set ''0123456789abcdef''" by code_simp
  then show "n < 16 \<Longrightarrow> ?thesis" by simp
qed

lemma sum_of_form: "length (sum_of d) = 71" "has_prefix (sum_of d) digest_prefix" "hex_string (drop 7 (sum_of d))"
proof -
  have "hex_string (hex32 w)" for w by (simp add: hex_string_def hex32_def hex_digit_range nibble_less del: set_simps)
  then have "hex_string (concat (map hex32 ws))" for ws by (induction ws) (auto simp: hex_string_def)
  then show "hex_string (drop 7 (sum_of d))" by (simp add: sum_of_def digest_prefix_def sha256_def Let_def)
qed (simp_all add: sum_of_def length_sha256, simp add: digest_prefix_def)

lemma image_item_typed:
  assumes "whole ens fin" "sizes_small ens"
  shows "well_typed_item (image_item rec ens)"
proof -
  have a: "list_all entry_ok ens" "distinct (map fst (wanted ens))" using assms(1) by (simp_all add: whole_def acceptable_def)
  have "fr_name \<circ> file_of = fst" by (simp add: file_of_def fun_eq_iff)
  moreover have "well_typed_file (file_of (b, d))" if "(b, d) \<in> set (wanted ens)" for b d
    using wanted_names [OF a(1) that] assms(2) that
    by (auto simp: well_typed_file_def file_of_def sum_of_form int64_def sizes_small_def list_all_iff)
  ultimately show ?thesis
    using a(2) by (auto simp: well_typed_item_def image_item_def list_all_iff dest: map_of_SomeD)
qed

lemma adopted_item_typed: "well_typed_item it \<Longrightarrow> well_typed_item (adopted_item it)"
  by (auto simp: well_typed_item_def adopted_item_def split: if_splits)

lemma serve_typed:
  assumes "request_ok q" "\<forall>it \<in> ran m. well_typed_item it"
  shows "\<forall>it \<in> ran (snd (serve q m)). well_typed_item it"
  using assms image_item_typed adopted_item_typed
  by (cases q) (auto simp: ran_def restrict_map_def split: option.split if_splits)

lemma runs_typed:
  "list_all request_ok qs \<Longrightarrow> \<forall>it \<in> ran m. well_typed_item it \<Longrightarrow> \<forall>it \<in> ran (snd (runs serve qs m)). well_typed_item it"
proof (induction qs arbitrary: m)
  case (Cons q qs)
  have "\<forall>it \<in> ran (snd (serve q m)). well_typed_item it" using serve_typed [of q m] Cons.prems by simp
  with Cons show ?case by (simp add: split_beta)
qed simp

text \<open>C16: A cache path only the store has written is well typed. After any sequence of requests from an empty cache path,
  every record on disk lists distinct plain names with well-formed digests and sizes in range, and
  every file lies under a name the record lists, with the digest and the size it lists.\<close>

theorem shelf_well_typed:
  assumes "serviceable cp w" "shelf_at cp (root w) = Map.empty" "list_all request_ok qs" "runs (perform cp) qs w = (as, w')"
    and "shelf_at cp (root w') n = Some it"
  shows "well_typed_item it"
proof -
  have "runs serve qs Map.empty = (as, shelf_at cp (root w'))" using stored_shelf.runs_simulate [OF assms(1,3,4)] assms(2) by simp
  then show ?thesis using runs_typed [OF assms(3), of Map.empty] assms(5) by (auto simp: ran_def)
qed

lemma sample_request:
  "serviceable [''cache''] (cache_world [] None)" "shelf_at [''cache''] (root (cache_world [] None)) = Map.empty"
  "list_all request_ok [Extracting ''boot'' agent_record [tar_file ''images/a.tar'' ''abc''] Eof]"
proof -
  show "list_all request_ok [Extracting ''boot'' agent_record [tar_file ''images/a.tar'' ''abc''] Eof]"
    using sample_valid by (simp add: resource_name_def plain_def is_temporary_def lost_found_def record_valid_def agent_record_def seeded_ascii)
qed (auto simp: serviceable_def tidy_def plain_def shelf_at_def fun_eq_iff)

theorem shelf_well_typed_witness:
  "\<exists>w' it. runs (perform [''cache'']) [Extracting ''boot'' agent_record [tar_file ''images/a.tar'' ''abc''] Eof] (cache_world [] None) = ([Done True], w')
     \<and> shelf_at [''cache''] (root w') ''boot'' = Some it \<and> well_typed_item it"
proof -
  let ?qs = "[Extracting ''boot'' agent_record [tar_file ''images/a.tar'' ''abc''] Eof]"
  obtain as w' where run: "runs (perform [''cache'']) ?qs (cache_world [] None) = (as, w')"
    by (cases "runs (perform [''cache'']) ?qs (cache_world [] None)")
  have r: "runs serve ?qs Map.empty = (as, shelf_at [''cache''] (root w'))"
    using stored_shelf.runs_simulate [OF sample_request(1,3) run] sample_request(2) by simp
  then have s: "as = [Done True]" "shelf_at [''cache''] (root w') ''boot'' = Some (image_item agent_record [tar_file ''images/a.tar'' ''abc''])"
    using whole_sample by (auto dest: fun_cong [of _ _ "''boot''"])
  from shelf_well_typed [OF sample_request run s(2)] s run show ?thesis by blast
qed

end
