(* ===== verification/DeepCopy.thy ===== *)
theory DeepCopy
  imports GoErrors Labels
begin

section \<open>The API types and their deep copies (api/v1alpha1)\<close>

text \<open>
  The structures of \<^verbatim>\<open>imagecache_types.go\<close> with their pointers, on a heap, and the methods
  controller-gen writes for them in \<^verbatim>\<open>zz_generated.deepcopy.go\<close>. The agent's client keeps one
  copy of each object and hands out deep copies: a copy that shared the selector's map with it would
  let one reader change what the others read. Assignments of structures copy their pointers, as in Go. The
  metadata is a library type: its contents, and its \<^verbatim>\<open>DeepCopyInto\<close>, are parameters, with what such a
  method promises as the locale \<open>deep_copier\<close>; the methods here are shown to promise the same.
\<close>

subsection \<open>Registration\<close>

text \<open>What \<^verbatim>\<open>groupversion_info.go\<close> and the two \<^verbatim>\<open>init\<close> functions tell the library's
  scheme. The library adds types and group versions to a scheme, and runs a builder's functions in the
  order they were registered in.\<close>

record group_version =
  gv_group :: string
  gv_version :: string

record 's scheme_lib =
  sc_client_go :: "'s \<Rightarrow> 's res"
  sc_add_group_version :: "group_version \<Rightarrow> 's \<Rightarrow> 's"
  sc_add_known_types :: "group_version \<Rightarrow> string list \<Rightarrow> 's \<Rightarrow> 's"
  sc_add_to_scheme :: "('s \<Rightarrow> 's res) list \<Rightarrow> 's \<Rightarrow> 's res"

definition scheme_group_version :: group_version where
  "scheme_group_version = \<lparr>gv_group = ''image-cache.scality.com'', gv_version = ''v1alpha1''\<rparr>"

definition scheme_builder :: "'s scheme_lib \<Rightarrow> ('s \<Rightarrow> 's res) list" where
  "scheme_builder lib = [\<lambda>s. Inr (sc_add_group_version lib scheme_group_version s)]"

definition register_types :: "'s scheme_lib \<Rightarrow> ('s \<Rightarrow> 's res) list \<Rightarrow> ('s \<Rightarrow> 's res) list" where
  "register_types lib builder = builder @ [\<lambda>s. Inr (sc_add_known_types lib scheme_group_version [''ImageCache'', ''ImageCacheList''] s)]"

definition add_to_scheme :: "'s scheme_lib \<Rightarrow> 's \<Rightarrow> 's res" where
  "add_to_scheme lib = sc_add_to_scheme lib (register_types lib (scheme_builder lib))"

text \<open>\<^verbatim>\<open>init\<close> of the manager: an error is a panic.\<close>

definition init_scheme :: "'s scheme_lib \<Rightarrow> 's \<Rightarrow> 's res" where
  "init_scheme lib s = (case sc_client_go lib s of
     Inl e \<Rightarrow> Inl e
   | Inr s1 \<Rightarrow> add_to_scheme lib s1)"

text \<open>The prefix of the node labels is the group of the resources.\<close>

lemma label_prefix_group: "label_prefix = gv_group scheme_group_version @ [CHR ''/'']"
  by (simp add: label_prefix_def scheme_group_version_def)

subsection \<open>Structures on a heap\<close>

type_synonym addr = nat

record type_meta =
  tm_kind :: string
  tm_api_version :: string

record spec_struct =
  sp_selector :: "addr option"
  sp_source :: string

record 'm cache_struct =
  cs_type :: type_meta
  cs_meta :: 'm
  cs_spec :: spec_struct

record 'l list_struct =
  ls_type :: type_meta
  ls_meta :: 'l
  ls_items :: "addr option"

text \<open>What an address holds: a map, the array of a slice, a structure, or something of a library.\<close>

datatype ('m, 'l, 'e) cell =
    MapAt labels
  | ArrayAt "'m cache_struct list"
  | SpecAt spec_struct
  | CacheAt "'m cache_struct"
  | ListAt "'l list_struct"
  | Foreign 'e

record ('m, 'l, 'e) heap =
  hp_cells :: "addr \<Rightarrow> ('m, 'l, 'e) cell option"
  hp_limit :: addr

definition alloc :: "('m, 'l, 'e) cell \<Rightarrow> ('m, 'l, 'e) heap \<Rightarrow> addr \<times> ('m, 'l, 'e) heap" where
  "alloc c h = (hp_limit h, \<lparr>hp_cells = (hp_cells h)(hp_limit h \<mapsto> c), hp_limit = Suc (hp_limit h)\<rparr>)"

definition write_at :: "addr \<Rightarrow> ('m, 'l, 'e) cell \<Rightarrow> ('m, 'l, 'e) heap \<Rightarrow> ('m, 'l, 'e) heap" where
  "write_at a c h = h\<lparr>hp_cells := (hp_cells h)(a \<mapsto> c)\<rparr>"

definition map_at :: "('m, 'l, 'e) heap \<Rightarrow> addr \<Rightarrow> labels" where
  "map_at h a = (case hp_cells h a of Some (MapAt m) \<Rightarrow> m | _ \<Rightarrow> [])"

definition array_at :: "('m, 'l, 'e) heap \<Rightarrow> addr \<Rightarrow> 'm cache_struct list" where
  "array_at h a = (case hp_cells h a of Some (ArrayAt xs) \<Rightarrow> xs | _ \<Rightarrow> [])"

subsection \<open>The generated methods\<close>

text \<open>\<^verbatim>\<open>DeepCopyInto\<close>: the structure stored in \<^verbatim>\<open>*out\<close>, which the caller has just made, and
  the heap after. A map is copied entry by entry, in the order its \<^verbatim>\<open>range\<close> visits them.\<close>

definition copy_map :: "labels \<Rightarrow> labels" where
  "copy_map m = foldr (\<lambda>(key, val) out. AList.update key val out) m []"

definition spec_copy_into :: "spec_struct \<Rightarrow> ('m, 'l, 'e) heap \<Rightarrow> spec_struct \<times> ('m, 'l, 'e) heap" where
  "spec_copy_into s h = (case sp_selector s of
     None \<Rightarrow> (s, h)
   | Some a \<Rightarrow> (case alloc (MapAt (copy_map (map_at h a))) h of (b, h') \<Rightarrow> (s\<lparr>sp_selector := Some b\<rparr>, h')))"

definition cache_copy_into ::
    "('m \<Rightarrow> ('m, 'l, 'e) heap \<Rightarrow> 'm \<times> ('m, 'l, 'e) heap) \<Rightarrow> 'm cache_struct \<Rightarrow> ('m, 'l, 'e) heap \<Rightarrow> 'm cache_struct \<times> ('m, 'l, 'e) heap" where
  "cache_copy_into meta_copy c h = (case meta_copy (cs_meta c) h of (m, h1) \<Rightarrow>
     case spec_copy_into (cs_spec c) h1 of (s, h2) \<Rightarrow> (c\<lparr>cs_meta := m, cs_spec := s\<rparr>, h2))"

fun copy_items :: "('v \<Rightarrow> 'h \<Rightarrow> 'v \<times> 'h) \<Rightarrow> 'v list \<Rightarrow> 'h \<Rightarrow> 'v list \<times> 'h" where
  "copy_items copy [] h = ([], h)"
| "copy_items copy (x # xs) h = (case copy x h of (y, h1) \<Rightarrow> case copy_items copy xs h1 of (ys, h2) \<Rightarrow> (y # ys, h2))"

definition list_copy_into ::
    "('m \<Rightarrow> ('m, 'l, 'e) heap \<Rightarrow> 'm \<times> ('m, 'l, 'e) heap) \<Rightarrow> ('l \<Rightarrow> ('m, 'l, 'e) heap \<Rightarrow> 'l \<times> ('m, 'l, 'e) heap) \<Rightarrow>
     'l list_struct \<Rightarrow> ('m, 'l, 'e) heap \<Rightarrow> 'l list_struct \<times> ('m, 'l, 'e) heap" where
  "list_copy_into meta_copy list_meta_copy l h = (case list_meta_copy (ls_meta l) h of (m, h1) \<Rightarrow>
     case ls_items l of
       None \<Rightarrow> (l\<lparr>ls_meta := m\<rparr>, h1)
     | Some a \<Rightarrow> (case alloc (ArrayAt []) h1 of (b, h2) \<Rightarrow>
         case copy_items (cache_copy_into meta_copy) (array_at h1 a) h2 of (ys, h3) \<Rightarrow>
           (l\<lparr>ls_meta := m, ls_items := Some b\<rparr>, write_at b (ArrayAt ys) h3)))"

text \<open>\<^verbatim>\<open>DeepCopy\<close>: nil for nil, or a new structure.\<close>

definition new_from :: "('v \<Rightarrow> ('m, 'l, 'e) cell) \<Rightarrow> 'v \<times> ('m, 'l, 'e) heap \<Rightarrow> addr option \<times> ('m, 'l, 'e) heap" where
  "new_from mk r = (case r of (v, h) \<Rightarrow> case alloc (mk v) h of (b, h') \<Rightarrow> (Some b, h'))"

definition spec_deep_copy :: "addr option \<Rightarrow> ('m, 'l, 'e) heap \<Rightarrow> addr option \<times> ('m, 'l, 'e) heap" where
  "spec_deep_copy p h = (case Option.bind p (hp_cells h) of
     Some (SpecAt s) \<Rightarrow> new_from SpecAt (spec_copy_into s h) | _ \<Rightarrow> (None, h))"

definition cache_deep_copy ::
    "('m \<Rightarrow> ('m, 'l, 'e) heap \<Rightarrow> 'm \<times> ('m, 'l, 'e) heap) \<Rightarrow> addr option \<Rightarrow> ('m, 'l, 'e) heap \<Rightarrow> addr option \<times> ('m, 'l, 'e) heap" where
  "cache_deep_copy meta_copy p h = (case Option.bind p (hp_cells h) of
     Some (CacheAt c) \<Rightarrow> new_from CacheAt (cache_copy_into meta_copy c h) | _ \<Rightarrow> (None, h))"

definition list_deep_copy ::
    "('m \<Rightarrow> ('m, 'l, 'e) heap \<Rightarrow> 'm \<times> ('m, 'l, 'e) heap) \<Rightarrow> ('l \<Rightarrow> ('m, 'l, 'e) heap \<Rightarrow> 'l \<times> ('m, 'l, 'e) heap) \<Rightarrow>
     addr option \<Rightarrow> ('m, 'l, 'e) heap \<Rightarrow> addr option \<times> ('m, 'l, 'e) heap" where
  "list_deep_copy meta_copy list_meta_copy p h = (case Option.bind p (hp_cells h) of
     Some (ListAt l) \<Rightarrow> new_from ListAt (list_copy_into meta_copy list_meta_copy l h) | _ \<Rightarrow> (None, h))"

text \<open>\<^verbatim>\<open>DeepCopyObject\<close>: a nil pointer becomes a nil interface, not an interface that holds a nil
  pointer.\<close>

datatype runtime_object = CacheObject "addr option" | ListObject "addr option"

definition cache_deep_copy_object ::
    "('m \<Rightarrow> ('m, 'l, 'e) heap \<Rightarrow> 'm \<times> ('m, 'l, 'e) heap) \<Rightarrow> addr option \<Rightarrow> ('m, 'l, 'e) heap \<Rightarrow> runtime_object option \<times> ('m, 'l, 'e) heap" where
  "cache_deep_copy_object meta_copy p h = (case cache_deep_copy meta_copy p h of (c, h') \<Rightarrow>
     (if c \<noteq> None then Some (CacheObject c) else None, h'))"

definition list_deep_copy_object ::
    "('m \<Rightarrow> ('m, 'l, 'e) heap \<Rightarrow> 'm \<times> ('m, 'l, 'e) heap) \<Rightarrow> ('l \<Rightarrow> ('m, 'l, 'e) heap \<Rightarrow> 'l \<times> ('m, 'l, 'e) heap) \<Rightarrow>
     addr option \<Rightarrow> ('m, 'l, 'e) heap \<Rightarrow> runtime_object option \<times> ('m, 'l, 'e) heap" where
  "list_deep_copy_object meta_copy list_meta_copy p h = (case list_deep_copy meta_copy list_meta_copy p h of (c, h') \<Rightarrow>
     (if c \<noteq> None then Some (ListObject c) else None, h'))"

subsection \<open>What a deep copy promises\<close>

text \<open>\<open>refs v h\<close> are the addresses reachable from \<open>v\<close>, \<open>val v h\<close> what a reader of \<open>v\<close> sees. Both
  depend on the reachable cells only; a copy changes no cell that was there, reads as the original, and
  reaches new cells only.\<close>

definition grows :: "('m, 'l, 'e) heap \<Rightarrow> ('m, 'l, 'e) heap \<Rightarrow> bool" where
  "grows h h' \<longleftrightarrow> hp_limit h \<le> hp_limit h' \<and> (\<forall>a < hp_limit h. hp_cells h' a = hp_cells h a)"

definition agree :: "addr set \<Rightarrow> ('m, 'l, 'e) heap \<Rightarrow> ('m, 'l, 'e) heap \<Rightarrow> bool" where
  "agree A h h' \<longleftrightarrow> (\<forall>a \<in> A. hp_cells h' a = hp_cells h a)"

locale deep_copier =
  fixes copy :: "'v \<Rightarrow> ('m, 'l, 'e) heap \<Rightarrow> 'v \<times> ('m, 'l, 'e) heap"
    and refs :: "'v \<Rightarrow> ('m, 'l, 'e) heap \<Rightarrow> addr set"
    and val :: "'v \<Rightarrow> ('m, 'l, 'e) heap \<Rightarrow> 'x"
  assumes refs_frame: "agree (refs v h) h h' \<Longrightarrow> refs v h' = refs v h"
    and val_frame: "agree (refs v h) h h' \<Longrightarrow> val v h' = val v h"
    and copy_grows: "refs v h \<subseteq> {..<hp_limit h} \<Longrightarrow> copy v h = (u, h') \<Longrightarrow> grows h h'"
    and copy_val: "refs v h \<subseteq> {..<hp_limit h} \<Longrightarrow> copy v h = (u, h') \<Longrightarrow> val u h' = val v h"
    and copy_refs: "refs v h \<subseteq> {..<hp_limit h} \<Longrightarrow> copy v h = (u, h') \<Longrightarrow> refs u h' \<subseteq> {hp_limit h..<hp_limit h'}"
begin

text \<open>The copy and the original are apart: whatever is written into the one, the other reads as before.\<close>

lemma apart:
  assumes "refs v h \<subseteq> {..<hp_limit h}" "copy v h = (u, h')"
  shows "refs v h' = refs v h" "val v h' = val v h" "refs u h' \<inter> refs v h' = {}"
proof -
  have a: "agree (refs v h) h h'" using copy_grows [OF assms] assms(1) by (auto simp: agree_def grows_def)
  then show r: "refs v h' = refs v h" and "val v h' = val v h" by (auto simp: refs_frame val_frame)
  show "refs u h' \<inter> refs v h' = {}" unfolding r using copy_refs [OF assms] assms(1) by fastforce
qed

lemma independent:
  assumes "refs v h \<subseteq> {..<hp_limit h}" "copy v h = (u, h')"
  shows "agree (- refs u h') h' k \<Longrightarrow> val v k = val v h" "agree (- refs v h) h' k \<Longrightarrow> val u k = val v h"
proof -
  note p = apart [OF assms]
  show "val v k = val v h" if "agree (- refs u h') h' k"
    using val_frame [of v h' k] p that by (auto simp: agree_def)
  show "val u k = val v h" if "agree (- refs v h) h' k"
    using val_frame [of u h' k] p copy_val [OF assms] that by (auto simp: agree_def)
qed

end

lemma deep_copierI:
  assumes "\<And>v h h'. agree (refs v h) h h' \<Longrightarrow> refs v h' = refs v h \<and> val v h' = val v h"
    and "\<And>v h u h'. refs v h \<subseteq> {..<hp_limit h} \<Longrightarrow> copy v h = (u, h') \<Longrightarrow>
      grows h h' \<and> val u h' = val v h \<and> refs u h' \<subseteq> {hp_limit h..<hp_limit h'}"
  shows "deep_copier copy refs val"
proof (unfold_locales, goal_cases)
  case (1 v h h')
  then show ?case using assms(1) [of v h h'] by simp
next
  case (2 v h h')
  then show ?case using assms(1) [of v h h'] by simp
next
  case (3 v h u h')
  then show ?case using assms(2) [of v h u h'] by simp
next
  case (4 v h u h')
  then show ?case using assms(2) [of v h u h'] by simp
next
  case (5 v h u h')
  then show ?case using assms(2) [of v h u h'] by simp
qed

lemma grows_refl: "grows h h"
  by (simp add: grows_def)

lemma grows_trans: "grows h h' \<Longrightarrow> grows h' k \<Longrightarrow> grows h k"
  by (simp add: grows_def)

lemma grows_agree: "grows h h' \<Longrightarrow> A \<subseteq> {..<hp_limit h} \<Longrightarrow> agree A h h'"
  by (auto simp: grows_def agree_def)

lemma grows_below: "grows h h' \<Longrightarrow> A \<subseteq> {..<hp_limit h} \<Longrightarrow> A \<subseteq> {..<hp_limit h'}"
  by (auto simp: grows_def)

lemma agree_Un [simp]: "agree (A \<union> B) h h' \<longleftrightarrow> agree A h h' \<and> agree B h h'"
  by (auto simp: agree_def)

lemma alloc_facts: "alloc c h = (b, h') \<Longrightarrow> b = hp_limit h \<and> hp_limit h' = Suc b \<and> hp_cells h' b = Some c \<and> grows h h'"
  by (auto simp: alloc_def grows_def)

text \<open>Two structures copied one after the other.\<close>

lemma copy_twice:
  assumes c: "deep_copier copy1 refs1 val1" "deep_copier copy2 refs2 val2"
    and r: "refs1 v h \<subseteq> {..<hp_limit h}" "refs2 w h \<subseteq> {..<hp_limit h}"
    and x: "copy1 v h = (u, h1)" "copy2 w h1 = (y, h2)"
  shows "grows h h2 \<and> val1 u h2 = val1 v h \<and> val2 y h2 = val2 w h \<and>
    refs1 u h2 \<union> refs2 y h2 \<subseteq> {hp_limit h..<hp_limit h2}"
proof -
  have g1: "grows h h1" and u: "val1 u h1 = val1 v h" "refs1 u h1 \<subseteq> {hp_limit h..<hp_limit h1}"
    using deep_copier.copy_grows [OF c(1) r(1) x(1)] deep_copier.copy_val [OF c(1) r(1) x(1)] deep_copier.copy_refs [OF c(1) r(1) x(1)] by auto
  have a: "agree (refs2 w h) h h1" by (rule grows_agree [OF g1 r(2)])
  have w: "refs2 w h1 = refs2 w h" "val2 w h1 = val2 w h" using deep_copier.refs_frame [OF c(2) a] deep_copier.val_frame [OF c(2) a] by auto
  have r2: "refs2 w h1 \<subseteq> {..<hp_limit h1}" unfolding w(1) by (rule grows_below [OF g1 r(2)])
  have g2: "grows h1 h2" and y: "val2 y h2 = val2 w h1" "refs2 y h2 \<subseteq> {hp_limit h1..<hp_limit h2}"
    using deep_copier.copy_grows [OF c(2) r2 x(2)] deep_copier.copy_val [OF c(2) r2 x(2)] deep_copier.copy_refs [OF c(2) r2 x(2)] by auto
  have b: "agree (refs1 u h1) h1 h2" by (rule grows_agree [OF g2]) (use u(2) in auto)
  have "refs1 u h2 = refs1 u h1" "val1 u h2 = val1 u h1" using deep_copier.refs_frame [OF c(1) b] deep_copier.val_frame [OF c(1) b] by auto
  with g1 g2 u w y show ?thesis by (auto simp: grows_def)
qed

lemma items_copier:
  assumes c: "deep_copier copy refs val"
  shows "deep_copier (copy_items copy) (\<lambda>xs h. \<Union>x \<in> set xs. refs x h) (\<lambda>xs h. map (\<lambda>x. val x h) xs)"
proof -
  have f: "(\<Union>x \<in> set xs. refs x h') = (\<Union>x \<in> set xs. refs x h) \<and> map (\<lambda>x. val x h') xs = map (\<lambda>x. val x h) xs"
    if "agree (\<Union>x \<in> set xs. refs x h) h h'" for xs h h'
  proof -
    have "agree (refs x h) h h'" if "x \<in> set xs" for x using \<open>agree _ h h'\<close> that by (auto simp: agree_def)
    then have "refs x h' = refs x h \<and> val x h' = val x h" if "x \<in> set xs" for x
      using deep_copier.refs_frame [OF c] deep_copier.val_frame [OF c] that by blast
    then show ?thesis by simp
  qed
  have g: "grows h h' \<and> map (\<lambda>x. val x h') ys = map (\<lambda>x. val x h) xs \<and> (\<Union>x \<in> set ys. refs x h') \<subseteq> {hp_limit h..<hp_limit h'}"
    if "(\<Union>x \<in> set xs. refs x h) \<subseteq> {..<hp_limit h}" "copy_items copy xs h = (ys, h')" for xs ys h h'
    using that
  proof (induction xs arbitrary: ys h)
    case Nil
    then show ?case by (simp add: grows_refl)
  next
    case (Cons x xs)
    obtain y h1 where y: "copy x h = (y, h1)" by (cases "copy x h")
    obtain zs where z: "copy_items copy xs h1 = (zs, h')" "ys = y # zs" using Cons.prems(2) y by (auto split: prod.splits)
    have rx: "refs x h \<subseteq> {..<hp_limit h}" "(\<Union>x \<in> set xs. refs x h) \<subseteq> {..<hp_limit h}" using Cons.prems(1) by auto
    have g: "grows h h1" and v: "val y h1 = val x h" "refs y h1 \<subseteq> {hp_limit h..<hp_limit h1}"
      using deep_copier.copy_grows [OF c rx(1) y] deep_copier.copy_val [OF c rx(1) y] deep_copier.copy_refs [OF c rx(1) y] by auto
    note e = f [OF grows_agree [OF g rx(2)]]
    have "(\<Union>x \<in> set xs. refs x h1) \<subseteq> {..<hp_limit h1}" unfolding e [THEN conjunct1] by (rule grows_below [OF g rx(2)])
    note ih = Cons.IH [OF this z(1)]
    have b: "agree (refs y h1) h1 h'" by (rule grows_agree) (use ih v(2) in auto)
    have y': "refs y h' = refs y h1" "val y h' = val y h1" using deep_copier.refs_frame [OF c b] deep_copier.val_frame [OF c b] by auto
    have sub: "{hp_limit h..<hp_limit h1} \<subseteq> {hp_limit h..<hp_limit h'}" "{hp_limit h1..<hp_limit h'} \<subseteq> {hp_limit h..<hp_limit h'}"
      using ih g by (auto simp: grows_def)
    have "grows h h'" using ih g grows_trans by blast
    moreover have "map (\<lambda>x. val x h') ys = map (\<lambda>x. val x h) (x # xs)" using ih e v(1) y'(2) z(2) by simp
    moreover have "refs y h' \<subseteq> {hp_limit h..<hp_limit h'}" unfolding y'(1) using v(2) sub(1) by (rule order_trans)
    moreover have "(\<Union>z \<in> set zs. refs z h') \<subseteq> {hp_limit h..<hp_limit h'}" using conjunct2 [OF conjunct2 [OF ih]] sub(2) by (rule order_trans)
    ultimately show ?case unfolding z(2) by simp
  qed
  show ?thesis using f g by (rule deep_copierI)
qed

subsection \<open>The three types\<close>

definition spec_refs :: "spec_struct \<Rightarrow> ('m, 'l, 'e) heap \<Rightarrow> addr set" where
  "spec_refs s h = set_option (sp_selector s)"

definition spec_val :: "spec_struct \<Rightarrow> ('m, 'l, 'e) heap \<Rightarrow> (string \<rightharpoonup> string) option \<times> string" where
  "spec_val s h = (map_option (\<lambda>a. map_of (map_at h a)) (sp_selector s), sp_source s)"

definition cache_refs :: "('m \<Rightarrow> ('m, 'l, 'e) heap \<Rightarrow> addr set) \<Rightarrow> 'm cache_struct \<Rightarrow> ('m, 'l, 'e) heap \<Rightarrow> addr set" where
  "cache_refs mr c h = mr (cs_meta c) h \<union> spec_refs (cs_spec c) h"

definition cache_val :: "('m \<Rightarrow> ('m, 'l, 'e) heap \<Rightarrow> 'x) \<Rightarrow> 'm cache_struct \<Rightarrow> ('m, 'l, 'e) heap \<Rightarrow> type_meta \<times> 'x \<times> (string \<rightharpoonup> string) option \<times> string" where
  "cache_val mv c h = (cs_type c, mv (cs_meta c) h, spec_val (cs_spec c) h)"

definition list_refs :: "('m \<Rightarrow> ('m, 'l, 'e) heap \<Rightarrow> addr set) \<Rightarrow> ('l \<Rightarrow> ('m, 'l, 'e) heap \<Rightarrow> addr set) \<Rightarrow> 'l list_struct \<Rightarrow> ('m, 'l, 'e) heap \<Rightarrow> addr set" where
  "list_refs mr lr l h = lr (ls_meta l) h \<union> (case ls_items l of None \<Rightarrow> {} | Some a \<Rightarrow> insert a (\<Union>c \<in> set (array_at h a). cache_refs mr c h))"

definition list_val :: "('m \<Rightarrow> ('m, 'l, 'e) heap \<Rightarrow> 'x) \<Rightarrow> ('l \<Rightarrow> ('m, 'l, 'e) heap \<Rightarrow> 'y) \<Rightarrow> 'l list_struct \<Rightarrow> ('m, 'l, 'e) heap
    \<Rightarrow> type_meta \<times> 'y \<times> (type_meta \<times> 'x \<times> (string \<rightharpoonup> string) option \<times> string) list option" where
  "list_val mv lv l h = (ls_type l, lv (ls_meta l) h, map_option (\<lambda>a. map (\<lambda>c. cache_val mv c h) (array_at h a)) (ls_items l))"

lemma map_of_copy_map [simp]: "map_of (copy_map m) = map_of m"
  unfolding copy_map_def by (induction m) (auto simp: fun_eq_iff)

lemma spec_copier: "deep_copier spec_copy_into spec_refs spec_val"
proof -
  have f: "spec_refs s h' = spec_refs s h \<and> spec_val s h' = spec_val s h" if "agree (spec_refs s h) h h'" for s and h h' :: "('m, 'l, 'e) heap"
    using that by (cases "sp_selector s") (simp_all add: spec_refs_def spec_val_def agree_def map_at_def)
  have g: "grows h h' \<and> spec_val t h' = spec_val s h \<and> spec_refs t h' \<subseteq> {hp_limit h..<hp_limit h'}"
    if x: "spec_copy_into s h = (t, h')" for s t and h h' :: "('m, 'l, 'e) heap"
  proof (cases "sp_selector s")
    case None
    with x show ?thesis by (auto simp: spec_copy_into_def spec_refs_def spec_val_def grows_refl)
  next
    case (Some a)
    then obtain b where "alloc (MapAt (copy_map (map_at h a))) h = (b, h')" and t: "t = s\<lparr>sp_selector := Some b\<rparr>"
      using x by (auto simp: spec_copy_into_def split: prod.splits)
    then have b: "b = hp_limit h" "hp_limit h' = Suc b" "hp_cells h' b = Some (MapAt (copy_map (map_at h a)))" "grows h h'"
      using alloc_facts by blast+
    have "map_at h' b = copy_map (map_at h a)" using b(3) by (simp add: map_at_def)
    with b Some t show ?thesis by (simp add: spec_refs_def spec_val_def)
  qed
  show ?thesis using f g by (rule deep_copierI)
qed

lemma cache_copier:
  assumes m: "deep_copier mc mr mv"
  shows "deep_copier (cache_copy_into mc) (cache_refs mr) (cache_val mv)"
proof -
  have f: "cache_refs mr c h' = cache_refs mr c h \<and> cache_val mv c h' = cache_val mv c h" if "agree (cache_refs mr c h) h h'" for c h h'
    using that deep_copier.refs_frame [OF m, of "cs_meta c" h h'] deep_copier.val_frame [OF m, of "cs_meta c" h h']
      deep_copier.refs_frame [OF spec_copier, of "cs_spec c" h h'] deep_copier.val_frame [OF spec_copier, of "cs_spec c" h h']
    by (simp add: cache_refs_def cache_val_def)
  have g: "grows h h' \<and> cache_val mv d h' = cache_val mv c h \<and> cache_refs mr d h' \<subseteq> {hp_limit h..<hp_limit h'}"
    if r: "cache_refs mr c h \<subseteq> {..<hp_limit h}" and x: "cache_copy_into mc c h = (d, h')" for c d h h'
  proof -
    obtain mt h1 sp where y: "mc (cs_meta c) h = (mt, h1)" "spec_copy_into (cs_spec c) h1 = (sp, h')" "d = c\<lparr>cs_meta := mt, cs_spec := sp\<rparr>"
      using x by (auto simp: cache_copy_into_def split: prod.splits)
    have "mr (cs_meta c) h \<subseteq> {..<hp_limit h}" "spec_refs (cs_spec c) h \<subseteq> {..<hp_limit h}" using r by (auto simp: cache_refs_def)
    from copy_twice [OF m spec_copier this y(1,2)] show ?thesis by (simp add: cache_refs_def cache_val_def y(3))
  qed
  show ?thesis using f g by (rule deep_copierI)
qed

lemma list_copier:
  assumes m: "deep_copier mc mr mv" and l: "deep_copier lc lr lv"
  shows "deep_copier (list_copy_into mc lc) (list_refs mr lr) (list_val mv lv)"
proof -
  let ?ir = "\<lambda>xs h. \<Union>c \<in> set xs. cache_refs mr c h" and ?iv = "\<lambda>xs h. map (\<lambda>c. cache_val mv c h) xs"
  note i = items_copier [OF cache_copier [OF m]]
  have f: "list_refs mr lr x h' = list_refs mr lr x h \<and> list_val mv lv x h' = list_val mv lv x h" if a: "agree (list_refs mr lr x h) h h'" for x h h'
  proof -
    have meta: "lr (ls_meta x) h' = lr (ls_meta x) h" "lv (ls_meta x) h' = lv (ls_meta x) h"
      using a deep_copier.refs_frame [OF l, of "ls_meta x" h h'] deep_copier.val_frame [OF l, of "ls_meta x" h h'] by (simp_all add: list_refs_def)
    show ?thesis
    proof (cases "ls_items x")
      case (Some p)
      then have r: "agree (?ir (array_at h p) h) h h'" "array_at h' p = array_at h p"
        using a by (simp_all add: list_refs_def agree_def array_at_def)
      from deep_copier.refs_frame [OF i r(1)] deep_copier.val_frame [OF i r(1)] r(2) meta Some show ?thesis
        by (simp add: list_refs_def list_val_def)
    qed (use meta in \<open>simp add: list_refs_def list_val_def\<close>)
  qed
  have g: "grows h h' \<and> list_val mv lv y h' = list_val mv lv x h \<and> list_refs mr lr y h' \<subseteq> {hp_limit h..<hp_limit h'}"
    if r: "list_refs mr lr x h \<subseteq> {..<hp_limit h}" and c: "list_copy_into mc lc x h = (y, h')" for x y h h'
  proof -
    obtain mt h1 where mt: "lc (ls_meta x) h = (mt, h1)" by (cases "lc (ls_meta x) h")
    have rl: "lr (ls_meta x) h \<subseteq> {..<hp_limit h}" using r by (simp add: list_refs_def)
    have g1: "grows h h1" "lv mt h1 = lv (ls_meta x) h" "lr mt h1 \<subseteq> {hp_limit h..<hp_limit h1}"
      using deep_copier.copy_grows [OF l rl mt] deep_copier.copy_val [OF l rl mt] deep_copier.copy_refs [OF l rl mt] by auto
    show ?thesis
    proof (cases "ls_items x")
      case None
      with c mt g1 show ?thesis by (auto simp: list_copy_into_def list_refs_def list_val_def)
    next
      case (Some p)
      obtain b h2 ys h3 where y: "alloc (ArrayAt []) h1 = (b, h2)" "copy_items (cache_copy_into mc) (array_at h1 p) h2 = (ys, h3)"
        "y = x\<lparr>ls_meta := mt, ls_items := Some b\<rparr>" "h' = write_at b (ArrayAt ys) h3"
        using c mt Some by (auto simp: list_copy_into_def split: prod.splits)
      have b: "b = hp_limit h1" "hp_limit h2 = Suc b" "grows h1 h2" using alloc_facts [OF y(1)] by auto
      have g2: "grows h h2" by (rule grows_trans [OF g1(1) b(3)])
      have p: "?ir (array_at h p) h \<subseteq> {..<hp_limit h}" "p < hp_limit h" using r Some by (auto simp: list_refs_def)
      have ar: "array_at h1 p = array_at h p" using g1(1) p(2) by (simp add: grows_def array_at_def)
      have a: "agree (?ir (array_at h p) h) h h2" by (rule grows_agree [OF g2 p(1)])
      have e: "?ir (array_at h p) h2 = ?ir (array_at h p) h" "?iv (array_at h p) h2 = ?iv (array_at h p) h"
        using deep_copier.refs_frame [OF i a] deep_copier.val_frame [OF i a] by auto
      have p2: "?ir (array_at h p) h2 \<subseteq> {..<hp_limit h2}" unfolding e(1) by (rule grows_below [OF g2 p(1)])
      note yi = y(2) [unfolded ar]
      have g3: "grows h2 h3" "?iv ys h3 = ?iv (array_at h p) h2" "?ir ys h3 \<subseteq> {hp_limit h2..<hp_limit h3}"
        using deep_copier.copy_grows [OF i p2 yi] deep_copier.copy_val [OF i p2 yi] deep_copier.copy_refs [OF i p2 yi] by auto
      have w: "array_at h' b = ys" "hp_limit h' = hp_limit h3" "agree (- {b}) h3 h'"
        by (simp_all add: y(4) write_at_def array_at_def agree_def)
      have ny: "agree (?ir ys h3) h3 h'" using w(3) g3(3) b(2) by (auto simp: agree_def)
      have s: "?ir ys h' = ?ir ys h3" "?iv ys h' = ?iv ys h3"
        using deep_copier.refs_frame [OF i ny] deep_copier.val_frame [OF i ny] by auto
      have "grows h1 h3" by (rule grows_trans [OF b(3) g3(1)])
      then have g4: "grows h1 h'" using w(2,3) b(1) by (auto simp: grows_def agree_def)
      have nm: "agree (lr mt h1) h1 h'" by (rule grows_agree [OF g4]) (use g1(3) in auto)
      have t: "lr mt h' = lr mt h1" "lv mt h' = lv mt h1"
        using deep_copier.refs_frame [OF l nm] deep_copier.val_frame [OF l nm] by auto
      have lim: "hp_limit h \<le> hp_limit h1" "hp_limit h1 < hp_limit h2" "hp_limit h2 \<le> hp_limit h'"
        using g1(1) b g3(1) w(2) by (auto simp: grows_def)
      have "grows h h'" by (rule grows_trans [OF g1(1) g4])
      moreover have "list_val mv lv y h' = list_val mv lv x h"
        using Some t g1(2) w(1) s(2) g3(2) e(2) by (simp add: list_val_def y(3))
      moreover have "list_refs mr lr y h' = lr mt h1 \<union> insert b (?ir ys h3)"
        using t(1) w(1) s(1) by (simp add: list_refs_def y(3))
      moreover have "\<dots> \<subseteq> {hp_limit h..<hp_limit h'}"
      proof -
        have "lr mt h1 \<subseteq> {hp_limit h..<hp_limit h'}" using g1(3) by (rule order_trans) (use lim in auto)
        moreover have "?ir ys h3 \<subseteq> {hp_limit h..<hp_limit h'}" using g3(3) by (rule order_trans) (use lim w(2) in auto)
        ultimately show ?thesis using b(1) lim by simp
      qed
      ultimately show ?thesis by simp
    qed
  qed
  show ?thesis using f g by (rule deep_copierI)
qed

interpretation spec_copies: deep_copier spec_copy_into spec_refs spec_val
  by (rule spec_copier)

text \<open>Metadata that holds no pointer, such as a name, is copied by the assignment.\<close>

definition copy_plain :: "'v \<Rightarrow> ('m, 'l, 'e) heap \<Rightarrow> 'v \<times> ('m, 'l, 'e) heap" where
  "copy_plain v h = (v, h)"

lemma plain_copier: "deep_copier copy_plain (\<lambda>_ _. {}) (\<lambda>v _. v)"
  by (unfold_locales) (auto simp: copy_plain_def grows_refl)

interpretation list_copies: deep_copier "list_copy_into copy_plain copy_plain" "list_refs (\<lambda>_ _. {}) (\<lambda>_ _. {})" "list_val (\<lambda>v _. v) (\<lambda>v _. v)"
  by (rule list_copier [OF plain_copier plain_copier])

subsection \<open>Property\<close>

lemma list_deep_copy_apart:
  assumes "deep_copier mc mr mv" "deep_copier lc lr lv"
    and a: "hp_cells h a = Some (ListAt l)" "a < hp_limit h" and r: "list_refs mr lr l h \<subseteq> {..<hp_limit h}"
    and u: "list_copy_into mc lc l h = (u, h1)" and b: "alloc (ListAt u) h1 = (b, h')"
  shows "hp_cells h' b = Some (ListAt u) \<and> list_val mv lv u h' = list_val mv lv l h
    \<and> (\<forall>k. agree (- insert b (list_refs mr lr u h')) h' k \<longrightarrow> hp_cells k a = Some (ListAt l) \<and> list_val mv lv l k = list_val mv lv l h)
    \<and> (\<forall>k. agree (- insert a (list_refs mr lr l h)) h' k \<longrightarrow> hp_cells k b = Some (ListAt u) \<and> list_val mv lv u k = list_val mv lv l h)"
proof -
  note c = list_copier [OF assms(1,2)]
  have g: "grows h h1" "list_val mv lv u h1 = list_val mv lv l h" "list_refs mr lr u h1 \<subseteq> {hp_limit h..<hp_limit h1}"
    using deep_copier.copy_grows [OF c r u] deep_copier.copy_val [OF c r u] deep_copier.copy_refs [OF c r u] by auto
  have b': "b = hp_limit h1" "hp_cells h' b = Some (ListAt u)" "grows h1 h'" using alloc_facts [OF b] by auto
  have lim: "hp_limit h \<le> b" using g(1) b'(1) by (simp add: grows_def)
  have gh: "grows h h'" by (rule grows_trans [OF g(1) b'(3)])
  have n: "agree (list_refs mr lr u h1) h1 h'" by (rule grows_agree [OF b'(3)]) (use g(3) in auto)
  have ru: "list_refs mr lr u h' = list_refs mr lr u h1" "list_val mv lv u h' = list_val mv lv u h1"
    using deep_copier.refs_frame [OF c n] deep_copier.val_frame [OF c n] by auto
  have out: "c \<notin> insert b (list_refs mr lr u h')" if "c < hp_limit h" for c
    using that lim g(3) ru(1) by auto
  have "hp_cells k a = Some (ListAt l) \<and> list_val mv lv l k = list_val mv lv l h" if k: "agree (- insert b (list_refs mr lr u h')) h' k" for k
  proof -
    have s: "hp_cells k c = hp_cells h c" if "c < hp_limit h" for c
      using k out [OF that] gh that by (simp add: agree_def grows_def)
    then have "agree (list_refs mr lr l h) h k" using r by (auto simp: agree_def)
    from deep_copier.val_frame [OF c this] s [OF a(2)] a(1) show ?thesis by simp
  qed
  moreover have "hp_cells k b = Some (ListAt u) \<and> list_val mv lv u k = list_val mv lv l h" if k: "agree (- insert a (list_refs mr lr l h)) h' k" for k
  proof -
    have s: "hp_cells k c = hp_cells h' c" if "hp_limit h \<le> c" for c
    proof -
      have "c \<notin> insert a (list_refs mr lr l h)" using that a(2) r by auto
      then show ?thesis using k by (simp add: agree_def)
    qed
    then have "agree (list_refs mr lr u h') h' k" using g(3) ru(1) by (auto simp: agree_def)
    from deep_copier.val_frame [OF c this] s [OF lim] b'(2) g(2) ru(2) show ?thesis by simp
  qed
  moreover have "list_val mv lv u h' = list_val mv lv l h" using g(2) ru(2) by simp
  ultimately show ?thesis using b'(2) by blast
qed

text \<open>C40: A deep copy of a list of resources is a new list that reads the same and shares nothing: whatever is written into
  cells of one of the two, selectors and items included, the other reads as before. The metadata's
  own deep copies promise the same. A nil pointer gives a nil object.\<close>

theorem deep_copy_independent:
  assumes "deep_copier mc mr mv" "deep_copier lc lr lv"
    and "hp_cells h a = Some (ListAt l)" "a < hp_limit h" "list_refs mr lr l h \<subseteq> {..<hp_limit h}"
  shows "\<exists>b u h'. list_deep_copy_object mc lc (Some a) h = (Some (ListObject (Some b)), h') \<and> list_deep_copy_object mc lc None h = (None, h)
    \<and> hp_cells h' b = Some (ListAt u) \<and> list_val mv lv u h' = list_val mv lv l h
    \<and> (\<forall>k. agree (- insert b (list_refs mr lr u h')) h' k \<longrightarrow> hp_cells k a = Some (ListAt l) \<and> list_val mv lv l k = list_val mv lv l h)
    \<and> (\<forall>k. agree (- insert a (list_refs mr lr l h)) h' k \<longrightarrow> hp_cells k b = Some (ListAt u) \<and> list_val mv lv u k = list_val mv lv l h)"
proof -
  obtain u h1 where u: "list_copy_into mc lc l h = (u, h1)" by (cases "list_copy_into mc lc l h")
  obtain b h' where b: "alloc (ListAt u) h1 = (b, h')" by (cases "alloc (ListAt u) h1")
  have "list_deep_copy_object mc lc (Some a) h = (Some (ListObject (Some b)), h')" "list_deep_copy_object mc lc None h = (None, h)"
    using u b assms(3) by (simp_all add: list_deep_copy_object_def list_deep_copy_def new_from_def)
  with list_deep_copy_apart [OF assms u b] show ?thesis by blast
qed

text \<open>A list of one resource, which selects by one label; and the same after its copy's map was emptied.\<close>

definition sample_list :: "unit list_struct" where
  "sample_list = \<lparr>ls_type = \<lparr>tm_kind = ''ImageCacheList'', tm_api_version = []\<rparr>, ls_meta = (), ls_items = Some 1\<rparr>"

definition sample_cache :: "string cache_struct" where
  "sample_cache = \<lparr>cs_type = \<lparr>tm_kind = ''ImageCache'', tm_api_version = []\<rparr>, cs_meta = ''boot'',
     cs_spec = \<lparr>sp_selector = Some 0, sp_source = ''registry/image:1''\<rparr>\<rparr>"

definition sample_heap :: "(string, unit, unit) heap" where
  "sample_heap = \<lparr>hp_cells = [0 \<mapsto> MapAt [(''role'', ''worker'')], 1 \<mapsto> ArrayAt [sample_cache], 2 \<mapsto> ListAt sample_list], hp_limit = 3\<rparr>"

theorem deep_copy_independent_witness:
  "\<exists>b h'. list_deep_copy_object copy_plain copy_plain (Some 2) sample_heap = (Some (ListObject (Some b)), h') \<and>
     hp_cells h' 4 = Some (MapAt [(''role'', ''worker'')]) \<and>
     list_val (\<lambda>v _. v) (\<lambda>v _. v) sample_list (write_at 4 (MapAt []) h') = list_val (\<lambda>v _. v) (\<lambda>v _. v) sample_list sample_heap"
proof -
  have r: "list_refs (\<lambda>_ _. {}) (\<lambda>_ _. {}) sample_list sample_heap \<subseteq> {..<hp_limit sample_heap}"
    by (simp add: list_refs_def sample_list_def sample_heap_def array_at_def cache_refs_def sample_cache_def spec_refs_def)
  have l: "hp_cells sample_heap 2 = Some (ListAt sample_list)" "2 < hp_limit sample_heap" by (simp_all add: sample_heap_def)
  from deep_copy_independent [OF plain_copier plain_copier l r] obtain b u h'
    where c: "list_deep_copy_object copy_plain copy_plain (Some 2) sample_heap = (Some (ListObject (Some b)), h')"
      "hp_cells h' b = Some (ListAt u)"
      "\<And>k. agree (- insert b (list_refs (\<lambda>_ _. {}) (\<lambda>_ _. {}) u h')) h' k \<Longrightarrow>
        list_val (\<lambda>v _. v) (\<lambda>v _. v) sample_list k = list_val (\<lambda>v _. v) (\<lambda>v _. v) sample_list sample_heap" by blast
  have m: "hp_cells h' 4 = Some (MapAt [(''role'', ''worker'')])" "4 \<in> list_refs (\<lambda>_ _. {}) (\<lambda>_ _. {}) u h'"
    using c(1,2) by (auto simp: list_deep_copy_object_def list_deep_copy_def new_from_def list_copy_into_def cache_copy_into_def spec_copy_into_def
        copy_plain_def alloc_def write_at_def sample_heap_def sample_list_def sample_cache_def array_at_def map_at_def copy_map_def list_refs_def
        cache_refs_def spec_refs_def split: if_splits)
  have "agree (- insert b (list_refs (\<lambda>_ _. {}) (\<lambda>_ _. {}) u h')) h' (write_at 4 (MapAt []) h')"
    using m(2) by (auto simp: agree_def write_at_def)
  from c(3) [OF this] c(1) m(1) show ?thesis by blast
qed

end
