(* ===== verification/Pipe.thy ===== *)
theory Pipe
  imports Stream
begin

section \<open>The goroutine and the pipe of the layer stream (puller/stream.go)\<close>

text \<open>
  \<^verbatim>\<open>entries\<close> returns the reading end of an \<^verbatim>\<open>io.Pipe\<close> and leaves a goroutine at
  the writing end. Here the two run at their own pace: \<open>writer_step\<close> is one action of the goroutine, at
  the program points of \<^verbatim>\<open>writeEntries\<close> and \<^verbatim>\<open>copyEntries\<close>; the reader takes any part
  of what is in flight, or closes its end, at any time. It is shown that the reader sees what the
  synchronous \<open>stream_entries\<close> of \<open>Stream\<close> says, and that the goroutine ends with every layer closed.
  The bytes of a header, and those that end the archive, are one token each; content goes byte by byte.
\<close>

datatype token = Head string char | Byte char | Trailer

definition entry_tokens :: "tar_entry \<Rightarrow> token list" where
  "entry_tokens en = Head (te_name en) (te_flag en) # map Byte (concat (te_chunks en))"

abbreviation tokens :: "tar_entry list \<Rightarrow> token list" where
  "tokens ens \<equiv> concat (map entry_tokens ens)"

text \<open>Where the goroutine is. \<open>Heading\<close>, \<open>Passing\<close> and \<open>Ending\<close> wait for the reader inside a
  \<^verbatim>\<open>Write\<close>; \<open>Leaving\<close> is the deferred \<^verbatim>\<open>Close\<close> of a layer, with the error so far.\<close>

datatype writer =
    Listing
  | Ranging "layer list"
  | Reading layer "tar_entry list" "layer list"
  | Heading tar_entry layer "tar_entry list" "layer list"
  | Copying tar_entry "string list" layer "tar_entry list" "layer list"
  | Passing tar_entry "string list" layer "tar_entry list" "layer list"
  | Leaving "err option" layer "layer list"
  | Trailing
  | Ending
  | Returning "err option"
  | Gone

text \<open>The pipe: what the writer still has to hand over, what the reader got, whether the reader closed,
  what the writer closed with, and how many layers are open.\<close>

record pipe =
  pp_writer :: writer
  pp_flight :: "token list"
  pp_read :: "token list"
  pp_closed :: bool
  pp_end :: "err option"
  pp_open :: nat

definition new_pipe :: pipe where
  "new_pipe = \<lparr>pp_writer = Listing, pp_flight = [], pp_read = [], pp_closed = False, pp_end = None, pp_open = 0\<rparr>"

subsection \<open>Steps\<close>

text \<open>\<^verbatim>\<open>io.ErrClosedPipe\<close>, what a write answers once the reader closed.\<close>

definition closed_pipe :: err where
  "closed_pipe = Msg ''io: read/write on closed pipe''"

definition at :: "writer \<Rightarrow> pipe \<Rightarrow> pipe" where
  "at w s = s\<lparr>pp_writer := w\<rparr>"

text \<open>A \<^verbatim>\<open>Write\<close> fails at once when the reader has closed; else it waits, at \<open>w\<close>, until all
  was read or the reader closes.\<close>

definition pipe_put :: "token list \<Rightarrow> writer \<Rightarrow> writer \<Rightarrow> pipe \<Rightarrow> pipe" where
  "pipe_put ts w refused s = (if pp_closed s then at refused s else s\<lparr>pp_flight := ts, pp_writer := w\<rparr>)"

definition await :: "writer \<Rightarrow> writer \<Rightarrow> pipe \<Rightarrow> pipe option" where
  "await w refused s = (if pp_flight s = [] then Some (at w s)
     else if pp_closed s then Some (s\<lparr>pp_flight := [], pp_writer := refused\<rparr>)
     else None)"

definition head_error :: "err \<Rightarrow> err option" where
  "head_error e = Some (pull_error (Some e) ''passing on the header'')"

definition content_error :: "err \<Rightarrow> err option" where
  "content_error e = Some (pull_error (Some e) ''passing on the content'')"

definition trailer_error :: "err \<Rightarrow> err option" where
  "trailer_error e = Some (pull_error (Some e) ''closing the stream'')"

text \<open>The end of a layer: the archive's, then the digest's, once the rest was drained.\<close>

definition layer_end :: "layer \<Rightarrow> err option" where
  "layer_end l = (if ly_end l = Eof then map_option (\<lambda>d. pull_error (Some d) ''verifying a layer'') (ly_rest l)
     else Some (pull_error (Some (ly_end l)) ''reading a layer''))"

text \<open>After \<^verbatim>\<open>tr.Next\<close> gave an entry: refused, or its header is written.\<close>

definition pass_entry :: "(tar_entry \<Rightarrow> err option) \<Rightarrow> tar_entry \<Rightarrow> layer \<Rightarrow> tar_entry list \<Rightarrow> layer list \<Rightarrow> pipe \<Rightarrow> pipe" where
  "pass_entry header en l ens ls s =
     (if has_prefix (base (te_name en)) whiteout_prefix
      then at (Leaving (Some (pull_error None ''deletes a path of an earlier layer'')) l ls) s
      else (case header en of
          Some e \<Rightarrow> at (Leaving (head_error e) l ls) s
        | None \<Rightarrow> pipe_put [Head (te_name en) (te_flag en)] (Heading en l ens ls) (Leaving (head_error closed_pipe) l ls) s))"

definition leave_layer :: "err option \<Rightarrow> layer \<Rightarrow> layer list \<Rightarrow> writer" where
  "leave_layer e l ls = (case e of
     Some x \<Rightarrow> Returning (Some x)
   | None \<Rightarrow> (case ly_close l of Some c \<Rightarrow> Returning (Some (pull_error (Some c) ''closing a layer'')) | None \<Rightarrow> Ranging ls))"

text \<open>One action of the goroutine; \<open>None\<close> while it waits for the reader, and when it is over.\<close>

definition writer_step :: "(tar_entry \<Rightarrow> err option) \<Rightarrow> err option \<Rightarrow> layer list res \<Rightarrow> pipe \<Rightarrow> pipe option" where
  "writer_step header closing layers s = (case pp_writer s of
     Listing \<Rightarrow> Some (at (case layers of
         Inl e \<Rightarrow> Returning (Some (pull_error (Some e) ''listing the layers''))
       | Inr ls \<Rightarrow> Ranging ls) s)
   | Ranging [] \<Rightarrow> Some (at Trailing s)
   | Ranging (l # ls) \<Rightarrow> (case ly_open l of
         Some e \<Rightarrow> Some (at (Returning (Some (pull_error (Some e) ''opening a layer''))) s)
       | None \<Rightarrow> Some (at (Reading l (ly_entries l) ls) (s\<lparr>pp_open := Suc (pp_open s)\<rparr>)))
   | Reading l [] ls \<Rightarrow> Some (at (Leaving (layer_end l) l ls) s)
   | Reading l (en # ens) ls \<Rightarrow> Some (pass_entry header en l ens ls s)
   | Heading en l ens ls \<Rightarrow> await (Copying en (te_chunks en) l ens ls) (Leaving (head_error closed_pipe) l ls) s
   | Copying en [] l ens ls \<Rightarrow>
       Some (at (if te_end en \<noteq> Eof then Leaving (content_error (te_end en)) l ls else Reading l ens ls) s)
   | Copying en (c # cs) l ens ls \<Rightarrow>
       Some (if c = [] then at (Copying en cs l ens ls) s
         else pipe_put (map Byte c) (Passing en cs l ens ls) (Leaving (content_error closed_pipe) l ls) s)
   | Passing en cs l ens ls \<Rightarrow> await (Copying en cs l ens ls) (Leaving (content_error closed_pipe) l ls) s
   | Leaving e l ls \<Rightarrow> Some (at (leave_layer e l ls) (s\<lparr>pp_open := pp_open s - 1\<rparr>))
   | Trailing \<Rightarrow> Some (case closing of
         Some e \<Rightarrow> at (Returning (trailer_error e)) s
       | None \<Rightarrow> pipe_put [Trailer] Ending (Returning (trailer_error closed_pipe)) s)
   | Ending \<Rightarrow> await (Returning None) (Returning (trailer_error closed_pipe)) s
   | Returning e \<Rightarrow> Some (s\<lparr>pp_writer := Gone, pp_end := Some (case e of None \<Rightarrow> Eof | Some x \<Rightarrow> x)\<rparr>)
   | Gone \<Rightarrow> None)"

text \<open>A \<^verbatim>\<open>Read\<close> takes a part of what is in flight; the store may close at any time.\<close>

definition read_part :: "nat \<Rightarrow> pipe \<Rightarrow> pipe" where
  "read_part k s = s\<lparr>pp_read := pp_read s @ take k (pp_flight s), pp_flight := drop k (pp_flight s)\<rparr>"

inductive pipe_step :: "(tar_entry \<Rightarrow> err option) \<Rightarrow> err option \<Rightarrow> layer list res \<Rightarrow> pipe \<Rightarrow> pipe \<Rightarrow> bool"
  for header closing layers where
  writes: "writer_step header closing layers s = Some s' \<Longrightarrow> pipe_step header closing layers s s'"
| reads: "pp_flight s \<noteq> [] \<Longrightarrow> \<not> pp_closed s \<Longrightarrow> 0 < k \<Longrightarrow> pipe_step header closing layers s (read_part k s)"
| closes: "pipe_step header closing layers s (s\<lparr>pp_closed := True\<rparr>)"

inductive pipe_reach :: "(tar_entry \<Rightarrow> err option) \<Rightarrow> err option \<Rightarrow> layer list res \<Rightarrow> pipe \<Rightarrow> bool"
  for header closing layers where
  opened: "pipe_reach header closing layers new_pipe"
| moved: "pipe_reach header closing layers s \<Longrightarrow> pipe_step header closing layers s s' \<Longrightarrow> pipe_reach header closing layers s'"

inductive_cases pipe_stepE: "pipe_step header closing layers s s'"

subsection \<open>What the goroutine still owes\<close>

text \<open>From each of its program points, the tokens a goroutine that is never refused would still put
  into the pipe, and the error it would return: read off the synchronous functions.\<close>

definition owes_end :: "err option \<Rightarrow> token list \<times> err option" where
  "owes_end closing = (case closing of Some e \<Rightarrow> ([], trailer_error e) | None \<Rightarrow> ([Trailer], None))"

definition before :: "token list \<Rightarrow> token list \<times> err option \<Rightarrow> token list \<times> err option" where
  "before ts r = (ts @ fst r, snd r)"

lemma before_simps [simp]:
  "before [] r = r" "before ts (before us r) = before (ts @ us) r" "before ts (us, e) = (ts @ us, e)"
  "fst (before ts r) = ts @ fst r" "snd (before ts r) = snd r"
  by (simp_all add: before_def)

definition followed :: "tar_entry list \<times> err option \<Rightarrow> token list \<times> err option \<Rightarrow> token list \<times> err option" where
  "followed r next = (case r of (out, Some e) \<Rightarrow> (tokens out, Some e) | (out, None) \<Rightarrow> before (tokens out) next)"

definition owes_layers :: "(tar_entry \<Rightarrow> err option) \<Rightarrow> err option \<Rightarrow> layer list \<Rightarrow> token list \<times> err option" where
  "owes_layers header closing ls = followed (copy_layers header ls) (owes_end closing)"

definition owes_leave ::
  "(tar_entry \<Rightarrow> err option) \<Rightarrow> err option \<Rightarrow> err option \<Rightarrow> layer \<Rightarrow> layer list \<Rightarrow> token list \<times> err option" where
  "owes_leave header closing e l ls = (case e of
     Some x \<Rightarrow> ([], Some x)
   | None \<Rightarrow> (case ly_close l of
       Some c \<Rightarrow> ([], Some (pull_error (Some c) ''closing a layer''))
     | None \<Rightarrow> owes_layers header closing ls))"

definition owes_reading ::
  "(tar_entry \<Rightarrow> err option) \<Rightarrow> err option \<Rightarrow> layer \<Rightarrow> tar_entry list \<Rightarrow> layer list \<Rightarrow> token list \<times> err option" where
  "owes_reading header closing l ens ls =
     followed (copy_loop header ens (ly_end l) (ly_rest l)) (owes_leave header closing None l ls)"

definition owes_copying ::
  "(tar_entry \<Rightarrow> err option) \<Rightarrow> err option \<Rightarrow> tar_entry \<Rightarrow> string list \<Rightarrow> layer \<Rightarrow> tar_entry list \<Rightarrow> layer list \<Rightarrow> token list \<times> err option" where
  "owes_copying header closing en cs l ens ls = before (map Byte (concat cs))
     (if te_end en \<noteq> Eof then ([], content_error (te_end en)) else owes_reading header closing l ens ls)"

definition owes_all :: "(tar_entry \<Rightarrow> err option) \<Rightarrow> err option \<Rightarrow> layer list res \<Rightarrow> token list \<times> err option" where
  "owes_all header closing layers = (case layers of
     Inl e \<Rightarrow> ([], Some (pull_error (Some e) ''listing the layers''))
   | Inr ls \<Rightarrow> owes_layers header closing ls)"

fun owes :: "(tar_entry \<Rightarrow> err option) \<Rightarrow> err option \<Rightarrow> layer list res \<Rightarrow> writer \<Rightarrow> token list \<times> err option" where
  "owes header closing layers Listing = owes_all header closing layers"
| "owes header closing layers (Ranging ls) = owes_layers header closing ls"
| "owes header closing layers (Reading l ens ls) = owes_reading header closing l ens ls"
| "owes header closing layers (Heading en l ens ls) = owes_copying header closing en (te_chunks en) l ens ls"
| "owes header closing layers (Copying en cs l ens ls) = owes_copying header closing en cs l ens ls"
| "owes header closing layers (Passing en cs l ens ls) = owes_copying header closing en cs l ens ls"
| "owes header closing layers (Leaving e l ls) = owes_leave header closing e l ls"
| "owes header closing layers Trailing = owes_end closing"
| "owes header closing layers Ending = ([], None)"
| "owes header closing layers (Returning e) = ([], e)"
| "owes header closing layers Gone = ([], None)"

text \<open>One layer more, and one entry more.\<close>

lemma owes_layers_Nil [simp]: "owes_layers header closing [] = owes_end closing"
  by (cases "owes_end closing") (simp add: owes_layers_def followed_def)

lemma owes_layers_Cons:
  "owes_layers header closing (l # ls) = (case ly_open l of
     Some e \<Rightarrow> ([], Some (pull_error (Some e) ''opening a layer''))
   | None \<Rightarrow> owes_reading header closing l (ly_entries l) ls)"
  by (auto simp: owes_layers_def owes_reading_def owes_leave_def followed_def copy_entries_def split: option.split prod.split)

lemma owes_reading_Nil: "owes_reading header closing l [] ls = owes_leave header closing (layer_end l) l ls"
  by (auto simp: owes_reading_def layer_end_def owes_leave_def followed_def split: option.split prod.split)

lemma owes_reading_Cons:
  "owes_reading header closing l (en # ens) ls =
     (if has_prefix (base (te_name en)) whiteout_prefix then ([], Some (pull_error None ''deletes a path of an earlier layer''))
      else (case header en of
          Some e \<Rightarrow> ([], head_error e)
        | None \<Rightarrow> before [Head (te_name en) (te_flag en)] (owes_copying header closing en (te_chunks en) l ens ls)))"
  by (auto simp: owes_reading_def owes_copying_def followed_def head_error_def content_error_def entry_tokens_def Let_def
      split: option.split prod.split)

subsection \<open>The reader sees the synchronous stream\<close>

definition waits :: "writer \<Rightarrow> bool" where
  "waits w \<longleftrightarrow> (case w of Heading _ _ _ _ \<Rightarrow> True | Passing _ _ _ _ _ \<Rightarrow> True | Ending \<Rightarrow> True | _ \<Rightarrow> False)"

definition end_of :: "err option \<Rightarrow> err" where
  "end_of e = (case e of None \<Rightarrow> Eof | Some x \<Rightarrow> x)"

text \<open>Nothing was refused so far: what was read, what is in flight and what is owed is the stream.\<close>

definition on_course :: "(tar_entry \<Rightarrow> err option) \<Rightarrow> err option \<Rightarrow> layer list res \<Rightarrow> pipe \<Rightarrow> bool" where
  "on_course header closing layers s \<longleftrightarrow>
     (if pp_writer s = Gone
      then pp_read s = fst (owes_all header closing layers) \<and> pp_end s = Some (end_of (snd (owes_all header closing layers)))
      else before (pp_read s @ pp_flight s) (owes header closing layers (pp_writer s)) = owes_all header closing layers)"

text \<open>A write was refused: the reader has closed, and an error is on its way.\<close>

definition erring :: "writer \<Rightarrow> bool" where
  "erring w \<longleftrightarrow> (case w of Leaving e _ _ \<Rightarrow> e \<noteq> None \<and> e \<noteq> Some Eof | Returning e \<Rightarrow> e \<noteq> None \<and> e \<noteq> Some Eof | _ \<Rightarrow> False)"

definition given_up :: "(tar_entry \<Rightarrow> err option) \<Rightarrow> err option \<Rightarrow> layer list res \<Rightarrow> pipe \<Rightarrow> bool" where
  "given_up header closing layers s \<longleftrightarrow> pp_closed s \<and> prefix (pp_read s) (fst (owes_all header closing layers))
     \<and> (if pp_writer s = Gone then pp_end s \<noteq> Some Eof else erring (pp_writer s))"

definition pipe_inv :: "(tar_entry \<Rightarrow> err option) \<Rightarrow> err option \<Rightarrow> layer list res \<Rightarrow> pipe \<Rightarrow> bool" where
  "pipe_inv header closing layers s \<longleftrightarrow> (pp_flight s = [] \<or> waits (pp_writer s)) \<and> (pp_end s = None \<longleftrightarrow> pp_writer s \<noteq> Gone)
     \<and> (on_course header closing layers s \<or> given_up header closing layers s)"

lemmas owes_eqs = owes_layers_Cons owes_reading_Nil owes_reading_Cons owes_all_def owes_end_def

lemmas step_defs = writer_step_def at_def pipe_put_def await_def pass_entry_def leave_layer_def

lemma pipe_inv_new: "pipe_inv header closing layers new_pipe"
  by (simp add: pipe_inv_def on_course_def new_pipe_def waits_def)

text \<open>A refused write leaves the goroutine with an error to return, whatever it was writing.\<close>

lemma no_end: "head_error e \<noteq> Some Eof" "content_error e \<noteq> Some Eof" "trailer_error e \<noteq> Some Eof"
  "head_error e \<noteq> None" "content_error e \<noteq> None" "trailer_error e \<noteq> None"
  by (simp_all add: head_error_def content_error_def trailer_error_def pull_error_def)

lemma erring_errors: "erring (Leaving (head_error e) l ls)" "erring (Leaving (content_error e) l ls)" "erring (Returning (trailer_error e))"
  by (simp_all add: erring_def no_end)

lemma on_course_prefix: "on_course header closing layers s \<Longrightarrow> prefix (pp_read s) (fst (owes_all header closing layers))"
  by (auto simp: on_course_def before_def prefix_def split: if_splits) (metis append.assoc fst_conv)

lemma on_course_open [simp]: "on_course header closing layers (s\<lparr>pp_open := n\<rparr>) = on_course header closing layers s"
  by (simp add: on_course_def)

text \<open>The three ways to go on: without the pipe, with a new write, and after a write.\<close>

lemma goes_on:
  assumes "on_course header closing layers s" "pp_flight s = []" "pp_end s = None" "pp_writer s \<noteq> Gone" "w \<noteq> Gone"
    and "owes header closing layers w = owes header closing layers (pp_writer s)"
  shows "pipe_inv header closing layers (at w s)"
  using assms by (simp add: pipe_inv_def on_course_def at_def)

lemma goes_on_put:
  assumes "on_course header closing layers s" "pp_flight s = []" "pp_end s = None" "pp_writer s \<noteq> Gone" "waits w" "erring w'"
    and "owes header closing layers (pp_writer s) = before ts (owes header closing layers w)"
  shows "pipe_inv header closing layers (pipe_put ts w w' s)"
proof -
  have "w \<noteq> Gone" "w' \<noteq> Gone" using assms(5,6) by (auto simp: waits_def erring_def)
  then show ?thesis using assms on_course_prefix [OF assms(1)]
    by (auto simp: pipe_inv_def on_course_def given_up_def pipe_put_def at_def)
qed

lemma goes_on_await:
  assumes "await w w' s = Some s'" "on_course header closing layers s" "pp_end s = None" "pp_writer s \<noteq> Gone" "w \<noteq> Gone" "erring w'"
    and "owes header closing layers w = owes header closing layers (pp_writer s)"
  shows "pipe_inv header closing layers s'"
proof -
  have "w' \<noteq> Gone" using assms(6) by (auto simp: erring_def)
  then show ?thesis using assms on_course_prefix [OF assms(2)]
    by (auto simp: pipe_inv_def on_course_def given_up_def await_def at_def split: if_splits)
qed

lemma owes_leave_errors [simp]:
  "owes_leave header closing (Some x) l ls = ([], Some x)"
  "owes_leave header closing (head_error e) l ls = ([], head_error e)"
  "owes_leave header closing (content_error e) l ls = ([], content_error e)"
  by (simp_all add: owes_leave_def head_error_def content_error_def)

lemma pass_entry_inv:
  assumes "on_course header closing layers s" "pp_flight s = []" "pp_end s = None" "pp_writer s = Reading l (en # ens) ls"
  shows "pipe_inv header closing layers (pass_entry header en l ens ls s)"
  using assms unfolding pass_entry_def
  by (auto intro!: goes_on goes_on_put simp: owes_reading_Cons waits_def erring_errors split: option.split)

lemma on_course_step:
  assumes c: "on_course header closing layers s" and f: "pp_flight s = [] \<or> waits (pp_writer s)" and e: "pp_end s = None \<longleftrightarrow> pp_writer s \<noteq> Gone"
    and st: "writer_step header closing layers s = Some s'"
  shows "pipe_inv header closing layers s'"
proof (cases "pp_writer s")
  case Listing
  with c f e st show ?thesis
    by (cases layers) (auto simp: writer_step_def waits_def owes_all_def intro!: goes_on)
next
  case (Ranging ls)
  show ?thesis
  proof (cases ls)
    case Nil
    with Ranging c f e st show ?thesis by (auto simp: writer_step_def waits_def intro!: goes_on)
  next
    case (Cons l ls')
    with Ranging c f e st show ?thesis
      by (cases "ly_open l") (auto simp: writer_step_def waits_def owes_layers_Cons intro!: goes_on)
  qed
next
  case (Reading l ens ls)
  show ?thesis
  proof (cases ens)
    case Nil
    with Reading c f e st show ?thesis by (auto simp: writer_step_def waits_def owes_reading_Nil intro!: goes_on)
  next
    case (Cons en ens')
    with Reading c f e st show ?thesis by (auto simp: writer_step_def waits_def intro!: pass_entry_inv)
  qed
next
  case (Heading en l ens ls)
  with st have "await (Copying en (te_chunks en) l ens ls) (Leaving (head_error closed_pipe) l ls) s = Some s'"
    by (simp add: writer_step_def)
  then show ?thesis by (rule goes_on_await) (use Heading c e in \<open>simp_all add: erring_errors\<close>)
next
  case (Copying en cs l ens ls)
  show ?thesis
  proof (cases cs)
    case Nil
    with Copying c f e st show ?thesis
      by (cases "te_end en = Eof") (auto simp: writer_step_def waits_def owes_copying_def intro!: goes_on)
  next
    case (Cons k cs')
    with Copying c f e st show ?thesis
      by (auto simp: writer_step_def waits_def owes_copying_def erring_errors intro!: goes_on goes_on_put)
  qed
next
  case (Passing en cs l ens ls)
  with st have "await (Copying en cs l ens ls) (Leaving (content_error closed_pipe) l ls) s = Some s'"
    by (simp add: writer_step_def)
  then show ?thesis by (rule goes_on_await) (use Passing c e in \<open>simp_all add: erring_errors\<close>)
next
  case (Leaving x l ls)
  with c f e st show ?thesis
    by (auto simp: writer_step_def waits_def leave_layer_def owes_leave_def intro!: goes_on split: option.splits)
next
  case Trailing
  with c f e st show ?thesis
    by (cases closing) (auto simp: writer_step_def waits_def owes_end_def erring_errors intro!: goes_on goes_on_put)
next
  case Ending
  with st have "await (Returning None) (Returning (trailer_error closed_pipe)) s = Some s'" by (simp add: writer_step_def)
  then show ?thesis by (rule goes_on_await) (use Ending c e in \<open>simp_all add: erring_errors\<close>)
next
  case (Returning x)
  with c f have "owes_all header closing layers = (pp_read s, x)" by (simp add: on_course_def waits_def)
  with Returning f e st show ?thesis by (auto simp: writer_step_def waits_def pipe_inv_def on_course_def end_of_def)
next
  case Gone
  with st show ?thesis by (simp add: writer_step_def)
qed

lemma given_up_step:
  assumes "given_up header closing layers s" "pp_flight s = []" "pp_end s = None \<longleftrightarrow> pp_writer s \<noteq> Gone"
    and "writer_step header closing layers s = Some s'"
  shows "pipe_inv header closing layers s'"
  using assms
  by (cases "pp_writer s")
    (auto simp: pipe_inv_def given_up_def writer_step_def erring_def leave_layer_def at_def split: option.splits)

lemma pipe_inv_writes:
  assumes "pipe_inv header closing layers s" "writer_step header closing layers s = Some s'"
  shows "pipe_inv header closing layers s'"
proof (cases "on_course header closing layers s")
  case True
  with assms show ?thesis using on_course_step by (auto simp: pipe_inv_def)
next
  case False
  with assms(1) have g: "given_up header closing layers s" by (simp add: pipe_inv_def)
  then have "\<not> waits (pp_writer s)" by (auto simp: given_up_def waits_def erring_def split: writer.splits if_splits)
  with assms(1) have "pp_flight s = []" by (simp add: pipe_inv_def)
  with given_up_step [OF g _ _ assms(2)] assms(1) show ?thesis by (simp add: pipe_inv_def)
qed

lemma pipe_inv_reads:
  assumes "pipe_inv header closing layers s" "\<not> pp_closed s" "pp_flight s \<noteq> []"
  shows "pipe_inv header closing layers (read_part k s)"
proof -
  have "on_course header closing layers s" "waits (pp_writer s)" using assms by (auto simp: pipe_inv_def given_up_def)
  then show ?thesis using assms(1) by (auto simp: pipe_inv_def on_course_def read_part_def waits_def)
qed

lemma pipe_inv_closes: "pipe_inv header closing layers s \<Longrightarrow> pipe_inv header closing layers (s\<lparr>pp_closed := True\<rparr>)"
  by (auto simp: pipe_inv_def on_course_def given_up_def)

lemma pipe_reach_inv: "pipe_reach header closing layers s \<Longrightarrow> pipe_inv header closing layers s"
proof (induction rule: pipe_reach.induct)
  case opened
  show ?case by (rule pipe_inv_new)
next
  case (moved s s')
  from moved(2) show ?case
    by (rule pipe_stepE) (use moved(3) pipe_inv_writes pipe_inv_reads pipe_inv_closes in auto)
qed

text \<open>The synchronous functions, in tokens.\<close>

lemma owes_all_stream:
  assumes "stream_entries header closing layers = (out, fin)"
  shows "fst (owes_all header closing layers) = tokens out @ (if fin = Eof then [Trailer] else [])"
    and "end_of (snd (owes_all header closing layers)) = fin"
proof -
  obtain out' e where w: "write_entries header closing layers = (out', e)" by fastforce
  have some: "x \<noteq> Eof" if "e = Some x" for x using that w write_entries_error by blast
  have f: "out = out'" "fin = end_of e" using assms w by (auto simp: stream_entries_def end_of_def split: option.splits)
  have "owes_all header closing layers = (tokens out' @ (if e = None then [Trailer] else []), e)"
    using w by (auto simp: write_entries_def owes_all_def owes_layers_def owes_end_def followed_def trailer_error_def
        split: sum.splits prod.splits option.splits)
  then show "fst (owes_all header closing layers) = tokens out @ (if fin = Eof then [Trailer] else [])"
    and "end_of (snd (owes_all header closing layers)) = fin"
    using f some by (cases e; simp add: end_of_def)+
qed

text \<open>C22: The pipe shows the reader the synchronous stream. In every interleaving of the goroutine with a store
  that reads any part of what is there and closes when it likes, what was read is a part from the
  start of the entries the synchronous function gives. A store that did not close and finds the end
  has read them all, and finds the end that function gives; and a bare end of file is found by
  nobody before everything, trailer included, was read.\<close>

theorem pipe_is_synchronous:
  assumes "pipe_reach header closing layers s" "stream_entries header closing layers = (out, fin)"
  shows "prefix (pp_read s) (tokens out @ (if fin = Eof then [Trailer] else []))
    \<and> (pp_end s \<noteq> None \<longrightarrow> \<not> pp_closed s \<longrightarrow> pp_end s = Some fin \<and> pp_read s = tokens out @ (if fin = Eof then [Trailer] else []))
    \<and> (pp_end s = Some Eof \<longrightarrow> fin = Eof \<and> pp_read s = tokens out @ [Trailer])"
proof -
  note o = owes_all_stream [OF assms(2)]
  have i: "pipe_inv header closing layers s" by (rule pipe_reach_inv [OF assms(1)])
  then have "prefix (pp_read s) (fst (owes_all header closing layers))"
    using on_course_prefix by (auto simp: pipe_inv_def given_up_def)
  moreover have "on_course header closing layers s" if "pp_end s \<noteq> None" "\<not> pp_closed s \<or> pp_end s = Some Eof"
    using i that by (auto simp: pipe_inv_def given_up_def split: if_splits)
  ultimately show ?thesis using i o by (auto simp: pipe_inv_def on_course_def)
qed

subsection \<open>The goroutine ends\<close>

text \<open>The actions left from each program point, at most.\<close>

definition entry_work :: "tar_entry \<Rightarrow> nat" where
  "entry_work en = 3 + 2 * length (te_chunks en)"

definition layers_work :: "layer list \<Rightarrow> nat" where
  "layers_work ls = (\<Sum>l\<leftarrow>ls. 3 + (\<Sum>en\<leftarrow>ly_entries l. entry_work en))"

definition goroutine_work :: "layer list res \<Rightarrow> nat" where
  "goroutine_work layers = 5 + (case layers of Inl _ \<Rightarrow> 0 | Inr ls \<Rightarrow> layers_work ls)"

definition reading_work :: "tar_entry list \<Rightarrow> layer list \<Rightarrow> nat" where
  "reading_work ens ls = (\<Sum>en\<leftarrow>ens. entry_work en) + 6 + layers_work ls"

fun work :: "layer list res \<Rightarrow> writer \<Rightarrow> nat" where
  "work layers Listing = goroutine_work layers"
| "work layers (Ranging ls) = 4 + layers_work ls"
| "work layers (Reading l ens ls) = reading_work ens ls"
| "work layers (Heading en l ens ls) = 2 + 2 * length (te_chunks en) + reading_work ens ls"
| "work layers (Copying en cs l ens ls) = 1 + 2 * length cs + reading_work ens ls"
| "work layers (Passing en cs l ens ls) = 2 + 2 * length cs + reading_work ens ls"
| "work layers (Leaving e l ls) = 5 + layers_work ls"
| "work layers Trailing = 3"
| "work layers Ending = 2"
| "work layers (Returning e) = 1"
| "work layers Gone = 0"

lemma writer_step_work: "writer_step header closing layers s = Some s' \<Longrightarrow> work layers (pp_writer s') < work layers (pp_writer s)"
  by (cases "pp_writer s")
    (auto simp: step_defs goroutine_work_def reading_work_def layers_work_def entry_work_def split: list.splits option.splits sum.splits if_splits)

definition in_layer :: "writer \<Rightarrow> bool" where
  "in_layer w \<longleftrightarrow> (case w of Reading _ _ _ \<Rightarrow> True | Heading _ _ _ _ \<Rightarrow> True | Copying _ _ _ _ _ \<Rightarrow> True | Passing _ _ _ _ _ \<Rightarrow> True
     | Leaving _ _ _ \<Rightarrow> True | _ \<Rightarrow> False)"

text \<open>One layer is open while the goroutine is in it, and none otherwise.\<close>

definition open_ok :: "pipe \<Rightarrow> bool" where
  "open_ok s \<longleftrightarrow> pp_open s = (if in_layer (pp_writer s) then 1 else 0)"

lemma open_ok_step: "open_ok s \<Longrightarrow> writer_step header closing layers s = Some s' \<Longrightarrow> open_ok s'"
  by (cases "pp_writer s") (auto simp: step_defs open_ok_def in_layer_def split: list.splits option.splits sum.splits if_splits)

lemma pipe_reach_open: "pipe_reach header closing layers s \<Longrightarrow> open_ok s \<and> work layers (pp_writer s) \<le> goroutine_work layers"
proof (induction rule: pipe_reach.induct)
  case opened
  show ?case by (simp add: open_ok_def new_pipe_def in_layer_def)
next
  case (moved s s')
  from moved(2) show ?case
  proof (rule pipe_stepE)
    assume w: "writer_step header closing layers s = Some s'"
    from writer_step_work [OF w] open_ok_step [OF _ w] moved(3) show ?thesis by simp
  qed (use moved(3) in \<open>auto simp: open_ok_def read_part_def\<close>)
qed

lemma writer_step_closed: "writer_step header closing layers s = Some s' \<Longrightarrow> pp_closed s' = pp_closed s \<and> pp_read s' = pp_read s"
  by (cases "pp_writer s") (auto simp: step_defs split: list.splits option.splits sum.splits if_splits)

lemma writer_waits: "writer_step header closing layers s = None \<Longrightarrow> pp_writer s \<noteq> Gone \<Longrightarrow> pp_flight s \<noteq> [] \<and> \<not> pp_closed s"
  by (cases "pp_writer s") (auto simp: step_defs split: list.splits option.splits sum.splits if_splits)

text \<open>The goroutine with a reader that reads whenever it waits for one, and does nothing once it closed.\<close>

fun attended :: "(tar_entry \<Rightarrow> err option) \<Rightarrow> err option \<Rightarrow> layer list res \<Rightarrow> nat \<Rightarrow> pipe \<Rightarrow> pipe" where
  "attended header closing layers 0 s = s"
| "attended header closing layers (Suc n) s = (case writer_step header closing layers s of
     Some s' \<Rightarrow> attended header closing layers n s'
   | None \<Rightarrow> if pp_flight s = [] \<or> pp_closed s then s else attended header closing layers n (read_part (length (pp_flight s)) s))"

lemma attended_ends:
  assumes "pipe_reach header closing layers s" "2 * work layers (pp_writer s) + (if pp_flight s = [] then 0 else 1) \<le> n"
  shows "pipe_reach header closing layers (attended header closing layers n s) \<and> pp_writer (attended header closing layers n s) = Gone
    \<and> pp_closed (attended header closing layers n s) = pp_closed s"
  using assms
proof (induction n arbitrary: s)
  case 0
  then have "work layers (pp_writer s) = 0" by simp
  then have "pp_writer s = Gone" by (cases "pp_writer s") (simp_all add: goroutine_work_def reading_work_def)
  with 0 show ?case by simp
next
  case (Suc n)
  show ?case
  proof (cases "writer_step header closing layers s")
    case (Some s')
    with Suc.prems(2) writer_step_work [OF Some] have "2 * work layers (pp_writer s') + (if pp_flight s' = [] then 0 else 1) \<le> n" by auto
    from Suc.IH [OF pipe_reach.moved [OF Suc.prems(1) pipe_step.writes [OF Some]] this] show ?thesis
      using Some writer_step_closed [OF Some] by simp
  next
    case None
    show ?thesis
    proof (cases "pp_writer s = Gone")
      case True
      then have "pp_flight s = []" using pipe_reach_inv [OF Suc.prems(1)] by (simp add: pipe_inv_def waits_def)
      with True None Suc.prems(1) show ?thesis by simp
    next
      case False
      let ?r = "read_part (length (pp_flight s)) s"
      from writer_waits [OF None False] have w: "pp_flight s \<noteq> []" "\<not> pp_closed s" by simp_all
      then have "pipe_reach header closing layers ?r"
        by (intro pipe_reach.moved [OF Suc.prems(1)] pipe_step.reads) simp_all
      moreover have "2 * work layers (pp_writer ?r) + (if pp_flight ?r = [] then 0 else 1) \<le> n"
        using Suc.prems(2) w by (simp add: read_part_def)
      ultimately show ?thesis using Suc.IH [of ?r] None w by (simp add: read_part_def)
    qed
  qed
qed

lemma attended_closed: "pp_closed s \<Longrightarrow> pp_read (attended header closing layers n s) = pp_read s"
  by (induction n arbitrary: s) (auto split: option.split dest: writer_step_closed)

text \<open>C23: The goroutine never stays behind. From wherever the store leaves it, in any interleaving, it comes to
  its end within a bound that depends on the layers alone, with every layer it opened closed: a store
  that closed early need do nothing more, as the next write is refused, and one that keeps reading
  gets the whole synchronous stream and its end.\<close>

theorem goroutine_ends:
  assumes "pipe_reach header closing layers s" "stream_entries header closing layers = (out, fin)" "2 * goroutine_work layers < n"
  shows "pp_writer (attended header closing layers n s) = Gone \<and> pp_open (attended header closing layers n s) = 0
    \<and> pp_open s \<le> 1
    \<and> (pp_closed s \<longrightarrow> pp_read (attended header closing layers n s) = pp_read s)
    \<and> (\<not> pp_closed s \<longrightarrow> pp_end (attended header closing layers n s) = Some fin
        \<and> pp_read (attended header closing layers n s) = tokens out @ (if fin = Eof then [Trailer] else []))"
proof -
  let ?t = "attended header closing layers n s"
  from pipe_reach_open [OF assms(1)] have w: "open_ok s" "work layers (pp_writer s) \<le> goroutine_work layers" by simp_all
  have n: "2 * work layers (pp_writer s) + (if pp_flight s = [] then 0 else 1) \<le> n" using w(2) assms(3) by simp
  from attended_ends [OF assms(1) n] have t: "pipe_reach header closing layers ?t" "pp_writer ?t = Gone" "pp_closed ?t = pp_closed s" by simp_all
  from pipe_reach_inv [OF t(1)] t(2) have i: "pp_end ?t \<noteq> None" "\<not> pp_closed ?t \<Longrightarrow> on_course header closing layers ?t"
    by (auto simp: pipe_inv_def given_up_def)
  have o: "pp_open ?t = 0" using pipe_reach_open [OF t(1)] t(2) by (simp add: open_ok_def in_layer_def)
  show ?thesis
    using t i o w(1) attended_closed [of s] owes_all_stream [OF assms(2)] by (auto simp: on_course_def open_ok_def)
qed

subsection \<open>One layer with one file\<close>

definition sample_piped :: layer where
  "sample_piped = \<lparr>ly_open = None,
     ly_entries = [\<lparr>te_name = ''a'', te_flag = type_reg, te_chunks = [''xy'', ''z''], te_end = Eof\<rparr>],
     ly_end = Eof, ly_rest = None, ly_close = None\<rparr>"

lemma sample_kept: "\<not> has_prefix (base ''a'') whiteout_prefix"
  by code_simp

lemma sample_stream: "stream_entries (\<lambda>_. None) None (Inr [sample_piped]) = (ly_entries sample_piped, Eof)"
  by (simp add: stream_entries_def write_entries_def copy_entries_def sample_piped_def sample_kept)

lemma sample_work: "goroutine_work (Inr [sample_piped]) = 15"
  by (simp add: goroutine_work_def layers_work_def entry_work_def sample_piped_def)

lemma sample_tokens: "tokens (ly_entries sample_piped) = [Head ''a'' type_reg, Byte (CHR ''x''), Byte (CHR ''y''), Byte (CHR ''z'')]"
  by (simp add: sample_piped_def entry_tokens_def)

text \<open>A store that read it all.\<close>

theorem pipe_is_synchronous_witness:
  "\<exists>s. pipe_reach (\<lambda>_. None) None (Inr [sample_piped]) s \<and> pp_end s = Some Eof
     \<and> pp_read s = [Head ''a'' type_reg, Byte (CHR ''x''), Byte (CHR ''y''), Byte (CHR ''z''), Trailer]"
proof -
  let ?s = "attended (\<lambda>_. None) None (Inr [sample_piped]) 30 new_pipe"
  have "2 * work (Inr [sample_piped]) (pp_writer new_pipe) + (if pp_flight new_pipe = [] then 0 else 1) \<le> 30"
    by (simp add: new_pipe_def sample_work)
  from attended_ends [OF pipe_reach.opened this, of "\<lambda>_. None" None]
  have r: "pipe_reach (\<lambda>_. None) None (Inr [sample_piped]) ?s" "pp_writer ?s = Gone" "\<not> pp_closed ?s"
    by (simp_all add: new_pipe_def)
  then have "pp_end ?s \<noteq> None" using pipe_reach_inv [OF r(1)] by (simp add: pipe_inv_def)
  with pipe_is_synchronous [OF r(1) sample_stream] r sample_tokens show ?thesis by auto
qed

text \<open>A store that closed with the header in flight and read nothing.\<close>

theorem goroutine_ends_witness:
  "\<exists>s. pipe_reach (\<lambda>_. None) None (Inr [sample_piped]) s \<and> pp_flight s = [Head ''a'' type_reg] \<and> pp_open s = 1 \<and> pp_closed s
     \<and> pp_writer (attended (\<lambda>_. None) None (Inr [sample_piped]) 31 s) = Gone
     \<and> pp_open (attended (\<lambda>_. None) None (Inr [sample_piped]) 31 s) = 0
     \<and> pp_read (attended (\<lambda>_. None) None (Inr [sample_piped]) 31 s) = []"
proof -
  let ?en = "hd (ly_entries sample_piped)"
  let ?at = "\<lambda>w fl k. \<lparr>pp_writer = w, pp_flight = fl, pp_read = [], pp_closed = False, pp_end = None, pp_open = k\<rparr>"
  let ?s = "?at (Heading ?en sample_piped [] []) [Head ''a'' type_reg] 1"
  note defs = writer_step_def pass_entry_def pipe_put_def at_def sample_piped_def sample_kept
  have w: "pipe_reach (\<lambda>_. None) None (Inr [sample_piped]) s'"
    if "pipe_reach (\<lambda>_. None) None (Inr [sample_piped]) s" "writer_step (\<lambda>_. None) None (Inr [sample_piped]) s = Some s'" for s s'
    using that by (blast intro: pipe_reach.moved pipe_step.writes)
  have "pipe_reach (\<lambda>_. None) None (Inr [sample_piped]) (?at (Ranging [sample_piped]) [] 0)"
    by (rule w [OF pipe_reach.opened]) (simp add: defs new_pipe_def)
  then have "pipe_reach (\<lambda>_. None) None (Inr [sample_piped]) (?at (Reading sample_piped (ly_entries sample_piped) []) [] 1)"
    by (rule w) (simp add: defs)
  then have "pipe_reach (\<lambda>_. None) None (Inr [sample_piped]) ?s" by (rule w) (simp add: defs)
  then have r: "pipe_reach (\<lambda>_. None) None (Inr [sample_piped]) (?s\<lparr>pp_closed := True\<rparr>)" by (blast intro: pipe_reach.moved pipe_step.closes)
  from goroutine_ends [OF r sample_stream, of 31] r show ?thesis
    by (intro exI [of _ "?s\<lparr>pp_closed := True\<rparr>"]) (simp add: sample_work)
qed

end
