(* ===== verification/Spec2Isabelle.thy ===== *)
theory Spec2Isabelle
  imports Seeding Unmounted Ctl Startup Racy TempLock Shelf DeepCopy Pipe
begin

text \<open>
  The agent of image-cache (the Go module \<^verbatim>\<open>agent/\<close>) keeps on every node the boot archives
  its \<^verbatim>\<open>ImageCache\<close> resources ask for: it pulls each image, extracts its files into a directory of
  the cache path, tells the cluster through node labels what is there, and removes what nothing asks
  for any more. The command \<^verbatim>\<open>imagecachectl\<close> fills one directory from outside, and the agent
  adopts it later. This is the root of the development; it holds no definitions.

  \<^bold>\<open>The parts of the program and their theories\<close>

  What every part stands on.
  \<^item> \<open>Prelude\<close>: strings and association lists; the calculus for effectful code. A program is a
    state-monad function; \<open>wp\<close> is its weakest precondition; the locale \<open>preorder_steps\<close> carries a
    reflexive and transitive relation through a program (\<open>looks\<close>: only time passes;
    \<open>quiet\<close>: the tree may change; \<open>tends\<close>: the memory may; \<open>pass_frame\<close>, \<open>step_on\<close>:
    what a pass may touch).
  \<^item> \<open>GoErrors\<close>: error chains, aggregates and \<^verbatim>\<open>errors.Is\<close>; the sentinel errors of every
    package, \<^verbatim>\<open>controller/errors.go\<close> included.
  \<^item> \<open>GoPath\<close>: \<^verbatim>\<open>filepath\<close>. \<open>FileSystem\<close>, \<open>Syscalls\<close>: a tree of
    directories, files, links and special files, and the calls of \<^verbatim>\<open>os\<close> and \<^verbatim>\<open>unix\<close>. Every
    call takes a tick of a schedule which may make it fail, with any partial effect the call can
    leave; it also says when the context is cancelled, what the clock shows, and what is drawn at random. A
    property of all schedules covers every error path, and a crash, which is a schedule in which
    everything fails from some tick on.
  \<^item> \<open>Sha256\<close>, \<open>Json\<close>: the standard library's digest and the part of \<^verbatim>\<open>encoding/json\<close> the
    sentinel goes through, both executable. \<open>Flags\<close>: its \<^verbatim>\<open>flag\<close> package, with the
    booleans and the durations it reads.

  The store, \<^verbatim>\<open>internal/cache/\<close>.
  \<^item> \<open>Content\<close>: \<^verbatim>\<open>content.go\<close>, \<^verbatim>\<open>key_linux.go\<close> and
    \<^verbatim>\<open>key_other.go\<close>, the digests remembered per file and the comparison of a directory with its record. \<open>Memory\<close>: a remembered digest is the one of
    the content. \<open>Racy\<close>: how far it stays so whatever else writes to the file, from its extraction on, step by step.
  \<^item> \<open>Sentinel\<close>: the record of a directory as JSON, and its round trip. \<open>ReadBack\<close>: what was read,
    whoever wrote it, can be written back as it is.
  \<^item> \<open>Store\<close>: every function of \<^verbatim>\<open>store.go\<close>. \<open>Extract\<close>: what an extraction does on
    success, on failure, and when it succeeds. \<open>StateSpec\<close>, \<open>StateSound\<close>: what
    \<^verbatim>\<open>State\<close> answers, without failures and with them. \<open>Collect\<close>: collection and sweeping.
    \<open>Adopt\<close>: taking over a seeded directory. \<open>TempLock\<close>: the temporary directories and
    their locks under several processes at once. \<open>RawPath\<close>: a cache path that is not clean.
  \<^item> \<open>Shelf\<close>: the abstract store, a map from names to images, and the refinement.

  Pulling and filling.
  \<^item> \<open>Stream\<close>, \<open>Puller\<close>: \<^verbatim>\<open>puller/stream.go\<close> and \<^verbatim>\<open>puller.go\<close>; the interface
    \<^verbatim>\<open>Puller\<close> is the record \<open>puller\<close> with the locale \<open>image_source\<close>. \<open>Pipe\<close>: the
    goroutine of the stream, its pipe and its reader, step by step.
  \<^item> \<open>Fill\<close>: \<^verbatim>\<open>fill/fill.go\<close>, the sequence the agent and the command share, over any
    \<open>image_source\<close>.

  The agent, \<^verbatim>\<open>internal/controller/\<close> and \<^verbatim>\<open>cmd/manager\<close>.
  \<^item> \<open>Labels\<close>: \<^verbatim>\<open>labels.go\<close>. \<open>FSWatch\<close>: \<^verbatim>\<open>fswatch.go\<close>, with the
    interleavings of its loop, the consumer of its channel and the passes.
  \<^item> \<open>Reconcile\<close>: \<^verbatim>\<open>node_reconciler.go\<close>. \<open>Pass\<close>, \<open>PassSafety\<close>: one pass under
    any schedule. \<open>PassLiveness\<close>: a pass that meets no failure. \<open>PassSteady\<close>: the pass after it has nothing
    to do. \<open>Unmounted\<close>: a pass without the cache path.
  \<^item> \<open>Manager\<close>: \<^verbatim>\<open>cmd/manager/main.go\<close> from the values of its flags. \<open>Startup\<close>: the
    flags it registers, and the process from its arguments.

  The API, \<^verbatim>\<open>api/v1alpha1/\<close>.
  \<^item> \<open>DeepCopy\<close>: the structures and their registration, and the generated deep copies of
    \<^verbatim>\<open>zz_generated.deepcopy.go\<close> on a heap of maps, arrays and structures. The agent's own view of a
    resource is \<open>image_cache\<close> of \<open>Reconcile\<close>.

  The command, \<^verbatim>\<open>internal/cli/\<close> and \<^verbatim>\<open>cmd/imagecachectl\<close>.
  \<^item> \<open>Cli\<close>: \<^verbatim>\<open>cli.go\<close>. \<open>CliSpec\<close>: what an import does. \<open>Interrupt\<close>: only
    a run whose context is cancelled answers as interrupted. \<open>Ctl\<close>: the process
    around it, its goroutine and its signals as a step relation. \<open>Seeding\<close>: the command and the agent
    together, an import and the pass that adopts it.

  \<^bold>\<open>Interfaces\<close>

  \<open>image_source\<close> states what the filling of a directory relies on: a puller leaves the node alone, its
  two methods agree, its errors are classified; it is interpreted on both pullers. \<open>simulation\<close>
  states what an implementation owes its specification; it is interpreted on the store and the shelf.
  \<open>file_keys\<close> states what the content check needs of a build's \<^verbatim>\<open>keyOf\<close>; it is interpreted on
  both builds. \<open>deep_copier\<close> states what a deep copy promises; it is interpreted on the generated ones.
  \<open>preorder_steps\<close> is interpreted once for each relation.

  \<^bold>\<open>What is shown\<close>

  For the store: an extraction publishes the whole archive or nothing, whatever fails;
  \<^verbatim>\<open>State\<close> answers \<^verbatim>\<open>Complete\<close> only for a directory that matches its record, and
  for every one an extraction published; a collection spares what a resource keeps or another writer
  owns; adoption is atomic; a directory being written is not swept away; the
  store refines the shelf, and what it alone wrote is well typed. For the stream: it ends as an archive only
  when every layer went through whole, and its goroutine always ends. For the agent: a label
  \<^verbatim>\<open>synced\<close> is true, a pass touches nothing else, converges when nothing fails, writes nothing without
  its mount, leaves a converged node alone and asks its puller for nothing there, and no change on disk stays unseen; its
  command line gives every setting it has. For the command: it touches its own directory only, its exit
  code tells the outcome and the first signal, a second import changes nothing, and the agent adopts what it filled. The kinds of the properties are in their
  own texts, numbered in the order of importance.

  \<^bold>\<open>Bounds\<close>

  A path walk follows at most 40 links and \<^verbatim>\<open>MkdirTemp\<close> tries 10000 names, as the kernel and Go do; a
  creation makes 3 directories (\<open>temporary_tries\<close>) and 13 steps; the channel of triggers holds 1; a file is hashed in pieces of
  32 KiB, the buffer of \<^verbatim>\<open>io.Copy\<close>.
  None is fuel: every function of the model is total by structural recursion or by a measure. Sizes are
  \<^typ>\<open>int\<close>, and \<open>int64\<close> where JSON reads them back; times are nanoseconds.

  \<^bold>\<open>Parameters\<close>

  Code that is not the program's: the image library and the certificate pool (\<open>image_library\<close>),
  \<^verbatim>\<open>fsnotify\<close>, the Kubernetes client (\<open>cluster\<close>), the controller-runtime manager
  (\<open>manager_lib\<close>) and the flags other packages register, its scheme (\<open>scheme_lib\<close>), cobra, given the commands the program
  declares, the deep copies of the metadata, and the validation of DNS-1123 names. A property that relies on one of
  them says so among its hypotheses: \<open>dns_law\<close>, \<open>watch_laws\<close>, \<open>context_law\<close> and \<open>refusals_fine\<close> (an error wraps
  \<^verbatim>\<open>context.Canceled\<close> only once the context is cancelled).

  \<^bold>\<open>Not modelled\<close>

  The validation markers of the CRD; log lines, zap's
  options, and the properties of errors only log lines show. A mutex makes its critical section one step. The
  store reads the layer stream from one synchronous function, which \<open>Pipe\<close> shows to be what the reader of the pipe
  sees. A directory name drawn by
  \<^verbatim>\<open>MkdirTemp\<close> a second time is not considered in \<open>TempLock\<close>.

  \<^bold>\<open>What modelling showed\<close>

  A file whose name is not valid UTF-8 is extracted but never found again, as JSON cannot write its
  name (\<open>invalid_name_incomplete\<close>). A file named like the temporary file of the sentinel is lost when its
  directory is adopted (\<open>adopt_atomic\<close>, \<open>adopted_item\<close>). A file rewritten at the same size at any time between its last
  write in the temporary directory and the moment its digest is remembered is taken for what was extracted until
  the agent restarts (\<open>rewritten_before_remembered\<close>); the design names only a rewrite in the same tick.
\<close>

end
